(* ===== verification/Prelude.thy ===== *)
theory Prelude
  imports Main "HOL-Library.Word" "HOL-Library.List_Lexorder"
begin

text \<open>
  Shared vocabulary of the development: Rust strings with their UTF-8 bytes, the standard
  library operations the crate uses on them (\<open>trim\<close>, \<open>len\<close>, \<open>cmp\<close>, \<open>contains\<close>),
  decimal printing, \<open>Duration\<close> and the unsigned integers, the result type, and the generic
  lemmas on lists, maps and words the component theories lean on.

  Rust's \<open>Result<T, E>\<close> is the sum \<open>'e + 't\<close>: \<open>Inl\<close> is \<open>Err\<close>, \<open>Inr\<close> is \<open>Ok\<close>.
\<close>

named_theorems sql_defs \<open>the SQL constants of the backends, unfolded to statements\<close>
named_theorems check_rules \<open>how the steps of a conformance check compose\<close>

subsection \<open>Results\<close>

text \<open>\<open>map_err f r\<close> is Rust's \<open>r.map_err(f)\<close>: what \<open>?\<close> does with a \<open>From\<close> conversion.\<close>

fun map_err :: "('e \<Rightarrow> 'f) \<Rightarrow> 'e + 'a \<Rightarrow> 'f + 'a" where
  "map_err f (Inl e) = Inl (f e)"
| "map_err f (Inr a) = Inr a"

lemma map_err_Inr_iff [simp]: "map_err f r = Inr a \<longleftrightarrow> r = Inr a"
  by (cases r) auto

lemma map_err_Inl_iff: "map_err f r = Inl e \<longleftrightarrow> (\<exists>e0. r = Inl e0 \<and> e = f e0)"
  by (cases r) auto

subsection \<open>Strings\<close>

text \<open>
  A Rust \<open>str\<close> is a sequence of Unicode scalar values stored as UTF-8. The model keeps the
  scalar values (naturals) and computes the bytes, because \<open>trim\<close> works on characters while
  \<open>len\<close> and \<open>cmp\<close> work on bytes.
\<close>

type_synonym str = "nat list"

definition lit :: "string \<Rightarrow> str" where
  "lit s = map of_char s"

lemma lit_simps [simp]: "lit [] = []" "lit (c # cs) = of_char c # lit cs"
  by (simp_all add: lit_def)

definition scalar_value :: "nat \<Rightarrow> bool" where
  "scalar_value c \<longleftrightarrow> c < 0x110000 \<and> \<not> (0xD800 \<le> c \<and> c < 0xE000)"

definition utf8_char :: "nat \<Rightarrow> nat list" where
  "utf8_char c =
     (if c < 0x80 then [c]
      else if c < 0x800 then [0xC0 + c div 64, 0x80 + c mod 64]
      else if c < 0x10000 then [0xE0 + c div 4096, 0x80 + c div 64 mod 64, 0x80 + c mod 64]
      else [0xF0 + c div 262144, 0x80 + c div 4096 mod 64, 0x80 + c div 64 mod 64, 0x80 + c mod 64])"

definition as_bytes :: "str \<Rightarrow> nat list" where
  "as_bytes s = concat (map utf8_char s)"

lemma as_bytes_simps [simp]:
  "as_bytes [] = []" "as_bytes (c # s) = utf8_char c @ as_bytes s"
  "as_bytes (s @ t) = as_bytes s @ as_bytes t"
  by (simp_all add: as_bytes_def)

text \<open>\<open>str::len\<close> counts bytes.\<close>

definition str_len :: "str \<Rightarrow> nat" where
  "str_len s = length (as_bytes s)"

text \<open>\<open>char::is_whitespace\<close>: the Unicode \<open>White_Space\<close> property.\<close>

definition is_whitespace :: "nat \<Rightarrow> bool" where
  "is_whitespace c \<longleftrightarrow>
     (0x9 \<le> c \<and> c \<le> 0xD) \<or> c = 0x20 \<or> c = 0x85 \<or> c = 0xA0 \<or> c = 0x1680 \<or>
     (0x2000 \<le> c \<and> c \<le> 0x200A) \<or> c = 0x2028 \<or> c = 0x2029 \<or> c = 0x202F \<or>
     c = 0x205F \<or> c = 0x3000"

text \<open>For evaluation: the comparisons on binary numbers.\<close>

lemma is_whitespace_code [code]:
  "is_whitespace c \<longleftrightarrow>
     (let i = int c
      in (0x9 \<le> i \<and> i \<le> 0xD) \<or> i = 0x20 \<or> i = 0x85 \<or> i = 0xA0 \<or> i = 0x1680 \<or>
         (0x2000 \<le> i \<and> i \<le> 0x200A) \<or> i = 0x2028 \<or> i = 0x2029 \<or> i = 0x202F \<or>
         i = 0x205F \<or> i = 0x3000)"
  by (simp add: is_whitespace_def Let_def)

definition trim :: "str \<Rightarrow> str" where
  "trim s = rev (dropWhile is_whitespace (rev (dropWhile is_whitespace s)))"

lemma utf8_char_nonempty [simp]: "utf8_char c \<noteq> []"
  by (simp add: utf8_char_def)

lemma str_len_simps [simp]:
  "str_len [] = 0" "str_len (c # s) = length (utf8_char c) + str_len s"
  "str_len (s @ t) = str_len s + str_len t"
  by (simp_all add: str_len_def)

lemma str_len_0_iff [simp]: "str_len s = 0 \<longleftrightarrow> s = []"
  by (cases s) auto

lemma as_bytes_eq_Nil_iff [simp]: "as_bytes s = [] \<longleftrightarrow> s = []"
  by (cases s) auto

lemma length_le_str_len: "length s \<le> str_len s"
proof (induction s)
  case (Cons c s)
  have "0 < length (utf8_char c)" by simp
  with Cons show ?case by (simp del: length_greater_0_conv)
qed simp

lemma str_len_ascii: "\<forall>c\<in>set s. c < 0x80 \<Longrightarrow> str_len s = length s"
  by (induction s) (auto simp: utf8_char_def)

text \<open>\<open>trim\<close> drops a whitespace prefix and a whitespace suffix, so it is the identity exactly
  when it does not change the length.\<close>

lemma trim_decompose:
  "\<exists>p q. s = p @ trim s @ q \<and> (\<forall>c\<in>set p. is_whitespace c) \<and> (\<forall>c\<in>set q. is_whitespace c)"
proof -
  let ?t = "dropWhile is_whitespace s"
  let ?q = "rev (takeWhile is_whitespace (rev ?t))"
  have "rev ?t = takeWhile is_whitespace (rev ?t) @ dropWhile is_whitespace (rev ?t)"
    by simp
  then have "?t = trim s @ ?q"
    unfolding trim_def by (metis rev_append rev_rev_ident)
  then have "s = takeWhile is_whitespace s @ trim s @ ?q"
    by (metis takeWhile_dropWhile_id)
  moreover have "\<forall>c\<in>set (takeWhile is_whitespace s). is_whitespace c" "\<forall>c\<in>set ?q. is_whitespace c"
    by (auto dest: set_takeWhileD)
  ultimately show ?thesis by blast
qed

lemma trim_len_eq_iff: "str_len (trim s) = str_len s \<longleftrightarrow> trim s = s"
proof
  assume len: "str_len (trim s) = str_len s"
  obtain p q where s: "s = p @ trim s @ q" using trim_decompose by blast
  then have "str_len s = str_len p + str_len (trim s) + str_len q"
    by (metis add.assoc str_len_simps(3))
  with len have "p = []" "q = []" by simp_all
  with s show "trim s = s" by simp
qed simp

lemma trim_fixed_iff:
  "trim s = s \<longleftrightarrow> s = [] \<or> (\<not> is_whitespace (hd s) \<and> \<not> is_whitespace (last s))"
proof (cases "s = []")
  case False
  show ?thesis
  proof
    assume t: "trim s = s"
    have "dropWhile is_whitespace s = s"
    proof (rule ccontr)
      assume "dropWhile is_whitespace s \<noteq> s"
      then have "length (dropWhile is_whitespace s) < length s"
        by (metis length_dropWhile_le nat_less_le takeWhile_dropWhile_id append_self_conv2
            append_eq_append_conv)
      moreover have "length (trim s) \<le> length (dropWhile is_whitespace s)"
        unfolding trim_def by (metis length_dropWhile_le length_rev)
      ultimately show False using t by simp
    qed
    then have "\<not> is_whitespace (hd s)"
      using False by (metis hd_dropWhile)
    moreover have "\<not> is_whitespace (last s)"
      using t False \<open>dropWhile is_whitespace s = s\<close> unfolding trim_def
      by (metis hd_dropWhile hd_rev rev_is_Nil_conv rev_rev_ident)
    ultimately show "s = [] \<or> (\<not> is_whitespace (hd s) \<and> \<not> is_whitespace (last s))"
      by simp
  next
    assume "s = [] \<or> (\<not> is_whitespace (hd s) \<and> \<not> is_whitespace (last s))"
    with False have "\<not> is_whitespace (hd s)" "\<not> is_whitespace (hd (rev s))"
      by (simp_all add: hd_rev)
    with False show "trim s = s"
      unfolding trim_def by (metis dropWhile_eq_self_iff rev_rev_ident)
  qed
qed (simp add: trim_def)

text \<open>
  UTF-8 keeps the order: comparing the bytes of two strings is comparing their scalar values.
  \<open>str::cmp\<close> orders by bytes, PostgreSQL's \<open>COLLATE "C"\<close> by bytes, MySQL's
  \<open>utf8mb4_0900_bin\<close> by code points; the lemma is why they agree.
\<close>

definition bytes_below :: "nat list \<Rightarrow> nat list \<Rightarrow> bool" where
  "bytes_below xs ys \<longleftrightarrow> (\<exists>p x y u v. xs = p @ x # u \<and> ys = p @ y # v \<and> x < (y::nat))"

lemma bytes_belowI: "x < y \<Longrightarrow> bytes_below (p @ x # u) (p @ y # v)"
  unfolding bytes_below_def by blast

lemma bytes_below_Cons:
  "bytes_below (x # xs) (y # ys) \<longleftrightarrow> x < y \<or> (x = y \<and> bytes_below xs ys)"
proof
  assume "bytes_below (x # xs) (y # ys)"
  then obtain p a b u v where *: "x # xs = p @ a # u" "y # ys = p @ b # v" "a < b"
    unfolding bytes_below_def by blast
  show "x < y \<or> (x = y \<and> bytes_below xs ys)"
  proof (cases p)
    case (Cons c p')
    with * show ?thesis by (auto intro: bytes_belowI)
  qed (use * in auto)
next
  assume "x < y \<or> (x = y \<and> bytes_below xs ys)"
  then show "bytes_below (x # xs) (y # ys)"
  proof
    assume "x < y"
    then show ?thesis using bytes_belowI [of x y "[]"] by simp
  next
    assume "x = y \<and> bytes_below xs ys"
    then show ?thesis unfolding bytes_below_def by (metis append_Cons)
  qed
qed

lemma bytes_below_Nil [simp]: "\<not> bytes_below [] ys" "\<not> bytes_below xs []"
  by (auto simp: bytes_below_def)

lemma bytes_below_append_less: "bytes_below xs ys \<Longrightarrow> xs @ s < ys @ (t :: nat list)"
  by (auto simp: bytes_below_def list_less_def lexord_append_leftI lexord_append_left_rightI)

lemma div_mod_lex:
  fixes a b k :: nat
  assumes "a < b"
  shows "a div k < b div k \<or> (a div k = b div k \<and> a mod k < b mod k)"
proof (cases "a div k = b div k")
  case True
  then have "a mod k < b mod k"
    using assms by (metis div_mult_mod_eq nat_add_left_cancel_less)
  with True show ?thesis by simp
next
  case False
  moreover have "a div k \<le> b div k" using assms by (simp add: div_le_mono)
  ultimately show ?thesis by simp
qed

lemma utf8_digits_below:
  fixes c d :: nat
  assumes "c < d"
  shows "bytes_below [m + c div 64, n + c mod 64] [m + d div 64, n + d mod 64]"
    and "bytes_below [l + c div 4096, m + c div 64 mod 64, n + c mod 64]
           [l + d div 4096, m + d div 64 mod 64, n + d mod 64]"
    and "bytes_below [k + c div 262144, l + c div 4096 mod 64, m + c div 64 mod 64, n + c mod 64]
           [k + d div 262144, l + d div 4096 mod 64, m + d div 64 mod 64, n + d mod 64]"
proof -
  have 64: "x div 4096 = x div 64 div 64" "x div 262144 = x div 4096 div 64" for x :: nat
    by (simp_all add: div_mult2_eq [symmetric])
  note lex = div_mod_lex [where k = 64]
  show "bytes_below [m + c div 64, n + c mod 64] [m + d div 64, n + d mod 64]"
    using lex [OF assms] by (auto simp: bytes_below_Cons)
  have two: "c div 64 < d div 64 \<Longrightarrow> c div 4096 < d div 4096 \<or>
      (c div 4096 = d div 4096 \<and> c div 64 mod 64 < d div 64 mod 64)"
    unfolding 64(1) by (rule lex)
  have three: "c div 4096 < d div 4096 \<Longrightarrow> c div 262144 < d div 262144 \<or>
      (c div 262144 = d div 262144 \<and> c div 4096 mod 64 < d div 4096 mod 64)"
    unfolding 64(2) by (rule lex)
  have eq: "c div 64 = d div 64 \<Longrightarrow> c div 4096 = d div 4096" "c div 4096 = d div 4096 \<Longrightarrow> c div 262144 = d div 262144"
    unfolding 64 by simp_all
  show "bytes_below [l + c div 4096, m + c div 64 mod 64, n + c mod 64]
           [l + d div 4096, m + d div 64 mod 64, n + d mod 64]"
    using lex [OF assms] two eq(1) by (auto simp: bytes_below_Cons)
  show "bytes_below [k + c div 262144, l + c div 4096 mod 64, m + c div 64 mod 64, n + c mod 64]
           [k + d div 262144, l + d div 4096 mod 64, m + d div 64 mod 64, n + d mod 64]"
    using lex [OF assms] two three eq by (auto simp: bytes_below_Cons)
qed

lemma utf8_char_lead:
  "c < 0x80 \<Longrightarrow> utf8_char c = [c]"
  "0x80 \<le> c \<Longrightarrow> c < 0x800 \<Longrightarrow> utf8_char c = [0xC0 + c div 64, 0x80 + c mod 64] \<and> c div 64 < 32"
  "0x800 \<le> c \<Longrightarrow> c < 0x10000 \<Longrightarrow>
     utf8_char c = [0xE0 + c div 4096, 0x80 + c div 64 mod 64, 0x80 + c mod 64] \<and> c div 4096 < 16"
  "0x10000 \<le> c \<Longrightarrow>
     utf8_char c = [0xF0 + c div 262144, 0x80 + c div 4096 mod 64, 0x80 + c div 64 mod 64, 0x80 + c mod 64]"
  by (simp_all add: utf8_char_def less_mult_imp_div_less)

lemma utf8_char_below:
  assumes "c < d"
  shows "bytes_below (utf8_char c) (utf8_char d)"
proof -
  consider "d < 0x80" | "c < 0x80" "0x80 \<le> d" | "0x80 \<le> c" "d < 0x800"
    | "0x80 \<le> c" "c < 0x800" "0x800 \<le> d" | "0x800 \<le> c" "d < 0x10000"
    | "0x800 \<le> c" "c < 0x10000" "0x10000 \<le> d" | "0x10000 \<le> c"
    by linarith
  then show ?thesis
  proof cases
    case 1 with assms show ?thesis by (simp add: utf8_char_lead bytes_below_Cons)
  next
    case 2 then show ?thesis by (auto simp: utf8_char_def bytes_below_Cons)
  next
    case 3 with assms show ?thesis
      using utf8_char_lead(2) [of c] utf8_char_lead(2) [of d] utf8_digits_below(1) [OF assms] by simp
  next
    case 4 then show ?thesis
      using utf8_char_lead(2) [of c] by (auto simp: utf8_char_def bytes_below_Cons)
  next
    case 5 with assms show ?thesis
      using utf8_char_lead(3) [of c] utf8_char_lead(3) [of d] utf8_digits_below(2) [OF assms] by simp
  next
    case 6 then show ?thesis
      using utf8_char_lead(3) [of c] by (auto simp: utf8_char_def bytes_below_Cons)
  next
    case 7 with assms show ?thesis
      using utf8_char_lead(4) [of c] utf8_char_lead(4) [of d] utf8_digits_below(3) [OF assms] by simp
  qed
qed

lemma as_bytes_less:
  "s < t \<Longrightarrow> as_bytes s < as_bytes (t :: str)"
proof (induction s arbitrary: t)
  case Nil
  then obtain d t' where "t = d # t'" by (cases t) auto
  moreover obtain x xs where "utf8_char d = x # xs" by (cases "utf8_char d") auto
  ultimately show ?case by simp
next
  case (Cons c s)
  then obtain d t' where t: "t = d # t'" by (cases t) auto
  with Cons.prems consider "c < d" | "c = d" "s < t'" by auto
  then show ?case
  proof cases
    case 1
    with t show ?thesis by (simp add: bytes_below_append_less utf8_char_below)
  next
    case 2
    with t Cons.IH [of t'] show ?thesis
      by (simp add: list_less_def lexord_append_leftI)
  qed
qed

theorem as_bytes_le_iff: "as_bytes s \<le> as_bytes t \<longleftrightarrow> s \<le> (t :: str)"
  by (metis as_bytes_less leD linorder_le_cases order_le_less)

lemma as_bytes_less_iff: "as_bytes s < as_bytes t \<longleftrightarrow> s < (t :: str)"
  by (simp add: as_bytes_le_iff less_le_not_le)

lemma as_bytes_inject [simp]: "as_bytes s = as_bytes t \<longleftrightarrow> s = t"
  by (metis as_bytes_le_iff order_antisym order_refl)

subsection \<open>Decimal printing\<close>

text \<open>\<open>format!("{n}")\<close> for an unsigned integer.\<close>

fun show_nat :: "nat \<Rightarrow> str" where
  "show_nat n = (if n < 10 then [48 + n] else show_nat (n div 10) @ [48 + n mod 10])"

declare show_nat.simps [simp del]

fun read_nat :: "str \<Rightarrow> nat" where
  "read_nat s = foldl (\<lambda>n c. 10 * n + (c - 48)) 0 s"

declare read_nat.simps [simp del]

lemma read_nat_snoc: "read_nat (s @ [c]) = 10 * read_nat s + (c - 48)"
  by (simp add: read_nat.simps)

lemma read_show_nat [simp]: "read_nat (show_nat n) = n"
proof (induction n rule: show_nat.induct)
  case (1 n)
  show ?case
  proof (cases "n < 10")
    case True
    then show ?thesis by (simp add: show_nat.simps [of n] read_nat.simps)
  next
    case False
    with 1 show ?thesis by (simp add: show_nat.simps [of n] read_nat_snoc)
  qed
qed

lemma show_nat_inject [simp]: "show_nat m = show_nat n \<longleftrightarrow> m = n"
  by (metis read_show_nat)

lemma show_nat_nonempty [simp]: "show_nat n \<noteq> []"
  by (subst show_nat.simps) simp

lemma show_nat_digits: "c \<in> set (show_nat n) \<Longrightarrow> 48 \<le> c \<and> c < 58"
proof (induction n rule: show_nat.induct)
  case (1 n)
  then show ?case by (cases "n < 10") (auto simp: show_nat.simps [of n])
qed

text \<open>The digits of \<open>format!("{n:x}")\<close>.\<close>

definition hex_digit :: "nat \<Rightarrow> nat" where
  "hex_digit d = (if d < 10 then 48 + d else 87 + d)"

fun show_hex :: "nat \<Rightarrow> str" where
  "show_hex n = (if n < 16 then [hex_digit n] else show_hex (n div 16) @ [hex_digit (n mod 16)])"

declare show_hex.simps [simp del]

definition read_hex :: "str \<Rightarrow> nat" where
  "read_hex s = foldl (\<lambda>n c. 16 * n + (if c < 58 then c - 48 else c - 87)) 0 s"

lemma read_hex_snoc: "read_hex (s @ [c]) = 16 * read_hex s + (if c < 58 then c - 48 else c - 87)"
  by (simp add: read_hex_def)

lemma read_show_hex [simp]: "read_hex (show_hex n) = n"
proof (induction n rule: show_hex.induct)
  case (1 n)
  show ?case
  proof (cases "n < 16")
    case True
    then show ?thesis by (simp add: show_hex.simps [of n] read_hex_def hex_digit_def)
  next
    case False
    with 1 have "read_hex (show_hex n) = 16 * (n div 16) + n mod 16"
      by (simp add: show_hex.simps [of n] read_hex_snoc hex_digit_def)
    then show ?thesis by simp
  qed
qed

lemma read_hex_zeros [simp]: "read_hex (replicate k 48 @ s) = read_hex s"
  by (induction k) (simp_all add: read_hex_def)

lemma show_hex_digits: "c \<in> set (show_hex n) \<Longrightarrow> 48 \<le> c \<and> c \<le> 57 \<or> 97 \<le> c \<and> c \<le> 102"
proof (induction n rule: show_hex.induct)
  case (1 n)
  have digit: "48 \<le> hex_digit d \<and> hex_digit d \<le> 57 \<or> 97 \<le> hex_digit d \<and> hex_digit d \<le> 102" if "d < 16" for d
    using that by (auto simp: hex_digit_def)
  show ?case
  proof (cases "n < 16")
    case True
    with 1(2) digit [OF True] show ?thesis by (simp add: show_hex.simps [of n])
  next
    case False
    with 1 digit [of "n mod 16"] show ?thesis by (simp add: show_hex.simps [of n]) blast
  qed
qed

lemma length_show_hex: "n < 16 ^ Suc k \<Longrightarrow> length (show_hex n) \<le> Suc k"
proof (induction k arbitrary: n)
  case 0
  then show ?case by (simp add: show_hex.simps [of n])
next
  case (Suc k)
  then have "n div 16 < 16 ^ Suc k" by (simp add: less_mult_imp_div_less mult.commute)
  from Suc.IH [OF this] show ?case by (simp add: show_hex.simps [of n])
qed

subsection \<open>Machine integers and durations\<close>

type_synonym u32 = "32 word"
type_synonym u64 = "64 word"
type_synonym u128 = "128 word"

text \<open>\<open>std::time::Duration\<close>: whole seconds and the nanoseconds within the second.\<close>

record duration =
  dur_secs :: u64
  dur_nanos :: u32

definition duration_wf :: "duration \<Rightarrow> bool" where
  "duration_wf d \<longleftrightarrow> unat (dur_nanos d) < 1000000000"

definition duration_of_nanos :: "nat \<Rightarrow> duration" where
  "duration_of_nanos n = \<lparr>dur_secs = of_nat (n div 1000000000), dur_nanos = of_nat (n mod 1000000000)\<rparr>"

definition as_nanos :: "duration \<Rightarrow> u128" where
  "as_nanos d = ucast (dur_secs d) * 1000000000 + ucast (dur_nanos d)"

definition as_micros :: "duration \<Rightarrow> u128" where
  "as_micros d = ucast (dur_secs d) * 1000000 + ucast (dur_nanos d div 1000)"

definition div_ceil :: "'a::len word \<Rightarrow> 'a word \<Rightarrow> 'a word" where
  "div_ceil a b = (if a mod b > 0 then a div b + 1 else a div b)"

lemma unat_ucast_widen:
  "LENGTH('a::len) \<le> LENGTH('b::len) \<Longrightarrow> unat (ucast (x :: 'a word) :: 'b word) = unat x"
proof -
  assume "LENGTH('a) \<le> LENGTH('b)"
  then have "unat x < 2 ^ LENGTH('b)"
    using unsigned_less [of x] by (metis order_less_le_trans one_le_numeral power_increasing)
  then show ?thesis
    by (simp add: unsigned_ucast_eq take_bit_nat_eq_self)
qed

lemma unat_as_nanos: "unat (as_nanos d) = unat (dur_secs d) * 1000000000 + unat (dur_nanos d)"
proof -
  have s: "unat (dur_secs d) < 2 ^ 64" and n: "unat (dur_nanos d) < 2 ^ 32"
    using unsigned_less [of "dur_secs d"] unsigned_less [of "dur_nanos d"] by simp_all
  have "unat (ucast (dur_secs d) :: u128) = unat (dur_secs d)"
    "unat (ucast (dur_nanos d) :: u128) = unat (dur_nanos d)"
    by (simp_all add: unat_ucast_widen)
  with s n show ?thesis
    unfolding as_nanos_def by (simp add: unat_word_ariths)
qed

lemma unat_as_micros: "unat (as_micros d) = unat (dur_secs d) * 1000000 + unat (dur_nanos d) div 1000"
proof -
  have s: "unat (dur_secs d) < 2 ^ 64" and n: "unat (dur_nanos d) < 2 ^ 32"
    using unsigned_less [of "dur_secs d"] unsigned_less [of "dur_nanos d"] by simp_all
  have "unat (ucast (dur_secs d) :: u128) = unat (dur_secs d)"
    "unat (ucast (dur_nanos d div 1000) :: u128) = unat (dur_nanos d) div 1000"
    by (simp_all add: unat_ucast_widen unat_div)
  moreover have "unat (dur_nanos d) div 1000 < 2 ^ 32" using n by linarith
  ultimately show ?thesis using s
    unfolding as_micros_def by (simp add: unat_word_ariths)
qed

lemma nat_div_ceil:
  fixes a b :: nat
  assumes "0 < b"
  shows "(a + b - 1) div b = (if a mod b > 0 then a div b + 1 else a div b)"
proof (cases "a mod b > 0")
  case True
  have "a + b - 1 = (a mod b - 1) + (a div b + 1) * b"
    using True div_mult_mod_eq [of a b] by simp
  also have "\<dots> div b = (a div b + 1) + (a mod b - 1) div b"
    by (rule div_mult_self1) (use assms in simp)
  also have "(a mod b - 1) div b = 0"
    using assms mod_less_divisor [OF assms, of a] by (simp add: less_imp_diff_less)
  finally show ?thesis using True by simp
next
  case False
  have "a + b - 1 = (b - 1) + (a div b) * b"
    using False assms div_mult_mod_eq [of a b] by simp
  also have "\<dots> div b = a div b + (b - 1) div b"
    by (rule div_mult_self1) (use assms in simp)
  finally show ?thesis using False assms by simp
qed

lemma unat_div_ceil:
  fixes a b :: "'a::len word"
  assumes "1 < unat b"
  shows "unat (div_ceil a b) = (unat a + unat b - 1) div unat b"
proof -
  have b0: "0 < unat b" using assms by simp
  have quot: "unat a div unat b < 2 ^ LENGTH('a) - 1"
  proof -
    have "unat a div unat b \<le> unat a div 2" using assms by (simp add: div_le_mono2)
    moreover have "unat a < 2 ^ LENGTH('a)" by (rule unsigned_less)
    moreover have "(2::nat) \<le> 2 ^ LENGTH('a)" by (simp add: self_le_power)
    ultimately show ?thesis by linarith
  qed
  have "(unat a + unat b - 1) div unat b =
      (if unat a mod unat b > 0 then unat a div unat b + 1 else unat a div unat b)"
    using b0 by (rule nat_div_ceil)
  moreover have "(a mod b > 0) = (unat a mod unat b > 0)"
    by (simp add: word_less_nat_alt unat_mod)
  moreover have "unat (a div b + 1) = unat a div unat b + 1"
    using quot by (simp add: unat_word_ariths unat_div)
  ultimately show ?thesis
    by (simp add: div_ceil_def unat_div)
qed

lemma unat_max: "unat (max a b) = max (unat a) (unat (b :: 'a::len word))"
  by (simp add: max_def word_le_nat_alt)

lemma unat_min: "unat (min a b) = min (unat a) (unat (b :: 'a::len word))"
  by (simp add: min_def word_le_nat_alt)

text \<open>A duration in units of \<open>b\<close> nanoseconds, rounded up.\<close>

lemma unat_div_ceil_nanos:
  assumes "1 < unat (b :: u128)"
  shows "unat (div_ceil (as_nanos t) b) =
    (unat (dur_secs t) * 1000000000 + unat (dur_nanos t) + (unat b - 1)) div unat b"
  using unat_div_ceil [OF assms, of "as_nanos t"] assms by (simp add: unat_as_nanos)

end
