(* ===== verification/Errors.thy ===== *)
theory Errors
  imports Prelude
begin

text \<open>
  The error types of \<^verbatim>\<open>src/src/error.rs\<close> with their \<open>Display\<close> texts and \<open>From\<close>
  conversions. A boxed \<open>dyn Error\<close> is kept as far as the crate can tell errors apart: a
  \<open>sqlx::Error\<close> or a message. Of \<open>sqlx::Error\<close>, which is not part of the repository, the
  model keeps what the crate inspects: whether it is a \<open>Database\<close> error, its \<open>code()\<close>, and
  the number a downcast to \<open>MySqlDatabaseError\<close> yields (\<open>None\<close> when the downcast fails).
\<close>

type_synonym handler_error = str

datatype sqlx_error =
    Database (db_code: "str option") (mysql_number: "16 word option")
  | OtherSqlx str

datatype boxed_error = BoxSqlx sqlx_error | BoxMsg str

datatype invalid_id =
    EmptyId
  | TooLong (too_long_len: nat) (too_long_max: nat)
  | ScopeContainsSeparator
  | SurroundingWhitespace

datatype inbox_error =
    Backend boxed_error
  | Handler handler_error
  | Contended
  | InvalidId invalid_id

fun display_invalid_id :: "invalid_id \<Rightarrow> str" where
  "display_invalid_id EmptyId = lit ''identifier is empty''"
| "display_invalid_id (TooLong len max_len) =
     lit ''identifier is '' @ show_nat len @ lit '' bytes, exceeding the '' @ show_nat max_len @
     lit ''-byte limit''"
| "display_invalid_id ScopeContainsSeparator = lit ''scope contains the ':' separator''"
| "display_invalid_id SurroundingWhitespace = lit ''identifier has leading or trailing whitespace''"

text \<open>\<open>disp\<close> prints the wrapped backend error; its text belongs to the driver.\<close>

fun display_inbox_error :: "(boxed_error \<Rightarrow> str) \<Rightarrow> inbox_error \<Rightarrow> str" where
  "display_inbox_error disp (Backend e) = lit ''inbox backend failure: '' @ disp e"
| "display_inbox_error disp (Handler e) = lit ''inbox handler failure: '' @ e"
| "display_inbox_error disp Contended =
     lit ''inbox claim contended: another consumer holds the row''"
| "display_inbox_error disp (InvalidId e) = lit ''invalid identifier: '' @ display_invalid_id e"

definition inbox_error_from_sqlx :: "sqlx_error \<Rightarrow> inbox_error" where
  "inbox_error_from_sqlx value = Backend (BoxSqlx value)"

definition inbox_error_from_invalid_id :: "invalid_id \<Rightarrow> inbox_error" where
  "inbox_error_from_invalid_id value = InvalidId value"

text \<open>What a caller does with an error, as the documentation of the variants says: contention
  and backend failures are retried, an invalid identifier is permanent.\<close>

definition retryable :: "inbox_error \<Rightarrow> bool" where
  "retryable e \<longleftrightarrow> (case e of InvalidId _ \<Rightarrow> False | _ \<Rightarrow> True)"

lemma retryable_conversions [simp]:
  "retryable (inbox_error_from_sqlx e)" "\<not> retryable (inbox_error_from_invalid_id i)"
  by (simp_all add: retryable_def inbox_error_from_sqlx_def inbox_error_from_invalid_id_def)

end
