(* ===== verification/Types.thy ===== *)
theory Types
  imports Errors
begin

text \<open>
  The identifiers and plain data of \<^verbatim>\<open>src/src/types.rs\<close>: \<open>ConsumerId\<close> and \<open>MessageId\<close> with
  their validating constructors, \<open>MessageId::scoped\<close>, \<open>Claim\<close>, \<open>ClaimRequest\<close>,
  \<open>ClaimBatch\<close> and \<open>Outcome\<close>. The constructors are private in the crate, so every
  identifier satisfies \<open>valid_id\<close>.
\<close>

datatype consumer_id = ConsumerId (consumer_str: str)
datatype message_id = MessageId (message_str: str)

definition consumer_MAX_LEN :: nat where
  "consumer_MAX_LEN = 255"

definition message_MAX_LEN :: nat where
  "message_MAX_LEN = 512"

text \<open>The body of \<open>try_from\<close> in the macro \<open>string_newtype!\<close>, for either type.\<close>

definition check_id :: "nat \<Rightarrow> str \<Rightarrow> invalid_id + str" where
  "check_id max_len value =
     (if trim value = [] then Inl EmptyId
      else if str_len (trim value) \<noteq> str_len value then Inl SurroundingWhitespace
      else if str_len value > max_len then Inl (TooLong (str_len value) max_len)
      else Inr value)"

definition consumer_try_from :: "str \<Rightarrow> invalid_id + consumer_id" where
  "consumer_try_from value = map_sum id ConsumerId (check_id consumer_MAX_LEN value)"

definition message_try_from :: "str \<Rightarrow> invalid_id + message_id" where
  "message_try_from value = map_sum id MessageId (check_id message_MAX_LEN value)"

text \<open>\<open>Display\<close> writes the string unchanged.\<close>

definition display_consumer :: "consumer_id \<Rightarrow> str" where
  "display_consumer c = consumer_str c"

definition display_message :: "message_id \<Rightarrow> str" where
  "display_message m = message_str m"

text \<open>The check of one part inside the loop of \<open>scoped\<close>, then the loop itself: the first
  failing part decides.\<close>

definition check_part :: "str \<Rightarrow> invalid_id option" where
  "check_part part =
     (if trim part = [] then Some EmptyId
      else if str_len (trim part) \<noteq> str_len part then Some SurroundingWhitespace
      else None)"

fun check_parts :: "str list \<Rightarrow> invalid_id option" where
  "check_parts [] = None"
| "check_parts (part # parts) =
     (case check_part part of Some e \<Rightarrow> Some e | None \<Rightarrow> check_parts parts)"

definition colon :: nat where
  "colon = 58"

definition scoped :: "str \<Rightarrow> str \<Rightarrow> invalid_id + message_id" where
  "scoped scope ident =
     (if colon \<in> set scope then Inl ScopeContainsSeparator
      else case check_parts [scope, ident] of
        Some e \<Rightarrow> Inl e
      | None \<Rightarrow> message_try_from (scope @ [colon] @ ident))"

datatype claim = Fresh | Duplicate

record claim_request =
  req_consumer :: consumer_id
  req_id :: message_id
  req_lock_timeout :: "duration option"

definition claim_request_new :: "consumer_id \<Rightarrow> message_id \<Rightarrow> claim_request" where
  "claim_request_new consumer ident =
     \<lparr>req_consumer = consumer, req_id = ident, req_lock_timeout = None\<rparr>"

definition claim_request_with_lock_timeout :: "duration \<Rightarrow> claim_request \<Rightarrow> claim_request" where
  "claim_request_with_lock_timeout t r = r\<lparr>req_lock_timeout := Some t\<rparr>"

record claim_batch =
  batch_consumer :: consumer_id
  batch_ids :: "message_id list"
  batch_lock_timeout :: "duration option"

definition claim_batch_new :: "consumer_id \<Rightarrow> message_id list \<Rightarrow> claim_batch" where
  "claim_batch_new consumer ids =
     \<lparr>batch_consumer = consumer, batch_ids = ids, batch_lock_timeout = None\<rparr>"

definition claim_batch_with_lock_timeout :: "duration \<Rightarrow> claim_batch \<Rightarrow> claim_batch" where
  "claim_batch_with_lock_timeout t b = b\<lparr>batch_lock_timeout := Some t\<rparr>"

lemma claim_request_new_simps [simp]:
  "req_consumer (claim_request_new c m) = c" "req_id (claim_request_new c m) = m"
  "req_lock_timeout (claim_request_new c m) = None"
  by (simp_all add: claim_request_new_def)

lemma claim_batch_new_simps [simp]:
  "batch_consumer (claim_batch_new c ids) = c" "batch_ids (claim_batch_new c ids) = ids"
  "batch_lock_timeout (claim_batch_new c ids) = None"
  by (simp_all add: claim_batch_new_def)

datatype 't outcome = Processed 't | DuplicateOutcome

fun processed :: "'t outcome \<Rightarrow> 't option" where
  "processed (Processed value) = Some value"
| "processed DuplicateOutcome = None"

subsection \<open>Identifiers are ordered by their bytes\<close>

text \<open>\<open>str\<close> orders by bytes; the consumer sorts a batch in that order and the backends lock in
  it.\<close>

instantiation message_id :: linorder
begin

definition less_eq_message_id :: "message_id \<Rightarrow> message_id \<Rightarrow> bool" where
  "a \<le> b \<longleftrightarrow> as_bytes (message_str a) \<le> as_bytes (message_str b)"

definition less_message_id :: "message_id \<Rightarrow> message_id \<Rightarrow> bool" where
  "a < b \<longleftrightarrow> as_bytes (message_str a) < as_bytes (message_str b)"

instance
proof
  fix a b c :: message_id
  show "(a < b) = (a \<le> b \<and> \<not> b \<le> a)"
    unfolding less_eq_message_id_def less_message_id_def by (rule less_le_not_le)
  show "a \<le> a" by (simp add: less_eq_message_id_def)
  show "a \<le> b \<Longrightarrow> b \<le> c \<Longrightarrow> a \<le> c"
    unfolding less_eq_message_id_def by (rule order_trans)
  show "a \<le> b \<Longrightarrow> b \<le> a \<Longrightarrow> a = b"
    unfolding less_eq_message_id_def by (simp add: message_id.expand order_antisym)
  show "a \<le> b \<or> b \<le> a"
    unfolding less_eq_message_id_def by (rule linear)
qed

end

lemma message_id_le_code_points:
  "a \<le> b \<longleftrightarrow> message_str a \<le> message_str b" for a b :: message_id
  by (simp add: less_eq_message_id_def as_bytes_le_iff)

subsection \<open>Validation\<close>

definition valid_id :: "nat \<Rightarrow> str \<Rightarrow> bool" where
  "valid_id max_len s \<longleftrightarrow>
     s \<noteq> [] \<and> \<not> is_whitespace (hd s) \<and> \<not> is_whitespace (last s) \<and> str_len s \<le> max_len"

lemma trim_Nil_iff: "trim s = [] \<longleftrightarrow> (\<forall>c\<in>set s. is_whitespace c)"
proof
  assume "trim s = []"
  then show "\<forall>c\<in>set s. is_whitespace c"
    using trim_decompose [of s] by (metis Un_iff append_Nil set_append)
qed (auto simp: trim_def dropWhile_eq_Nil_conv dest: set_dropWhileD)

lemma check_part_None_iff:
  "check_part s = None \<longleftrightarrow> s \<noteq> [] \<and> \<not> is_whitespace (hd s) \<and> \<not> is_whitespace (last s)"
proof -
  have "trim [] = []" by (simp add: trim_def)
  then have "trim s \<noteq> [] \<and> trim s = s \<longleftrightarrow> s \<noteq> [] \<and> trim s = s" by auto
  then show ?thesis
    by (simp add: check_part_def trim_len_eq_iff trim_fixed_iff) blast
qed

lemma check_id_via_part:
  "check_id max_len s =
     (case check_part s of
        Some e \<Rightarrow> Inl e
      | None \<Rightarrow> if str_len s > max_len then Inl (TooLong (str_len s) max_len) else Inr s)"
  by (simp add: check_id_def check_part_def)

lemma check_id_ok_iff: "check_id max_len s = Inr t \<longleftrightarrow> t = s \<and> valid_id max_len s"
  by (auto simp: check_id_via_part valid_id_def check_part_None_iff [symmetric] split: option.splits)

lemma valid_id_not_blank: "valid_id max_len s \<Longrightarrow> \<not> (\<forall>c\<in>set s. is_whitespace c)"
  by (auto simp: valid_id_def dest: hd_in_set)

text \<open>C29: \<open>MessageId::try_from\<close> and \<open>ConsumerId::try_from\<close> on every input. A value of whitespace
  only (or none) is \<open>Empty\<close>; otherwise a whitespace first or last character is
  \<open>SurroundingWhitespace\<close>; otherwise more bytes than the limit (512 and 255) is \<open>TooLong\<close> with
  the byte length; otherwise the value is kept unchanged.\<close>

theorem try_from_branches:
  "message_try_from s =
     (if list_all is_whitespace s then Inl EmptyId
      else if is_whitespace (hd s) \<or> is_whitespace (last s) then Inl SurroundingWhitespace
      else if 512 < length (as_bytes s) then Inl (TooLong (length (as_bytes s)) 512)
      else Inr (MessageId s)) \<and>
   consumer_try_from s =
     (if list_all is_whitespace s then Inl EmptyId
      else if is_whitespace (hd s) \<or> is_whitespace (last s) then Inl SurroundingWhitespace
      else if 255 < length (as_bytes s) then Inl (TooLong (length (as_bytes s)) 255)
      else Inr (ConsumerId s))"
proof -
  have "check_id max_len s =
     (if \<forall>c\<in>set s. is_whitespace c then Inl EmptyId
      else if is_whitespace (hd s) \<or> is_whitespace (last s) then Inl SurroundingWhitespace
      else if max_len < str_len s then Inl (TooLong (str_len s) max_len)
      else Inr s)" for max_len
    by (cases "s = []")
      (auto simp: check_id_def trim_Nil_iff trim_len_eq_iff trim_fixed_iff)
  then show ?thesis
    by (simp add: message_try_from_def consumer_try_from_def message_MAX_LEN_def
        consumer_MAX_LEN_def str_len_def list_all_iff)
qed

lemma message_try_from_ok_iff:
  "message_try_from s = Inr m \<longleftrightarrow> m = MessageId s \<and> valid_id message_MAX_LEN s"
  using check_id_ok_iff [of message_MAX_LEN s]
  by (cases "check_id message_MAX_LEN s") (auto simp: message_try_from_def)

lemma consumer_try_from_ok_iff:
  "consumer_try_from s = Inr c \<longleftrightarrow> c = ConsumerId s \<and> valid_id consumer_MAX_LEN s"
  using check_id_ok_iff [of consumer_MAX_LEN s]
  by (cases "check_id consumer_MAX_LEN s") (auto simp: consumer_try_from_def)

subsection \<open>Scoped identifiers\<close>

lemma colon_not_whitespace [simp]: "\<not> is_whitespace colon"
  by (simp add: is_whitespace_def colon_def)

lemma length_utf8_colon [simp]: "length (utf8_char colon) = 1"
  by (simp add: utf8_char_def colon_def)

lemma check_parts_None_iff: "check_parts ps = None \<longleftrightarrow> (\<forall>p\<in>set ps. check_part p = None)"
  by (induction ps) (auto split: option.splits)

lemma scoped_ok_iff:
  "scoped scope ident = Inr m \<longleftrightarrow>
     colon \<notin> set scope \<and> check_part scope = None \<and> check_part ident = None \<and>
     str_len scope + str_len ident < message_MAX_LEN \<and>
     m = MessageId (scope @ colon # ident)"
proof -
  have ok: "check_parts [scope, ident] = None \<longleftrightarrow> check_part scope = None \<and> check_part ident = None"
    by (subst check_parts_None_iff) simp
  have "check_part scope = None \<Longrightarrow> check_part ident = None \<Longrightarrow>
      message_try_from (scope @ colon # ident) = Inr m \<longleftrightarrow>
      str_len scope + str_len ident < message_MAX_LEN \<and> m = MessageId (scope @ colon # ident)"
    by (auto simp: check_part_None_iff message_try_from_ok_iff valid_id_def)
  with ok show ?thesis
    by (auto simp: scoped_def split: option.splits)
qed

text \<open>C20: two scoped identifiers are equal only when they were built from the same scope and the
  same id: the separator is refused in the scope and allowed in the id, so producers cannot
  collide.\<close>

theorem scoped_injective:
  assumes "scoped a b = Inr m" and "scoped a' b' = Inr m"
  shows "a = a' \<and> b = b'"
proof -
  have split: "takeWhile (\<lambda>c. c \<noteq> colon) (s @ colon # t) = s" if "colon \<notin> set s" for s t
    using that by (induction s) auto
  from assms have eq: "a @ colon # b = a' @ colon # b'" and "colon \<notin> set a" "colon \<notin> set a'"
    by (auto simp: scoped_ok_iff)
  then have "a = a'" using split by metis
  with eq show ?thesis by simp
qed

theorem scoped_injective_witness:
  "scoped (lit ''mt5'') (lit ''topic:0:7'') = Inr (MessageId (lit ''mt5:topic:0:7'')) \<and>
   lit ''mt5'' = lit ''mt5'' \<and> lit ''topic:0:7'' = lit ''topic:0:7''"
proof -
  have s: "scoped (lit ''mt5'') (lit ''topic:0:7'') = Inr (MessageId (lit ''mt5:topic:0:7''))"
    by (simp add: scoped_ok_iff check_part_None_iff is_whitespace_def colon_def message_MAX_LEN_def
        utf8_char_def)
  from scoped_injective [OF s s] s show ?thesis by simp
qed

text \<open>C30: the errors of \<open>MessageId::scoped\<close>. A colon in the scope is reported first; then the
  scope and after it the id are checked on their own for blankness and surrounding whitespace;
  when both pass, the joined identifier can fail only by its length, scope, separator and id
  counted together.\<close>

theorem scoped_errors:
  "scoped scope ident =
     (if colon \<in> set scope then Inl ScopeContainsSeparator
      else if list_all is_whitespace scope then Inl EmptyId
      else if is_whitespace (hd scope) \<or> is_whitespace (last scope) then Inl SurroundingWhitespace
      else if list_all is_whitespace ident then Inl EmptyId
      else if is_whitespace (hd ident) \<or> is_whitespace (last ident) then Inl SurroundingWhitespace
      else let n = length (as_bytes scope) + 1 + length (as_bytes ident) in
        if 512 < n then Inl (TooLong n 512) else Inr (MessageId (scope @ [colon] @ ident)))"
proof -
  have part: "check_part p =
      (if list_all is_whitespace p then Some EmptyId
       else if is_whitespace (hd p) \<or> is_whitespace (last p) then Some SurroundingWhitespace
       else None)" for p
    by (cases "p = []") (auto simp: check_part_def trim_Nil_iff trim_len_eq_iff trim_fixed_iff list_all_iff)
  have joined: "message_try_from (scope @ [colon] @ ident) =
      (let n = str_len scope + 1 + str_len ident in
        if 512 < n then Inl (TooLong n 512) else Inr (MessageId (scope @ [colon] @ ident)))"
    if "check_part scope = None" "check_part ident = None"
  proof -
    have "str_len (scope @ [colon] @ ident) = str_len scope + 1 + str_len ident"
      by (simp add: utf8_char_def colon_def)
    moreover have "check_part (scope @ [colon] @ ident) = None"
      using that by (auto simp: check_part_None_iff)
    ultimately show ?thesis
      by (simp add: message_try_from_def check_id_via_part message_MAX_LEN_def Let_def)
  qed
  show ?thesis
  proof (cases "check_part scope = None \<and> check_part ident = None")
    case True
    then show ?thesis
      using joined by (auto simp: scoped_def part Let_def str_len_def split: if_splits)
  next
    case False
    then show ?thesis by (auto simp: scoped_def part split: if_splits)
  qed
qed

subsection \<open>Well-formed identifiers\<close>

text \<open>The message ids the API can build: the fields are private, so these are all there are.\<close>

inductive built_message :: "message_id \<Rightarrow> bool" where
  from_string: "message_try_from s = Inr m \<Longrightarrow> built_message m"
| from_parts: "scoped scope ident = Inr m \<Longrightarrow> built_message m"

text \<open>C21: every message id the API can build, and every consumer id, is well formed: not empty, no
  whitespace at either end, and short enough in bytes for its column (512 and 255). Printing it
  and reading it back gives the same id.\<close>

theorem built_ids_well_formed:
  assumes "built_message m" and "consumer_try_from s = Inr c"
  shows "valid_id message_MAX_LEN (message_str m) \<and> length (as_bytes (message_str m)) \<le> 512 \<and>
    message_try_from (display_message m) = Inr m \<and>
    valid_id consumer_MAX_LEN (consumer_str c) \<and> length (as_bytes (consumer_str c)) \<le> 255 \<and>
    consumer_try_from (display_consumer c) = Inr c"
proof -
  have "valid_id message_MAX_LEN (message_str m)"
    using assms(1)
    by cases (auto simp: message_try_from_ok_iff scoped_ok_iff valid_id_def check_part_None_iff)
  moreover from assms(2) have "valid_id consumer_MAX_LEN (consumer_str c)"
    by (auto simp: consumer_try_from_ok_iff)
  ultimately show ?thesis
    by (cases m, cases c) (auto simp: message_try_from_ok_iff consumer_try_from_ok_iff display_message_def display_consumer_def
        valid_id_def str_len_def message_MAX_LEN_def consumer_MAX_LEN_def)
qed

lemma built_ids_well_formed_witness:
  "message_try_from (lit ''a:b'') = Inr (MessageId (lit ''a:b'')) \<and>
   consumer_try_from (lit ''orders'') = Inr (ConsumerId (lit ''orders''))"
proof -
  have "scoped (lit ''a'') (lit ''b'') = Inr (MessageId (lit ''a:b''))"
    by (simp add: scoped_ok_iff check_part_None_iff is_whitespace_def colon_def message_MAX_LEN_def utf8_char_def)
  then have m: "built_message (MessageId (lit ''a:b''))" by (rule built_message.from_parts)
  have c: "consumer_try_from (lit ''orders'') = Inr (ConsumerId (lit ''orders''))"
    by (simp add: consumer_try_from_ok_iff valid_id_def is_whitespace_def consumer_MAX_LEN_def utf8_char_def)
  from built_ids_well_formed [OF m c] show ?thesis by (simp add: display_message_def display_consumer_def)
qed

text \<open>The order of message ids the batches are sorted and locked in is the order of their
  UTF-8 bytes, and it is also the order of their code points: \<open>str::cmp\<close>, PostgreSQL's
  \<open>COLLATE "C"\<close> and MySQL's binary collation sort a batch the same way.\<close>

theorem message_order_bytes_and_code_points:
  "(a \<le> b \<longleftrightarrow> as_bytes (message_str a) \<le> as_bytes (message_str b)) \<and>
   (a \<le> b \<longleftrightarrow> message_str a \<le> message_str b)" for a b :: message_id
  by (simp add: less_eq_message_id_def as_bytes_le_iff)

end
