(* ===== verification/Retention.thy ===== *)
theory Retention
  imports Prelude
begin

text \<open>
  The retention policy of \<^verbatim>\<open>src/src/retention.rs\<close>. Its fields are private, so a policy is
  built by \<open>new\<close> and \<open>with_batch_size\<close> only; \<open>built_policy\<close> is that set, and every
  policy in it deletes at least one row per statement.
\<close>

record retention_policy =
  max_age :: duration
  batch_size :: u32

definition retention_new :: "duration \<Rightarrow> retention_policy" where
  "retention_new age = \<lparr>max_age = age, batch_size = 1000\<rparr>"

definition with_batch_size :: "u32 \<Rightarrow> retention_policy \<Rightarrow> retention_policy" where
  "with_batch_size n self = self\<lparr>batch_size := max n 1\<rparr>"

inductive built_policy :: "retention_policy \<Rightarrow> bool" where
  built_new: "built_policy (retention_new age)"
| built_batch: "built_policy p \<Longrightarrow> built_policy (with_batch_size n p)"

lemma max_word_pos: "0 < max n (1 :: u32)"
  by (metis max.strict_coboundedI2 word_gt_0 zero_neq_one)

lemma built_policy_batch_pos: "built_policy p \<Longrightarrow> 0 < batch_size p"
proof (induction rule: built_policy.induct)
  case (built_new age)
  show ?case by (simp add: retention_new_def word_gt_0)
next
  case (built_batch p n)
  show ?case by (simp add: with_batch_size_def max_word_pos del: word_gt_0)
qed

end
