(* ===== verification/Store.thy ===== *)
theory Store
  imports Types Retention
begin

text \<open>
  The backend traits of \<^verbatim>\<open>src/src/store.rs\<close>. A trait is a record of its methods: \<open>InboxStore\<close> is
  \<open>inbox_ops\<close>, and the supertrait relation \<open>Savepoints: InboxStore\<close> is record extension. A
  method that awaits the database takes the world \<open>'w\<close> and returns the new one; the transaction
  \<open>'tx\<close> is what handlers see as the connection (\<open>Tx: DerefMut<Target = Conn>\<close>). \<open>op_drop\<close> is
  \<open>Drop\<close> on a transaction: Rust runs it wherever a transaction goes out of scope, so the model
  calls it there. \<open>purge\<close> may loop, so its result is an option (\<open>None\<close>: it never returns).

  The documented obligations of a backend are the locales \<open>claim_contract\<close>,
  \<open>inbox_contract\<close> and \<open>savepoints_contract\<close>. They speak about the data a transaction sees
  and the committed data: \<open>seen\<close>, the recorded (consumer, message) pairs, and \<open>app\<close>,
  everything else in the database.
\<close>

subsection \<open>The traits\<close>

record ('tx, 'w) inbox_ops =
  op_begin :: "'w \<Rightarrow> (inbox_error + 'tx) \<times> 'w"
  op_commit :: "'tx \<Rightarrow> 'w \<Rightarrow> (inbox_error + unit) \<times> 'w"
  op_rollback :: "'tx \<Rightarrow> 'w \<Rightarrow> (inbox_error + unit) \<times> 'w"
  op_drop :: "'tx \<Rightarrow> 'w \<Rightarrow> 'w"
  op_claim :: "claim_request \<Rightarrow> 'tx \<Rightarrow> 'w \<Rightarrow> (inbox_error + claim) \<times> 'tx \<times> 'w"
  op_claim_many :: "claim_batch \<Rightarrow> 'tx \<Rightarrow> 'w \<Rightarrow> (inbox_error + claim list) \<times> 'tx \<times> 'w"
  op_is_known_duplicate :: "consumer_id \<Rightarrow> message_id \<Rightarrow> 'w \<Rightarrow> (inbox_error + bool) \<times> 'w"
  op_purge :: "retention_policy \<Rightarrow> 'w \<Rightarrow> ((inbox_error + u64) \<times> 'w) option"

record ('tx, 'w) savepoint_ops = "('tx, 'w) inbox_ops" +
  op_savepoint :: "'tx \<Rightarrow> 'w \<Rightarrow> (inbox_error + unit) \<times> 'tx \<times> 'w"
  op_release_and_savepoint :: "'tx \<Rightarrow> 'w \<Rightarrow> (inbox_error + unit) \<times> 'tx \<times> 'w"
  op_release :: "'tx \<Rightarrow> 'w \<Rightarrow> (inbox_error + unit) \<times> 'tx \<times> 'w"
  op_rollback_to :: "'tx \<Rightarrow> 'w \<Rightarrow> (inbox_error + unit) \<times> 'tx \<times> 'w"
  op_unclaim :: "consumer_id \<Rightarrow> message_id \<Rightarrow> 'tx \<Rightarrow> 'w \<Rightarrow> (inbox_error + unit) \<times> 'tx \<times> 'w"

subsection \<open>Default methods\<close>

definition default_rollback ::
  "('tx \<Rightarrow> 'w \<Rightarrow> 'w) \<Rightarrow> 'tx \<Rightarrow> 'w \<Rightarrow> (inbox_error + unit) \<times> 'w" where
  "default_rollback drop_tx tx w = (Inr (), drop_tx tx w)"

text \<open>The loop of the default \<open>claim_many\<close>: one claim per id, in order; the first error ends it.\<close>

fun claim_each ::
  "(claim_request \<Rightarrow> 'tx \<Rightarrow> 'w \<Rightarrow> (inbox_error + claim) \<times> 'tx \<times> 'w) \<Rightarrow> consumer_id \<Rightarrow>
   duration option \<Rightarrow> message_id list \<Rightarrow> claim list \<Rightarrow> 'tx \<Rightarrow> 'w \<Rightarrow>
   (inbox_error + claim list) \<times> 'tx \<times> 'w" where
  "claim_each cl consumer lock_timeout [] claims tx w = (Inr claims, tx, w)"
| "claim_each cl consumer lock_timeout (ident # ids) claims tx w =
     (case cl ((claim_request_new consumer ident)\<lparr>req_lock_timeout := lock_timeout\<rparr>) tx w of
        (Inl e, tx', w') \<Rightarrow> (Inl e, tx', w')
      | (Inr c, tx', w') \<Rightarrow> claim_each cl consumer lock_timeout ids (claims @ [c]) tx' w')"

definition default_claim_many ::
  "(claim_request \<Rightarrow> 'tx \<Rightarrow> 'w \<Rightarrow> (inbox_error + claim) \<times> 'tx \<times> 'w) \<Rightarrow> claim_batch \<Rightarrow>
   'tx \<Rightarrow> 'w \<Rightarrow> (inbox_error + claim list) \<times> 'tx \<times> 'w" where
  "default_claim_many cl batch tx w =
     claim_each cl (batch_consumer batch) (batch_lock_timeout batch) (batch_ids batch) [] tx w"

definition default_is_known_duplicate ::
  "consumer_id \<Rightarrow> message_id \<Rightarrow> 'w \<Rightarrow> (inbox_error + bool) \<times> 'w" where
  "default_is_known_duplicate consumer ident w = (Inr False, w)"

subsection \<open>What a database holds\<close>

type_synonym key = "str \<times> str"

record 'u inbox_state =
  seen :: "key set"
  app :: 'u

definition key_of :: "consumer_id \<Rightarrow> message_id \<Rightarrow> key" where
  "key_of c m = (consumer_str c, message_str m)"

abbreviation req_key :: "claim_request \<Rightarrow> key" where
  "req_key r \<equiv> key_of (req_consumer r) (req_id r)"

definition record_keys :: "key set \<Rightarrow> 'u inbox_state \<Rightarrow> 'u inbox_state" where
  "record_keys ks s = s\<lparr>seen := seen s \<union> ks\<rparr>"

definition forget_key :: "key \<Rightarrow> 'u inbox_state \<Rightarrow> 'u inbox_state" where
  "forget_key k s = s\<lparr>seen := seen s - {k}\<rparr>"

lemma key_of_inject [simp]: "key_of c m = key_of c' m' \<longleftrightarrow> c = c' \<and> m = m'"
  by (auto simp: key_of_def consumer_id.expand message_id.expand)

lemma record_keys_simps [simp]:
  "seen (record_keys ks s) = seen s \<union> ks" "app (record_keys ks s) = app s"
  "record_keys {} s = s" "record_keys ks (record_keys ls s) = record_keys (ls \<union> ks) s"
  by (simp_all add: record_keys_def Un_assoc)

lemma forget_key_simps [simp]:
  "seen (forget_key k s) = seen s - {k}" "app (forget_key k s) = app s"
  by (simp_all add: forget_key_def)

lemma record_keys_absorb: "ks \<subseteq> seen s \<Longrightarrow> record_keys ks s = s"
  by (simp add: record_keys_def Un_absorb2)

subsection \<open>Contracts\<close>

text \<open>
  \<open>committed w\<close> is what is durable; \<open>view tx\<close> is what the transaction sees, its own writes
  included; \<open>live tx w\<close> says the transaction is in progress: not aborted by the server and
  not ended. A failed statement may leave a transaction that is no longer live. A \<open>commit\<close>
  that reports an error may still have been applied (the acknowledgement was lost), and a
  commit of a transaction that is not live applies nothing.
\<close>

locale claim_contract =
  fixes S :: "('tx, 'w, 'z) inbox_ops_scheme"
    and committed :: "'w \<Rightarrow> 'u inbox_state"
    and view :: "'tx \<Rightarrow> 'u inbox_state"
    and live :: "'tx \<Rightarrow> 'w \<Rightarrow> bool"
  assumes begin_ok: "op_begin S w = (Inr tx, w') \<Longrightarrow>
      live tx w' \<and> view tx = committed w \<and> committed w' = committed w"
    and begin_err: "op_begin S w = (Inl e, w') \<Longrightarrow> committed w' = committed w"
    and commit_ok: "op_commit S tx w = (Inr (), w') \<Longrightarrow>
      committed w' = (if live tx w then view tx else committed w)"
    and commit_err: "op_commit S tx w = (Inl e, w') \<Longrightarrow>
      committed w' = committed w \<or> live tx w \<and> committed w' = view tx"
    and rollback_keeps: "op_rollback S tx w = (res, w') \<Longrightarrow> committed w' = committed w"
    and drop_keeps: "committed (op_drop S tx w) = committed w"
    and claim_fresh: "live tx w \<Longrightarrow> op_claim S r tx w = (Inr Fresh, tx', w') \<Longrightarrow>
      req_key r \<notin> seen (view tx) \<and> view tx' = record_keys {req_key r} (view tx) \<and>
      live tx' w' \<and> committed w' = committed w"
    and claim_duplicate: "live tx w \<Longrightarrow> op_claim S r tx w = (Inr Duplicate, tx', w') \<Longrightarrow>
      req_key r \<in> seen (view tx) \<and> view tx' = view tx \<and> live tx' w' \<and> committed w' = committed w"
    and claim_err: "live tx w \<Longrightarrow> op_claim S r tx w = (Inl e, tx', w') \<Longrightarrow>
      committed w' = committed w"
begin

text \<open>The answer of a claim is the truth about the transaction's view.\<close>

lemma claim_ok:
  assumes "live tx w" and "op_claim S r tx w = (Inr c, tx', w')"
  shows "c = (if req_key r \<in> seen (view tx) then Duplicate else Fresh)"
    and "view tx' = record_keys {req_key r} (view tx)"
    and "live tx' w'" and "committed w' = committed w"
proof -
  have "c = (if req_key r \<in> seen (view tx) then Duplicate else Fresh) \<and>
    view tx' = record_keys {req_key r} (view tx) \<and> live tx' w' \<and> committed w' = committed w"
    using assms claim_fresh [of tx w r tx' w'] claim_duplicate [of tx w r tx' w']
    by (cases c) (simp_all add: record_keys_absorb)
  then show "c = (if req_key r \<in> seen (view tx) then Duplicate else Fresh)"
    "view tx' = record_keys {req_key r} (view tx)" "live tx' w'" "committed w' = committed w"
    by blast+
qed

text \<open>The default \<open>claim_many\<close> answers for unique ids like one claim per id and records them all.\<close>

lemma claim_each_ok:
  assumes "live tx w" and "distinct ids"
    and "claim_each (op_claim S) c t ids cs tx w = (Inr cs', tx', w')"
  shows "cs' = cs @ map (\<lambda>m. if key_of c m \<in> seen (view tx) then Duplicate else Fresh) ids \<and>
    view tx' = record_keys (key_of c ` set ids) (view tx) \<and> live tx' w' \<and> committed w' = committed w"
  using assms
proof (induction ids arbitrary: cs tx w)
  case (Cons m ids)
  let ?r = "(claim_request_new c m)\<lparr>req_lock_timeout := t\<rparr>"
  obtain x tx1 w1 where x: "op_claim S ?r tx w = (Inr x, tx1, w1)"
    and rest: "claim_each (op_claim S) c t ids (cs @ [x]) tx1 w1 = (Inr cs', tx', w')"
    using Cons.prems(3) by (auto split: prod.splits sum.splits)
  note one = claim_ok [OF Cons.prems(1) x, simplified]
  have "cs' = (cs @ [x]) @ map (\<lambda>m. if key_of c m \<in> seen (view tx1) then Duplicate else Fresh) ids \<and>
    view tx' = record_keys (key_of c ` set ids) (view tx1) \<and> live tx' w' \<and> committed w' = committed w1"
    using Cons.IH [OF one(3) _ rest] Cons.prems(2) by simp
  moreover have "map (\<lambda>m. if key_of c m \<in> seen (view tx1) then Duplicate else Fresh) ids =
      map (\<lambda>m. if key_of c m \<in> seen (view tx) then Duplicate else Fresh) ids"
    using Cons.prems(2) by (auto simp: one(2))
  ultimately show ?case by (simp add: one)
qed simp

lemma claim_each_err:
  assumes "live tx w" and "claim_each (op_claim S) c t ids cs tx w = (Inl e, tx', w')"
  shows "committed w' = committed w"
  using assms
proof (induction ids arbitrary: cs tx w)
  case (Cons m ids)
  obtain r tx1 w1 where
    x: "op_claim S ((claim_request_new c m)\<lparr>req_lock_timeout := t\<rparr>) tx w = (r, tx1, w1)"
    by (metis prod.collapse)
  show ?case
  proof (cases r)
    case (Inl e1)
    with x Cons.prems show ?thesis using claim_err by auto
  next
    case (Inr a)
    with x Cons.prems show ?thesis
      using Cons.IH [of tx1 w1 "cs @ [a]"] claim_ok(3,4) [OF Cons.prems(1)] by simp
  qed
qed simp

end

text \<open>The whole of \<open>InboxStore\<close>: a batch of unique, byte-sorted ids is claimed like one by one;
  a positive \<open>is_known_duplicate\<close> is definitive; \<open>purge\<close> only removes records.\<close>

locale inbox_contract = claim_contract S committed view live
  for S :: "('tx, 'w, 'z) inbox_ops_scheme"
    and committed :: "'w \<Rightarrow> 'u inbox_state" and view :: "'tx \<Rightarrow> 'u inbox_state"
    and live :: "'tx \<Rightarrow> 'w \<Rightarrow> bool" +
  assumes claim_many_ok: "live tx w \<Longrightarrow> distinct (batch_ids b) \<Longrightarrow> sorted (batch_ids b) \<Longrightarrow>
      op_claim_many S b tx w = (Inr cs, tx', w') \<Longrightarrow>
      cs = map (\<lambda>m. if key_of (batch_consumer b) m \<in> seen (view tx) then Duplicate else Fresh)
             (batch_ids b) \<and>
      view tx' = record_keys (key_of (batch_consumer b) ` set (batch_ids b)) (view tx) \<and>
      live tx' w' \<and> committed w' = committed w"
    and claim_many_err: "live tx w \<Longrightarrow> op_claim_many S b tx w = (Inl e, tx', w') \<Longrightarrow>
      committed w' = committed w"
    and known_duplicate: "op_is_known_duplicate S c m w = (known, w') \<Longrightarrow>
      committed w' = committed w \<and> (known = Inr True \<longrightarrow> key_of c m \<in> seen (committed w))"
    and purge_removes: "op_purge S p w = Some (res, w') \<Longrightarrow>
      seen (committed w') \<subseteq> seen (committed w) \<and> app (committed w') = app (committed w)"

text \<open>
  \<open>Savepoints\<close>: \<open>saved tx\<close> is the state \<open>rollback_to\<close> would restore, if the savepoint is
  open. Rolling back to the savepoint revives a transaction a failed statement aborted; it can
  only succeed while the savepoint exists. \<open>forgettable\<close> says in which states a key may be given up; the
  contract of a backend makes no condition.
\<close>

locale batch_contract =
  fixes S :: "('tx, 'w, 'z) savepoint_ops_scheme"
    and committed :: "'w \<Rightarrow> 'u inbox_state" and view :: "'tx \<Rightarrow> 'u inbox_state"
    and live :: "'tx \<Rightarrow> 'w \<Rightarrow> bool" and saved :: "'tx \<Rightarrow> 'u inbox_state option"
    and forgettable :: "key \<Rightarrow> 'u inbox_state \<Rightarrow> bool"
  assumes savepoint_ok: "live tx w \<Longrightarrow> op_savepoint S tx w = (Inr (), tx', w') \<Longrightarrow>
      view tx' = view tx \<and> saved tx' = Some (view tx) \<and> live tx' w' \<and> committed w' = committed w"
    and savepoint_err: "live tx w \<Longrightarrow> op_savepoint S tx w = (Inl e, tx', w') \<Longrightarrow>
      committed w' = committed w"
    and release_and_savepoint_ok: "live tx w \<Longrightarrow> op_release_and_savepoint S tx w = (Inr (), tx', w') \<Longrightarrow>
      view tx' = view tx \<and> saved tx' = Some (view tx) \<and> live tx' w' \<and> committed w' = committed w"
    and release_and_savepoint_err: "live tx w \<Longrightarrow> op_release_and_savepoint S tx w = (Inl e, tx', w') \<Longrightarrow>
      committed w' = committed w"
    and release_ok: "live tx w \<Longrightarrow> op_release S tx w = (Inr (), tx', w') \<Longrightarrow>
      view tx' = view tx \<and> live tx' w' \<and> committed w' = committed w"
    and release_err: "live tx w \<Longrightarrow> op_release S tx w = (Inl e, tx', w') \<Longrightarrow>
      committed w' = committed w"
    and rollback_to_ok: "op_rollback_to S tx w = (Inr (), tx', w') \<Longrightarrow>
      saved tx = Some (view tx') \<and> saved tx' = saved tx \<and> live tx' w' \<and> committed w' = committed w"
    and rollback_to_err: "op_rollback_to S tx w = (Inl e, tx', w') \<Longrightarrow> committed w' = committed w"
    and unclaim_law: "live tx w \<Longrightarrow> forgettable (key_of c m) (view tx) \<Longrightarrow> op_unclaim S c m tx w = (Inr (), tx', w') \<Longrightarrow>
      view tx' = forget_key (key_of c m) (view tx) \<and> saved tx' = saved tx \<and>
      live tx' w' \<and> committed w' = committed w"
    and unclaim_err: "live tx w \<Longrightarrow> op_unclaim S c m tx w = (Inl e, tx', w') \<Longrightarrow>
      committed w' = committed w"

locale savepoints_contract = inbox_contract S committed view live +
    batch_contract S committed view live saved "\<lambda>_ _. True"
  for S :: "('tx, 'w, 'z) savepoint_ops_scheme"
    and committed :: "'w \<Rightarrow> 'u inbox_state" and view :: "'tx \<Rightarrow> 'u inbox_state"
    and live :: "'tx \<Rightarrow> 'w \<Rightarrow> bool" and saved :: "'tx \<Rightarrow> 'u inbox_state option"
begin

lemmas unclaim_ok = unclaim_law [OF _ TrueI]

end

end
