(* ===== verification/Consumer.thy ===== *)
theory Consumer
  imports Store
begin

text \<open>
  \<open>Consumer<S>\<close> of \<^verbatim>\<open>src/src/consumer.rs\<close> over any store: \<open>claim\<close>, \<open>claim_many\<close>,
  \<open>process\<close> and \<open>process_many\<close>, statement by statement. Every \<open>?\<close> is a branch that
  returns the error and drops the transaction; a panic (\<open>expect\<close>, the underflow of
  \<open>pending -= 1\<close>) is the result \<open>None\<close>, and it drops the transaction too. Handlers are
  arbitrary functions on the connection and the world. The tracing calls change no state and
  are left out.

  The lemmas are proved once from the contracts of \<open>Store\<close>; the backends obtain them by
  interpretation.
\<close>

record 's consumer =
  con_store :: 's
  con_id :: consumer_id
  con_lock_timeout :: "duration option"

type_synonym ('t, 'tx, 'w) handler = "'tx \<Rightarrow> 'w \<Rightarrow> (handler_error + 't) \<times> 'tx \<times> 'w"
type_synonym 't process_result = "handler_error + 't outcome"

definition consumer_new :: "'s \<Rightarrow> consumer_id \<Rightarrow> 's consumer" where
  "consumer_new store ident = \<lparr>con_store = store, con_id = ident, con_lock_timeout = None\<rparr>"

text \<open>\<open>InboxExt::consumer\<close>.\<close>

definition inbox_consumer :: "'s \<Rightarrow> consumer_id \<Rightarrow> 's consumer" where
  "inbox_consumer store ident = consumer_new store ident"

definition with_lock_timeout :: "duration \<Rightarrow> 's consumer \<Rightarrow> 's consumer" where
  "with_lock_timeout timeout self = self\<lparr>con_lock_timeout := Some timeout\<rparr>"

definition consumer_is_known_duplicate ::
  "('tx, 'w, 'z) inbox_ops_scheme consumer \<Rightarrow> message_id \<Rightarrow> 'w \<Rightarrow> (inbox_error + bool) \<times> 'w" where
  "consumer_is_known_duplicate self ident w =
     op_is_known_duplicate (con_store self) (con_id self) ident w"

definition consumer_begin ::
  "('tx, 'w, 'z) inbox_ops_scheme consumer \<Rightarrow> 'w \<Rightarrow> (inbox_error + 'tx) \<times> 'w" where
  "consumer_begin self w = op_begin (con_store self) w"

definition consumer_commit ::
  "('tx, 'w, 'z) inbox_ops_scheme consumer \<Rightarrow> 'tx \<Rightarrow> 'w \<Rightarrow> (inbox_error + unit) \<times> 'w" where
  "consumer_commit self tx w = op_commit (con_store self) tx w"

definition consumer_rollback ::
  "('tx, 'w, 'z) inbox_ops_scheme consumer \<Rightarrow> 'tx \<Rightarrow> 'w \<Rightarrow> (inbox_error + unit) \<times> 'w" where
  "consumer_rollback self tx w = op_rollback (con_store self) tx w"

definition consumer_claim ::
  "('tx, 'w, 'z) inbox_ops_scheme consumer \<Rightarrow> message_id \<Rightarrow> 'tx \<Rightarrow> 'w \<Rightarrow>
   (inbox_error + claim) \<times> 'tx \<times> 'w" where
  "consumer_claim self ident tx w =
     op_claim (con_store self)
       ((claim_request_new (con_id self) ident)\<lparr>req_lock_timeout := con_lock_timeout self\<rparr>) tx w"

subsection \<open>claim\_many\<close>

text \<open>\<open>sort_unstable_by\<close> on bytes, then \<open>dedup\<close>; equal ids are identical, so stability does
  not show.\<close>

definition unique_ids :: "message_id list \<Rightarrow> message_id list" where
  "unique_ids ids = remdups_adj (sort ids)"

text \<open>The hash map of answers is consumed by \<open>insert(id, Duplicate).expect(..)\<close>: the old value
  is the answer, a missing one is a panic.\<close>

fun take_answers :: "(str \<rightharpoonup> claim) \<Rightarrow> message_id list \<Rightarrow> claim list option" where
  "take_answers answers [] = Some []"
| "take_answers answers (ident # ids) =
     (case answers (message_str ident) of
        None \<Rightarrow> None
      | Some c \<Rightarrow>
          map_option (Cons c) (take_answers (answers(message_str ident \<mapsto> Duplicate)) ids))"

definition claims_mismatch :: "nat \<Rightarrow> nat \<Rightarrow> inbox_error" where
  "claims_mismatch got want =
     Backend (BoxMsg (lit ''claim_many returned '' @ show_nat got @ lit '' claims for '' @
       show_nat want @ lit '' ids''))"

definition consumer_claim_many ::
  "('tx, 'w, 'z) inbox_ops_scheme consumer \<Rightarrow> message_id list \<Rightarrow> 'tx \<Rightarrow> 'w \<Rightarrow>
   (inbox_error + claim list) option \<times> 'tx \<times> 'w" where
  "consumer_claim_many self ids tx w =
     (if ids = [] then (Some (Inr []), tx, w)
      else let unique = unique_ids ids;
               batch = (claim_batch_new (con_id self) unique)\<lparr>batch_lock_timeout := con_lock_timeout self\<rparr>
           in case op_claim_many (con_store self) batch tx w of
                (Inl e, tx', w') \<Rightarrow> (Some (Inl e), tx', w')
              | (Inr claims, tx', w') \<Rightarrow>
                  if length claims \<noteq> length unique
                  then (Some (Inl (claims_mismatch (length claims) (length unique))), tx', w')
                  else let answers = map_upds Map.empty (map message_str unique) claims
                       in (map_option Inr (take_answers answers ids), tx', w'))"

subsection \<open>process\<close>

text \<open>The arm \<open>Claim::Fresh\<close>: run the handler, then commit, or roll back and report its error.\<close>

definition process_fresh ::
  "('tx, 'w, 'z) inbox_ops_scheme consumer \<Rightarrow> ('t, 'tx, 'w) handler \<Rightarrow> 'tx \<Rightarrow> 'w \<Rightarrow>
   (inbox_error + 't outcome) \<times> 'w" where
  "process_fresh self handler tx w =
     (case handler tx w of
        (Inr value, tx1, w1) \<Rightarrow>
          (case op_commit (con_store self) tx1 w1 of
             (Inl e, w2) \<Rightarrow> (Inl e, w2)
           | (Inr _, w2) \<Rightarrow> (Inr (Processed value), w2))
      | (Inl e, tx1, w1) \<Rightarrow>
          (case op_rollback (con_store self) tx1 w1 of
             (_, w2) \<Rightarrow> (Inl (Handler e), w2)))"

definition process ::
  "('tx, 'w, 'z) inbox_ops_scheme consumer \<Rightarrow> message_id \<Rightarrow> ('t, 'tx, 'w) handler \<Rightarrow> 'w \<Rightarrow>
   (inbox_error + 't outcome) \<times> 'w" where
  "process self ident handler w =
     (case op_begin (con_store self) w of
        (Inl e, w1) \<Rightarrow> (Inl e, w1)
      | (Inr tx, w1) \<Rightarrow>
         (case consumer_claim self ident tx w1 of
            (Inl e, tx2, w2) \<Rightarrow> (Inl e, op_drop (con_store self) tx2 w2)
          | (Inr Duplicate, tx2, w2) \<Rightarrow>
             (case op_rollback (con_store self) tx2 w2 of
                (Inl e, w3) \<Rightarrow> (Inl e, w3)
              | (Inr _, w3) \<Rightarrow> (Inr DuplicateOutcome, w3))
          | (Inr Fresh, tx2, w2) \<Rightarrow> process_fresh self handler tx2 w2))"

subsection \<open>process\_many\<close>

definition repeat_of_failed :: "message_id \<Rightarrow> handler_error" where
  "repeat_of_failed ident =
     lit ''an earlier delivery of `'' @ message_str ident @ lit ''` in this batch failed''"

text \<open>Running the handler for one fresh id (the \<open>match handler(..)\<close> of the loop body).\<close>

definition run_handler ::
  "('tx, 'w, 'z) savepoint_ops_scheme consumer \<Rightarrow> (message_id \<Rightarrow> ('t, 'tx, 'w) handler) \<Rightarrow>
   message_id \<Rightarrow> 'tx \<Rightarrow> 'w \<Rightarrow> (inbox_error + 't process_result) \<times> 'tx \<times> 'w" where
  "run_handler self handler ident tx w =
     (case handler ident tx w of
        (Inr value, tx1, w1) \<Rightarrow> (Inr (Inr (Processed value)), tx1, w1)
      | (Inl e, tx1, w1) \<Rightarrow>
         (case op_rollback_to (con_store self) tx1 w1 of
            (Inl e', tx2, w2) \<Rightarrow> (Inl e', tx2, w2)
          | (Inr _, tx2, w2) \<Rightarrow>
             (case op_unclaim (con_store self) (con_id self) ident tx2 w2 of
                (Inl e', tx3, w3) \<Rightarrow> (Inl e', tx3, w3)
              | (Inr _, tx3, w3) \<Rightarrow> (Inr (Inl e), tx3, w3))))"

text \<open>The rest of the loop body: the savepoint is released, and opened again while fresh ids remain
  (\<open>pending\<close> of them after this one).\<close>

definition settle_fresh ::
  "('tx, 'w, 'z) savepoint_ops_scheme consumer \<Rightarrow> (message_id \<Rightarrow> ('t, 'tx, 'w) handler) \<Rightarrow>
   nat \<Rightarrow> message_id \<Rightarrow> 'tx \<Rightarrow> 'w \<Rightarrow> (inbox_error + 't process_result) \<times> 'tx \<times> 'w" where
  "settle_fresh self handler pending ident tx w =
     (case run_handler self handler ident tx w of
        (Inl e, tx1, w1) \<Rightarrow> (Inl e, tx1, w1)
      | (Inr result, tx1, w1) \<Rightarrow>
         (case (if pending > 0 then op_release_and_savepoint (con_store self) tx1 w1
                else op_release (con_store self) tx1 w1) of
            (Inl e, tx2, w2) \<Rightarrow> (Inl e, tx2, w2)
          | (Inr _, tx2, w2) \<Rightarrow> (Inr result, tx2, w2)))"

fun batch_loop ::
  "('tx, 'w, 'z) savepoint_ops_scheme consumer \<Rightarrow> (message_id \<Rightarrow> ('t, 'tx, 'w) handler) \<Rightarrow>
   (message_id \<times> claim) list \<Rightarrow> nat \<Rightarrow> str set \<Rightarrow> 't process_result list \<Rightarrow> 'tx \<Rightarrow> 'w \<Rightarrow>
   (inbox_error + 't process_result list) option \<times> 'tx \<times> 'w" where
  "batch_loop self handler [] pending failed results tx w = (Some (Inr results), tx, w)"
| "batch_loop self handler ((ident, Duplicate) # rest) pending failed results tx w =
     batch_loop self handler rest pending failed
       (results @ [if message_str ident \<in> failed then Inl (repeat_of_failed ident)
                   else Inr DuplicateOutcome]) tx w"
| "batch_loop self handler ((ident, Fresh) # rest) pending failed results tx w =
     (if pending = 0 then (None, tx, w)
      else case settle_fresh self handler (pending - 1) ident tx w of
        (Inl e, tx1, w1) \<Rightarrow> (Some (Inl e), tx1, w1)
      | (Inr result, tx1, w1) \<Rightarrow>
          batch_loop self handler rest (pending - 1)
            (case result of Inl _ \<Rightarrow> insert (message_str ident) failed | Inr _ \<Rightarrow> failed)
            (results @ [result]) tx1 w1)"

text \<open>From the answered claims to the commit.\<close>

definition process_claimed ::
  "('tx, 'w, 'z) savepoint_ops_scheme consumer \<Rightarrow> message_id list \<Rightarrow>
   (message_id \<Rightarrow> ('t, 'tx, 'w) handler) \<Rightarrow> claim list \<Rightarrow> 'tx \<Rightarrow> 'w \<Rightarrow>
   (inbox_error + 't process_result list) option \<times> 'w" where
  "process_claimed self ids handler claims tx w =
     (let pending = length (filter (\<lambda>c. c = Fresh) claims)
      in case (if pending > 0 then op_savepoint (con_store self) tx w else (Inr (), tx, w)) of
        (Inl e, tx1, w1) \<Rightarrow> (Some (Inl e), op_drop (con_store self) tx1 w1)
      | (Inr _, tx1, w1) \<Rightarrow>
         (case batch_loop self handler (zip ids claims) pending {} [] tx1 w1 of
            (None, tx2, w2) \<Rightarrow> (None, op_drop (con_store self) tx2 w2)
          | (Some (Inl e), tx2, w2) \<Rightarrow> (Some (Inl e), op_drop (con_store self) tx2 w2)
          | (Some (Inr results), tx2, w2) \<Rightarrow>
             (case op_commit (con_store self) tx2 w2 of
                (Inl e, w3) \<Rightarrow> (Some (Inl e), w3)
              | (Inr _, w3) \<Rightarrow> (Some (Inr results), w3))))"

definition process_many ::
  "('tx, 'w, 'z) savepoint_ops_scheme consumer \<Rightarrow> message_id list \<Rightarrow>
   (message_id \<Rightarrow> ('t, 'tx, 'w) handler) \<Rightarrow> 'w \<Rightarrow>
   (inbox_error + 't process_result list) option \<times> 'w" where
  "process_many self ids handler w =
     (if ids = [] then (Some (Inr []), w)
      else case op_begin (con_store self) w of
        (Inl e, w1) \<Rightarrow> (Some (Inl e), w1)
      | (Inr tx, w1) \<Rightarrow>
         (case consumer_claim_many self ids tx w1 of
            (None, tx2, w2) \<Rightarrow> (None, op_drop (con_store self) tx2 w2)
          | (Some (Inl e), tx2, w2) \<Rightarrow> (Some (Inl e), op_drop (con_store self) tx2 w2)
          | (Some (Inr claims), tx2, w2) \<Rightarrow> process_claimed self ids handler claims tx2 w2))"

subsection \<open>The ids sent to the backend\<close>

lemma distinct_remdups_adj_sorted: "sorted xs \<Longrightarrow> distinct (remdups_adj xs)"
proof (induction xs rule: remdups_adj.induct)
  case (3 x y xs)
  then show ?case by (cases "x = y") auto
qed auto

lemma unique_ids_props [simp]:
  "distinct (unique_ids ids)" "sorted (unique_ids ids)" "set (unique_ids ids) = set ids"
  by (simp_all add: unique_ids_def distinct_remdups_adj_sorted sorted_remdups_adj)

subsection \<open>What claim\_many answers\<close>

text \<open>The specification of a batch of claims: one claim after the other, each recording its key.\<close>

fun answer_each :: "consumer_id \<Rightarrow> key set \<Rightarrow> message_id list \<Rightarrow> claim list" where
  "answer_each c ks [] = []"
| "answer_each c ks (m # ms) =
     (if key_of c m \<in> ks then Duplicate else Fresh) # answer_each c (insert (key_of c m) ks) ms"

lemma length_answer_each [simp]: "length (answer_each c ks ms) = length ms"
  by (induction ms arbitrary: ks) auto

lemma answer_each_nth:
  "i < length ms \<Longrightarrow> answer_each c ks ms ! i =
     (if key_of c (ms ! i) \<in> ks \<or> ms ! i \<in> set (take i ms) then Duplicate else Fresh)"
proof (induction ms arbitrary: ks i)
  case (Cons m ms)
  then show ?case by (cases i) auto
qed simp

lemma take_answers_eq:
  assumes "\<forall>m\<in>set ids. answers (message_str m) = Some (if key_of c m \<in> ks then Duplicate else Fresh)"
  shows "take_answers answers ids = Some (answer_each c ks ids)"
  using assms
proof (induction ids arbitrary: answers ks)
  case (Cons m ids)
  let ?answers = "answers(message_str m \<mapsto> Duplicate)"
  have "\<forall>n\<in>set ids. ?answers (message_str n) =
      Some (if key_of c n \<in> insert (key_of c m) ks then Duplicate else Fresh)"
    using Cons.prems by (auto simp: message_id.expand)
  then have "take_answers ?answers ids = Some (answer_each c (insert (key_of c m) ks) ids)"
    by (rule Cons.IH [of ?answers "insert (key_of c m) ks"])
  with Cons.prems show ?case by simp
qed simp

lemma map_upds_map_apply:
  "distinct (map f xs) \<Longrightarrow> x \<in> set xs \<Longrightarrow> map_upds m (map f xs) (map g xs) (f x) = Some (g x)"
proof (induction xs arbitrary: m)
  case (Cons y ys)
  show ?case
  proof (cases "x \<in> set ys")
    case True
    moreover from Cons.prems True have "f x \<noteq> f y" by (auto simp: image_iff)
    ultimately show ?thesis using Cons by simp
  next
    case False
    with Cons.prems show ?thesis by (auto simp: map_upds_apply_nontin)
  qed
qed simp

lemma distinct_message_strs: "distinct ms \<Longrightarrow> distinct (map message_str ms)"
  by (simp add: distinct_map inj_on_def message_id.expand)

context inbox_contract
begin

text \<open>\<open>claim_many\<close> never panics; when the backend answers, the answers are those of one claim per
  id in input order, and every id of the batch is recorded in the transaction.\<close>

lemma consumer_claim_many_ok:
  assumes self: "con_store self = S" and "live tx w"
    and res: "consumer_claim_many self ids tx w = (r, tx', w')"
  shows "r \<noteq> None \<and> committed w' = committed w \<and>
    (\<forall>cs. r = Some (Inr cs) \<longrightarrow>
       cs = answer_each (con_id self) (seen (view tx)) ids \<and>
       view tx' = record_keys (key_of (con_id self) ` set ids) (view tx) \<and> live tx' w')"
proof (cases "ids = []")
  case True
  with res \<open>live tx w\<close> show ?thesis by (auto simp: consumer_claim_many_def)
next
  case False
  let ?c = "con_id self" and ?u = "unique_ids ids"
  let ?b = "(claim_batch_new ?c ?u)\<lparr>batch_lock_timeout := con_lock_timeout self\<rparr>"
  let ?f = "\<lambda>m. if key_of ?c m \<in> seen (view tx) then Duplicate else Fresh"
  obtain r1 tx1 w1 where call: "op_claim_many S ?b tx w = (r1, tx1, w1)"
    by (metis prod.collapse)
  show ?thesis
  proof (cases r1)
    case (Inl e)
    with call res self False have "r = Some (Inl e)" "w' = w1"
      by (auto simp: consumer_claim_many_def Let_def)
    with claim_many_err [OF \<open>live tx w\<close>] call Inl show ?thesis by auto
  next
    case (Inr cs1)
    have ok: "cs1 = map ?f ?u" "view tx1 = record_keys (key_of ?c ` set ids) (view tx)"
      "live tx1 w1" "committed w1 = committed w"
      using claim_many_ok [OF \<open>live tx w\<close> _ _ call [unfolded Inr]] by simp_all
    have "take_answers (map_upds Map.empty (map message_str ?u) (map ?f ?u)) ids =
        Some (answer_each ?c (seen (view tx)) ids)"
      by (rule take_answers_eq) (simp add: map_upds_map_apply distinct_message_strs)
    with call res self False Inr ok(1)
    have "r = Some (Inr (answer_each ?c (seen (view tx)) ids))" "tx' = tx1" "w' = w1"
      by (simp_all add: consumer_claim_many_def Let_def)
    with ok show ?thesis by simp
  qed
qed

end

subsection \<open>Handlers\<close>

text \<open>
  What \<open>process\<close> asks of a handler: it works through the connection it is given and neither
  commits nor ends the transaction, and when it reports success the transaction is still in
  progress. \<open>R s v s'\<close> says how a successful handler with value \<open>v\<close> changes the data; what
  it does elsewhere (the world) is free.
\<close>

definition handler_in_tx ::
  "('w \<Rightarrow> 'u inbox_state) \<Rightarrow> ('tx \<Rightarrow> 'u inbox_state) \<Rightarrow> ('tx \<Rightarrow> 'w \<Rightarrow> bool) \<Rightarrow>
   ('u inbox_state \<Rightarrow> 't \<Rightarrow> 'u inbox_state \<Rightarrow> bool) \<Rightarrow> ('t, 'tx, 'w) handler \<Rightarrow> bool" where
  "handler_in_tx committed view live R h \<longleftrightarrow>
     (\<forall>tx w r tx' w'. live tx w \<and> h tx w = (r, tx', w') \<longrightarrow>
        committed w' = committed w \<and>
        (\<forall>v. r = Inr v \<longrightarrow> live tx' w' \<and> R (view tx) v (view tx')))"

lemma handler_in_txD:
  assumes "handler_in_tx committed view live R h" and "live tx w" and "h tx w = (r, tx', w')"
  shows "committed w' = committed w" and "r = Inr v \<Longrightarrow> live tx' w'"
    and "r = Inr v \<Longrightarrow> R (view tx) v (view tx')"
  using assms unfolding handler_in_tx_def by blast+

subsection \<open>process: atomic and at most once\<close>

text \<open>What one call of \<open>process\<close> does to the committed data, by its result. An error may hide a
  commit that was applied although its acknowledgement was lost; even then the claim and the
  effect were committed together.\<close>

definition process_post ::
  "('u inbox_state \<Rightarrow> 't \<Rightarrow> 'u inbox_state \<Rightarrow> bool) \<Rightarrow> key \<Rightarrow> 'u inbox_state \<Rightarrow>
   inbox_error + 't outcome \<Rightarrow> 'u inbox_state \<Rightarrow> bool" where
  "process_post R k s r s' =
     (case r of
        Inr (Processed v) \<Rightarrow> k \<notin> seen s \<and> R (record_keys {k} s) v s'
      | Inr DuplicateOutcome \<Rightarrow> k \<in> seen s \<and> s' = s
      | Inl _ \<Rightarrow> s' = s \<or> k \<notin> seen s \<and> (\<exists>v. R (record_keys {k} s) v s'))"

context claim_contract
begin

lemma consumer_claim_ok:
  assumes "con_store self = S" "live tx w" "consumer_claim self m tx w = (Inr c, tx', w')"
  shows "c = (if key_of (con_id self) m \<in> seen (view tx) then Duplicate else Fresh)"
    and "view tx' = record_keys {key_of (con_id self) m} (view tx)"
    and "live tx' w'" and "committed w' = committed w"
  using assms claim_ok [OF assms(2), of "(claim_request_new (con_id self) m)\<lparr>req_lock_timeout := con_lock_timeout self\<rparr>"]
  by (simp_all add: consumer_claim_def)

lemma consumer_claim_err:
  assumes "con_store self = S" "live tx w" "consumer_claim self m tx w = (Inl e, tx', w')"
  shows "committed w' = committed w"
  using assms claim_err [OF assms(2)] by (simp add: consumer_claim_def)

lemma process_fresh_atomic:
  assumes self: "con_store self = S" and h: "handler_in_tx committed view live R h"
    and live: "live tx w" and view: "view tx = record_keys {k} (committed w)"
    and k: "k \<notin> seen (committed w)" and run: "process_fresh self h tx w = (r, w')"
  shows "process_post R k (committed w) r (committed w')"
proof -
  obtain x tx1 w1 where x: "h tx w = (x, tx1, w1)" by (metis prod.collapse)
  note handled = handler_in_txD [OF h live x]
  show ?thesis
  proof (cases x)
    case (Inl e)
    obtain q w2 where q: "op_rollback S tx1 w1 = (q, w2)" by (metis prod.collapse)
    with handled(1) have "committed w2 = committed w" using rollback_keeps by metis
    with q x Inl run self show ?thesis by (auto simp: process_fresh_def process_post_def)
  next
    case (Inr v)
    obtain q w2 where q: "op_commit S tx1 w1 = (q, w2)" by (metis prod.collapse)
    have "q = Inr u \<Longrightarrow> committed w2 = view tx1" for u
      using commit_ok [of tx1 w1 w2] q handled(2) Inr by simp
    moreover have "q = Inl e \<Longrightarrow> committed w2 = committed w \<or> committed w2 = view tx1" for e
      using commit_err [of tx1 w1 e w2] q handled(1) by auto
    moreover have "R (record_keys {k} (committed w)) v (view tx1)"
      using handled(3) Inr view by simp
    ultimately show ?thesis
      using q x Inr run self k by (cases q) (auto simp: process_fresh_def process_post_def)
  qed
qed

lemma process_atomic:
  assumes self: "con_store self = S" and h: "handler_in_tx committed view live R h"
    and run: "process self m h w = (r, w')"
  shows "process_post R (key_of (con_id self) m) (committed w) r (committed w')"
proof -
  let ?k = "key_of (con_id self) m"
  obtain b w1 where b: "op_begin S w = (b, w1)" by (metis prod.collapse)
  show ?thesis
  proof (cases b)
    case (Inl e)
    with b run self begin_err show ?thesis by (auto simp: process_def process_post_def)
  next
    case (Inr tx)
    note begun = begin_ok [OF b [unfolded Inr]]
    obtain c tx2 w2 where c: "consumer_claim self m tx w1 = (c, tx2, w2)" by (metis prod.collapse)
    show ?thesis
    proof (cases c)
      case Inl
      with c begun have "committed w2 = committed w" using consumer_claim_err [OF self] by metis
      with Inl run self b c \<open>b = Inr tx\<close> drop_keeps show ?thesis
        by (auto simp: process_def process_post_def)
    next
      case (Inr a)
      note claimed = begun consumer_claim_ok [OF self _ c [unfolded Inr]]
      show ?thesis
      proof (cases a)
        case Duplicate
        obtain q w3 where q: "op_rollback S tx2 w2 = (q, w3)" by (metis prod.collapse)
        with claimed have "committed w3 = committed w" using rollback_keeps by metis
        with q Duplicate Inr claimed run self b c \<open>b = Inr tx\<close> show ?thesis
          by (auto simp: process_def process_post_def split: sum.splits if_splits)
      next
        case Fresh
        with Inr run self b c \<open>b = Inr tx\<close> have "process_fresh self h tx2 w2 = (r, w')"
          by (simp add: process_def)
        then show ?thesis
          using process_fresh_atomic [OF self h, of tx2 w2 ?k] claimed Fresh
          by (auto split: if_splits)
      qed
    qed
  qed
qed

text \<open>A failed handler: its error is the result whatever the rollback reports, and nothing is
  committed.\<close>

lemma process_handler_error:
  assumes self: "con_store self = S" and "op_begin S w = (Inr tx, w1)"
    and "consumer_claim self m tx w1 = (Inr Fresh, tx2, w2)"
    and "h tx2 w2 = (Inl e, tx3, w3)" and "committed w3 = committed w2"
    and run: "process self m h w = (r, w')"
  shows "r = Inl (Handler e) \<and> committed w' = committed w"
proof -
  note begun = begin_ok [OF assms(2)]
  have "committed w2 = committed w"
    using consumer_claim_ok(4) [OF self _ assms(3)] begun by simp
  moreover obtain q w4 where q: "op_rollback S tx3 w3 = (q, w4)" by (metis prod.collapse)
  ultimately have "committed w4 = committed w" using assms(5) rollback_keeps by metis
  with q assms show ?thesis by (auto simp: process_def process_fresh_def)
qed

text \<open>For a message already recorded the handler is irrelevant: it is never called.\<close>

lemma process_known_ignores_handler:
  assumes self: "con_store self = S" and known: "key_of (con_id self) m \<in> seen (committed w)"
  shows "process self m h w = process self m g w"
proof -
  obtain b w1 where b: "op_begin S w = (b, w1)" by (metis prod.collapse)
  show ?thesis
  proof (cases b)
    case (Inr tx)
    note begun = begin_ok [OF b [unfolded Inr]]
    obtain c tx2 w2 where c: "consumer_claim self m tx w1 = (c, tx2, w2)" by (metis prod.collapse)
    have "c \<noteq> Inr Fresh"
      using consumer_claim_ok(1) [OF self, of tx w1 m Fresh] begun c known by auto
    then show ?thesis
      using b c Inr self by (cases c) (auto simp: process_def split: claim.splits)
  qed (use b self in \<open>simp add: process_def\<close>)
qed

end

subsection \<open>process\_many: each message settles on its own\<close>

text \<open>For a handler inside a batch: after a failure the savepoint is still there, or gone with the
  whole transaction.\<close>

definition handler_in_savepoint ::
  "('w \<Rightarrow> 'u inbox_state) \<Rightarrow> ('tx \<Rightarrow> 'u inbox_state) \<Rightarrow> ('tx \<Rightarrow> 'w \<Rightarrow> bool) \<Rightarrow>
   ('tx \<Rightarrow> 'u inbox_state option) \<Rightarrow> (message_id \<Rightarrow> 'u inbox_state \<Rightarrow> 't \<Rightarrow> 'u inbox_state \<Rightarrow> bool) \<Rightarrow>
   (message_id \<Rightarrow> ('t, 'tx, 'w) handler) \<Rightarrow> bool" where
  "handler_in_savepoint committed view live saved R h \<longleftrightarrow>
     (\<forall>m tx w r tx' w'. live tx w \<and> h m tx w = (r, tx', w') \<longrightarrow>
        committed w' = committed w \<and>
        (\<forall>v. r = Inr v \<longrightarrow> live tx' w' \<and> R m (view tx) v (view tx')) \<and>
        (\<forall>e. r = Inl e \<longrightarrow> saved tx' = saved tx \<or> saved tx' = None))"

lemma handler_in_savepointD:
  assumes "handler_in_savepoint committed view live saved R h" "live tx w" "h m tx w = (r, tx', w')"
  shows "committed w' = committed w" and "r = Inr v \<Longrightarrow> live tx' w'"
    and "r = Inr v \<Longrightarrow> R m (view tx) v (view tx')"
    and "r = Inl e \<Longrightarrow> saved tx' = saved tx \<or> saved tx' = None"
  using assms(1) [unfolded handler_in_savepoint_def, rule_format, OF conjI [OF assms(2,3)]] by simp_all

text \<open>
  The specification of the batch: the messages are taken in order; a fresh one whose handler
  succeeds moves the data by \<open>R\<close>, a fresh one whose handler fails leaves the data as it was
  before the handler, less its claim; a duplicate changes nothing and is reported as failed
  exactly when its message failed earlier in the batch.
\<close>

inductive batch_spec ::
  "consumer_id \<Rightarrow> (message_id \<Rightarrow> 'u inbox_state \<Rightarrow> 't \<Rightarrow> 'u inbox_state \<Rightarrow> bool) \<Rightarrow>
   (message_id \<times> claim) list \<Rightarrow> str set \<Rightarrow> 'u inbox_state \<Rightarrow> 't process_result list \<Rightarrow>
   'u inbox_state \<Rightarrow> bool" for c R where
  spec_done: "batch_spec c R [] failed s [] s"
| spec_duplicate: "batch_spec c R ps failed s rs s' \<Longrightarrow> message_str m \<notin> failed \<Longrightarrow>
    batch_spec c R ((m, Duplicate) # ps) failed s (Inr DuplicateOutcome # rs) s'"
| spec_repeat: "batch_spec c R ps failed s rs s' \<Longrightarrow> message_str m \<in> failed \<Longrightarrow>
    batch_spec c R ((m, Duplicate) # ps) failed s (Inl (repeat_of_failed m) # rs) s'"
| spec_processed: "R m s v s1 \<Longrightarrow> batch_spec c R ps failed s1 rs s' \<Longrightarrow>
    batch_spec c R ((m, Fresh) # ps) failed s (Inr (Processed v) # rs) s'"
| spec_failed: "batch_spec c R ps (insert (message_str m) failed) (forget_key (key_of c m) s) rs s' \<Longrightarrow>
    batch_spec c R ((m, Fresh) # ps) failed s (Inl e # rs) s'"

inductive_cases batch_spec_NilE: "batch_spec c R [] failed s rs s'"
inductive_cases batch_spec_DuplicateE: "batch_spec c R ((m, Duplicate) # ps) failed s rs s'"
inductive_cases batch_spec_FreshE: "batch_spec c R ((m, Fresh) # ps) failed s rs s'"

definition fresh_count :: "(message_id \<times> claim) list \<Rightarrow> nat" where
  "fresh_count ps = length (filter (\<lambda>(_, c). c = Fresh) ps)"

lemma fresh_count_simps [simp]:
  "fresh_count [] = 0" "fresh_count ((m, Duplicate) # ps) = fresh_count ps"
  "fresh_count ((m, Fresh) # ps) = Suc (fresh_count ps)"
  by (simp_all add: fresh_count_def)

lemma fresh_count_zip:
  "length ids = length cs \<Longrightarrow> fresh_count (zip ids cs) = length (filter (\<lambda>c. c = Fresh) cs)"
  by (induction ids cs rule: list_induct2) (auto simp: fresh_count_def)

definition batch_outcome ::
  "consumer_id \<Rightarrow> (message_id \<Rightarrow> 'u inbox_state \<Rightarrow> 't \<Rightarrow> 'u inbox_state \<Rightarrow> bool) \<Rightarrow>
   message_id list \<Rightarrow> 'u inbox_state \<Rightarrow> 't process_result list \<Rightarrow> 'u inbox_state \<Rightarrow> bool" where
  "batch_outcome c R ids s rs s' \<longleftrightarrow>
     batch_spec c R (zip ids (answer_each c (seen s) ids)) {}
       (record_keys (key_of c ` set ids) s) rs s'"

definition process_many_post ::
  "consumer_id \<Rightarrow> (message_id \<Rightarrow> 'u inbox_state \<Rightarrow> 't \<Rightarrow> 'u inbox_state \<Rightarrow> bool) \<Rightarrow>
   message_id list \<Rightarrow> 'u inbox_state \<Rightarrow> (inbox_error + 't process_result list) option \<Rightarrow>
   'u inbox_state \<Rightarrow> bool" where
  "process_many_post c R ids s r s' =
     (case r of
        None \<Rightarrow> False
      | Some (Inr rs) \<Rightarrow> batch_outcome c R ids s rs s'
      | Some (Inl _) \<Rightarrow> s' = s \<or> (\<exists>rs. batch_outcome c R ids s rs s'))"

context batch_contract
begin

lemma run_handler_ok:
  assumes self: "con_store self = S" and h: "handler_in_savepoint committed view live saved R h"
    and live: "live tx w" and sp: "saved tx = Some (view tx)" and k: "forgettable (key_of (con_id self) m) (view tx)"
    and run: "run_handler self h m tx w = (r, tx', w')"
  shows "committed w' = committed w \<and>
    (\<forall>x. r = Inr x \<longrightarrow> live tx' w' \<and>
       (case x of Inr out \<Rightarrow> (\<exists>v. out = Processed v \<and> R m (view tx) v (view tx'))
        | Inl _ \<Rightarrow> view tx' = forget_key (key_of (con_id self) m) (view tx)))"
proof -
  obtain x tx1 w1 where x: "h m tx w = (x, tx1, w1)" by (metis prod.collapse)
  note handled = handler_in_savepointD [OF h live x]
  show ?thesis
  proof (cases x)
    case (Inr v)
    with x run handled show ?thesis by (auto simp: run_handler_def)
  next
    case (Inl e)
    obtain q tx2 w2 where q: "op_rollback_to S tx1 w1 = (q, tx2, w2)" by (metis prod.collapse)
    show ?thesis
    proof (cases q)
      case (Inl e1)
      with q x \<open>x = Inl e\<close> run self handled(1) rollback_to_err show ?thesis
        by (auto simp: run_handler_def)
    next
      case (Inr u)
      note undo = rollback_to_ok [of tx1 w1 tx2 w2]
      have undone: "view tx2 = view tx" "live tx2 w2" "committed w2 = committed w"
        using undo q Inr handled(1,4) \<open>x = Inl e\<close> sp by auto
      obtain y tx3 w3 where y: "op_unclaim S (con_id self) m tx2 w2 = (y, tx3, w3)"
        by (metis prod.collapse)
      have "committed w3 = committed w"
        using y undone k unclaim_law [of tx2 w2] unclaim_err [of tx2 w2] by (cases y) auto
      moreover have "y = Inr z \<Longrightarrow>
          live tx3 w3 \<and> view tx3 = forget_key (key_of (con_id self) m) (view tx)" for z
        using y undone k unclaim_law [of tx2 w2] by auto
      ultimately show ?thesis
        using y q Inr x \<open>x = Inl e\<close> run self by (cases y) (auto simp: run_handler_def)
    qed
  qed
qed

lemma settle_fresh_ok:
  assumes self: "con_store self = S" and h: "handler_in_savepoint committed view live saved R h"
    and live: "live tx w" and sp: "saved tx = Some (view tx)" and k: "forgettable (key_of (con_id self) m) (view tx)"
    and run: "settle_fresh self h n m tx w = (r, tx', w')"
  shows "committed w' = committed w \<and>
    (\<forall>x. r = Inr x \<longrightarrow> live tx' w' \<and> (n > 0 \<longrightarrow> saved tx' = Some (view tx')) \<and>
       (case x of Inr out \<Rightarrow> (\<exists>v. out = Processed v \<and> R m (view tx) v (view tx'))
        | Inl _ \<Rightarrow> view tx' = forget_key (key_of (con_id self) m) (view tx)))"
proof -
  obtain y tx1 w1 where y: "run_handler self h m tx w = (y, tx1, w1)" by (metis prod.collapse)
  note ran = run_handler_ok [OF self h live sp k y]
  show ?thesis
  proof (cases y)
    case (Inl e)
    with y run ran show ?thesis by (auto simp: settle_fresh_def)
  next
    case (Inr x)
    obtain z tx2 w2 where z: "(if n > 0 then op_release_and_savepoint (con_store self) tx1 w1
        else op_release (con_store self) tx1 w1) = (z, tx2, w2)" by (metis prod.collapse)
    have live1: "live tx1 w1" using ran Inr by simp
    have "committed w2 = committed w1 \<and> (\<forall>u. z = Inr u \<longrightarrow>
        live tx2 w2 \<and> view tx2 = view tx1 \<and> (n > 0 \<longrightarrow> saved tx2 = Some (view tx2)))"
    proof (cases "n > 0")
      case True
      with z self live1 show ?thesis
        using release_and_savepoint_ok [of tx1 w1 tx2 w2] release_and_savepoint_err [of tx1 w1 _ tx2 w2]
        by (cases z) auto
    next
      case False
      with z self live1 show ?thesis
        using release_ok [of tx1 w1 tx2 w2] release_err [of tx1 w1 _ tx2 w2] by (cases z) auto
    qed
    moreover have "(r, tx', w') = (case z of Inl e \<Rightarrow> Inl e | Inr _ \<Rightarrow> Inr x, tx2, w2)"
      using run z unfolding settle_fresh_def y Inr by (simp split: sum.splits)
    ultimately show ?thesis using ran Inr by (cases z) (auto split: sum.splits)
  qed
qed

text \<open>\<open>J\<close> holds of the rest of the batch and the data before every message, and lets a fresh one be given up.\<close>

lemma batch_loop_ok:
  assumes self: "con_store self = S" and h: "handler_in_savepoint committed view live saved R h"
    and J: "\<And>m ps s. J ((m, Duplicate) # ps) s \<Longrightarrow> J ps s"
      "\<And>m ps s. J ((m, Fresh) # ps) s \<Longrightarrow>
        forgettable (key_of (con_id self) m) s \<and> J ps (forget_key (key_of (con_id self) m) s)"
      "\<And>m ps s v s'. J ((m, Fresh) # ps) s \<Longrightarrow> R m s v s' \<Longrightarrow> J ps s'"
  shows "live tx w \<Longrightarrow> J ps (view tx) \<Longrightarrow> (0 < fresh_count ps \<Longrightarrow> saved tx = Some (view tx)) \<Longrightarrow>
    batch_loop self h ps (fresh_count ps) failed results tx w = (r, tx', w') \<Longrightarrow>
    committed w' = committed w \<and> r \<noteq> None \<and>
    (\<forall>rs. r = Some (Inr rs) \<longrightarrow> live tx' w' \<and>
       (\<exists>rs'. rs = results @ rs' \<and> batch_spec (con_id self) R ps failed (view tx) rs' (view tx')))"
proof (induction ps arbitrary: failed results tx w)
  case Nil
  then show ?case by (auto intro: batch_spec.spec_done)
next
  case (Cons p ps)
  obtain m a where p: "p = (m, a)" by (cases p)
  show ?case
  proof (cases a)
    case Duplicate
    let ?x = "if message_str m \<in> failed then Inl (repeat_of_failed m) else Inr DuplicateOutcome"
    from Cons.prems p Duplicate
    have "batch_loop self h ps (fresh_count ps) failed (results @ [?x]) tx w = (r, tx', w')" by simp
    from Cons.IH [OF Cons.prems(1) _ _ this] Cons.prems(2,3) J(1) p Duplicate
    have "committed w' = committed w \<and> r \<noteq> None \<and>
      (\<forall>rs. r = Some (Inr rs) \<longrightarrow> live tx' w' \<and>
         (\<exists>rs'. rs = results @ ?x # rs' \<and> batch_spec (con_id self) R ps failed (view tx) rs' (view tx')))"
      by simp
    moreover have "batch_spec (con_id self) R ps failed (view tx) rs' (view tx') \<Longrightarrow>
      batch_spec (con_id self) R (p # ps) failed (view tx) (?x # rs') (view tx')" for rs'
      unfolding p Duplicate by (simp add: batch_spec.spec_duplicate batch_spec.spec_repeat)
    ultimately show ?thesis by blast
  next
    case Fresh
    obtain y tx1 w1 where y: "settle_fresh self h (fresh_count ps) m tx w = (y, tx1, w1)"
      by (metis prod.collapse)
    have sp: "saved tx = Some (view tx)" using Cons.prems(3) p Fresh by simp
    note here = Cons.prems(2) [unfolded p Fresh]
    note settled = settle_fresh_ok [OF self h Cons.prems(1) sp conjunct1 [OF J(2) [OF here]] y]
    show ?thesis
    proof (cases y)
      case (Inl e)
      with Cons.prems(4) p Fresh y settled show ?thesis by auto
    next
      case (Inr x)
      let ?failed = "case x of Inl _ \<Rightarrow> insert (message_str m) failed | Inr _ \<Rightarrow> failed"
      have "batch_loop self h ps (fresh_count ps) ?failed (results @ [x]) tx1 w1 = (r, tx', w')"
        using Cons.prems(4) p Fresh y Inr by simp
      note tail = Cons.IH [OF _ _ _ this]
      have "J ps (view tx1)" using settled Inr J(2,3) [OF here] by (cases x) auto
      then show ?thesis
        using tail settled Inr p Fresh
        by (cases x) (auto intro: batch_spec.spec_processed batch_spec.spec_failed)
    qed
  qed
qed

end

context savepoints_contract
begin

lemma process_claimed_atomic:
  assumes self: "con_store self = S" and h: "handler_in_savepoint committed view live saved R h"
    and live: "live tx w" and view: "view tx = record_keys (key_of (con_id self) ` set ids) s"
    and cs: "cs = answer_each (con_id self) (seen s) ids"
    and run: "process_claimed self ids h cs tx w = (r, w')" and s: "committed w = s"
  shows "process_many_post (con_id self) R ids s r (committed w')"
proof -
  let ?n = "length (filter (\<lambda>c. c = Fresh) cs)"
  have n: "?n = fresh_count (zip ids cs)" using cs by (simp add: fresh_count_zip)
  obtain y tx1 w1 where y: "(if ?n > 0 then op_savepoint (con_store self) tx w else (Inr (), tx, w)) = (y, tx1, w1)"
    by (metis prod.collapse)
  have opened: "committed w1 = s \<and> (\<forall>u. y = Inr u \<longrightarrow>
      live tx1 w1 \<and> view tx1 = view tx \<and> (0 < ?n \<longrightarrow> saved tx1 = Some (view tx1)))"
    using y live s self savepoint_ok [of tx w tx1 w1] savepoint_err [of tx w _ tx1 w1]
    by (cases "?n > 0"; cases y) auto
  show ?thesis
  proof (cases y)
    case (Inl e)
    with y run self opened drop_keeps show ?thesis
      by (auto simp: process_claimed_def process_many_post_def Let_def)
  next
    case (Inr u)
    obtain z tx2 w2 where z: "batch_loop self h (zip ids cs) ?n {} [] tx1 w1 = (z, tx2, w2)"
      by (metis prod.collapse)
    have looped: "committed w2 = s \<and> z \<noteq> None \<and> (\<forall>rs. z = Some (Inr rs) \<longrightarrow>
        live tx2 w2 \<and> batch_outcome (con_id self) R ids s rs (view tx2))"
      using batch_loop_ok [OF self h, of "\<lambda>_ _. True" tx1 w1 "zip ids cs" "{}" "[]" z tx2 w2] opened Inr z n view cs
      by (auto simp: batch_outcome_def)
    have res: "process_claimed self ids h cs tx w = (case z of None \<Rightarrow> (None, op_drop (con_store self) tx2 w2)
        | Some (Inl e) \<Rightarrow> (Some (Inl e), op_drop (con_store self) tx2 w2)
        | Some (Inr rs) \<Rightarrow> (case op_commit (con_store self) tx2 w2 of
            (Inl e, w3) \<Rightarrow> (Some (Inl e), w3) | (Inr _, w3) \<Rightarrow> (Some (Inr rs), w3)))"
      unfolding process_claimed_def Let_def y Inr by (simp add: z split: option.split sum.split)
    obtain q w3 where q: "op_commit S tx2 w2 = (q, w3)" by (metis prod.collapse)
    consider e where "z = Some (Inl e)" | rs where "z = Some (Inr rs)"
      using looped by (metis option.exhaust sum.exhaust)
    then show ?thesis
    proof cases
      case 1
      with res run self looped drop_keeps show ?thesis by (auto simp: process_many_post_def)
    next
      case 2
      with looped q commit_ok [of tx2 w2 w3] commit_err [of tx2 w2 _ w3]
      show ?thesis using res run self
        by (cases q) (auto simp: process_many_post_def)
    qed
  qed
qed

text \<open>The whole call: it never panics, its results are those of the batch specification, and an
  error leaves the data untouched unless the final commit was applied and only its
  acknowledgement was lost, in which case the whole batch is there.\<close>

lemma process_many_atomic:
  assumes self: "con_store self = S" and h: "handler_in_savepoint committed view live saved R h"
    and run: "process_many self ids h w = (r, w')"
  shows "process_many_post (con_id self) R ids (committed w) r (committed w')"
proof (cases "ids = []")
  case True
  with run show ?thesis
    by (auto simp: process_many_def process_many_post_def batch_outcome_def intro: batch_spec.spec_done)
next
  case False
  obtain b w1 where b: "op_begin S w = (b, w1)" by (metis prod.collapse)
  show ?thesis
  proof (cases b)
    case (Inl e)
    with b run self False begin_err [of w e w1] show ?thesis
      by (auto simp: process_many_def process_many_post_def)
  next
    case (Inr tx)
    note begun = begin_ok [OF b [unfolded Inr]]
    obtain q tx2 w2 where q: "consumer_claim_many self ids tx w1 = (q, tx2, w2)" by (metis prod.collapse)
    note claimed = consumer_claim_many_ok [OF self _ q]
    show ?thesis
    proof (cases "\<exists>cs. q = Some (Inr cs)")
      case False
      then obtain e where "q = Some (Inl e)"
        using claimed begun by (metis option.exhaust sum.exhaust)
      with b q run self Inr \<open>ids \<noteq> []\<close> claimed begun drop_keeps show ?thesis
        by (auto simp: process_many_def process_many_post_def)
    next
      case True
      then obtain cs where cs: "q = Some (Inr cs)" by blast
      have "process_claimed self ids h cs tx2 w2 = (r, w')"
        using b q run self Inr \<open>ids \<noteq> []\<close> cs by (simp add: process_many_def)
      from process_claimed_atomic [OF self h _ _ _ this, of "committed w"] show ?thesis
        using claimed begun cs by simp
    qed
  qed
qed

end

subsection \<open>What a batch result means for acknowledging\<close>

text \<open>A handler that leaves the inbox table alone and applies \<open>eff m\<close> to the rest of the data.\<close>

definition app_effect ::
  "('x \<Rightarrow> 'u \<Rightarrow> 'u) \<Rightarrow> 'x \<Rightarrow> 'u inbox_state \<Rightarrow> 't \<Rightarrow> 'u inbox_state \<Rightarrow> bool" where
  "app_effect eff m s v s' \<longleftrightarrow> s' = s\<lparr>app := eff m (app s)\<rparr>"

lemma app_effectD:
  "app_effect eff m s v s' \<Longrightarrow> app s' = eff m (app s)" "app_effect eff m s v s' \<Longrightarrow> seen s' = seen s"
  by (simp_all add: app_effect_def)

text \<open>The messages a batch processed, in order.\<close>

fun processed_ids :: "message_id list \<Rightarrow> 't process_result list \<Rightarrow> message_id list" where
  "processed_ids (m # ms) (Inr (Processed v) # rs) = m # processed_ids ms rs"
| "processed_ids (m # ms) (_ # rs) = processed_ids ms rs"
| "processed_ids _ _ = []"

lemma batch_spec_length: "batch_spec c R ps failed s rs s' \<Longrightarrow> length rs = length ps"
  by (induction rule: batch_spec.induct) auto

lemma batch_spec_app:
  assumes "batch_spec c (app_effect eff) (zip ids cs) failed s rs s'" and "length ids = length cs"
  shows "app s' = fold eff (processed_ids ids rs) (app s)"
  using assms(2,1)
proof (induction ids cs arbitrary: failed s rs rule: list_induct2)
  case Nil
  then show ?case by (auto elim: batch_spec_NilE)
next
  case (Cons m ids a cs)
  show ?case
  proof (cases a)
    case Fresh
    from Cons.prems Fresh have "batch_spec c (app_effect eff) ((m, Fresh) # zip ids cs) failed s rs s'"
      by simp
    then show ?thesis by cases (auto dest!: Cons.IH dest: app_effectD(1))
  next
    case Duplicate
    from Cons.prems Duplicate have "batch_spec c (app_effect eff) ((m, Duplicate) # zip ids cs) failed s rs s'"
      by simp
    then show ?thesis by cases (auto dest: Cons.IH)
  qed
qed

text \<open>A batch processes a message at most once, and none whose key is in \<open>ks\<close>.\<close>

lemma batch_spec_processed:
  assumes "batch_spec c R (zip ids (answer_each c ks ids)) failed s rs s'"
  shows "distinct (processed_ids ids rs) \<and> (\<forall>m\<in>set (processed_ids ids rs). key_of c m \<notin> ks)"
  using assms
proof (induction ids arbitrary: ks failed s rs)
  case Nil
  then show ?case by (auto elim: batch_spec_NilE)
next
  case (Cons m ids)
  let ?ks = "insert (key_of c m) ks"
  have IH: "distinct (processed_ids ids rs1) \<and> (\<forall>m'\<in>set (processed_ids ids rs1). key_of c m' \<notin> ?ks)"
    if "batch_spec c R (zip ids (answer_each c ?ks ids)) failed1 s1 rs1 s'" for failed1 s1 rs1
    using Cons.IH [OF that] .
  show ?case
  proof (cases "key_of c m \<in> ks")
    case True
    then have "batch_spec c R ((m, Duplicate) # zip ids (answer_each c ?ks ids)) failed s rs s'"
      using Cons.prems by simp
    then show ?thesis by cases (auto dest: IH)
  next
    case False
    then have "batch_spec c R ((m, Fresh) # zip ids (answer_each c ?ks ids)) failed s rs s'"
      using Cons.prems by simp
    then show ?thesis by cases (use False in \<open>auto dest: IH\<close>)
  qed
qed

text \<open>
  The invariant of the loop, seen from the recorded keys \<open>ks\<close> that are already decided: a
  decided message is recorded exactly when it has not failed, an undecided one is recorded (the
  batch claimed it). A position ends as recorded exactly when its result is \<open>Ok\<close>, and the loop
  leaves every decided and every foreign key as it finds it.
\<close>

definition undecided_recorded ::
  "consumer_id \<Rightarrow> key set \<Rightarrow> str set \<Rightarrow> 'u inbox_state \<Rightarrow> message_id list \<Rightarrow> bool" where
  "undecided_recorded c ks failed s ids \<longleftrightarrow>
     (\<forall>m\<in>set ids. (key_of c m \<in> seen s \<longleftrightarrow> key_of c m \<notin> ks \<or> message_str m \<notin> failed) \<and>
        (key_of c m \<notin> ks \<longrightarrow> message_str m \<notin> failed))"

definition settled ::
  "consumer_id \<Rightarrow> key set \<Rightarrow> message_id list \<Rightarrow> 't process_result list \<Rightarrow>
   'u inbox_state \<Rightarrow> 'u inbox_state \<Rightarrow> bool" where
  "settled c ks ids rs s s' \<longleftrightarrow>
     (\<forall>i<length ids. key_of c (ids ! i) \<in> seen s' \<longleftrightarrow> (\<exists>out. rs ! i = Inr out)) \<and>
     (\<forall>k. k \<in> ks \<or> k \<notin> key_of c ` set ids \<longrightarrow> (k \<in> seen s' \<longleftrightarrow> k \<in> seen s))"

lemma settled_Cons:
  assumes "settled c (insert (key_of c m) ks) ids rs s1 s'"
    and "key_of c m \<in> seen s1 \<longleftrightarrow> (\<exists>out. x = Inr out)"
    and "\<And>k. k \<in> ks \<or> k \<noteq> key_of c m \<Longrightarrow> k \<in> seen s1 \<longleftrightarrow> k \<in> seen s"
  shows "settled c ks (m # ids) (x # rs) s s'"
proof -
  have keep: "k \<in> seen s' \<longleftrightarrow> k \<in> seen s1" if "k \<in> insert (key_of c m) ks \<or> k \<notin> key_of c ` set ids" for k
    using assms(1) that unfolding settled_def by blast
  have "key_of c m \<in> seen s' \<longleftrightarrow> (\<exists>out. x = Inr out)" using keep [of "key_of c m"] assms(2) by simp
  moreover have "\<forall>i<length ids. key_of c (ids ! i) \<in> seen s' \<longleftrightarrow> (\<exists>out. rs ! i = Inr out)"
    using assms(1) unfolding settled_def by blast
  moreover have "k \<in> seen s' \<longleftrightarrow> k \<in> seen s" if "k \<in> ks \<or> k \<notin> key_of c ` set (m # ids)" for k
    using that keep [of k] assms(3) [of k] by auto
  ultimately show ?thesis unfolding settled_def by (simp add: nth_Cons split: nat.splits)
qed

lemma batch_spec_Fresh_step:
  assumes "batch_spec c (app_effect eff) ((m, Fresh) # ps) failed s rs s'"
  obtains x rs1 s1 failed1 where "rs = x # rs1" "batch_spec c (app_effect eff) ps failed1 s1 rs1 s'"
    "(\<exists>out. x = Inr out) \<and> seen s1 = seen s \<and> failed1 = failed \<or>
     (\<nexists>out. x = Inr out) \<and> seen s1 = seen s - {key_of c m} \<and> failed1 = insert (message_str m) failed"
  using assms by cases (fastforce dest: app_effectD(2))+

lemma batch_spec_seen:
  assumes "batch_spec c (app_effect eff) (zip ids (answer_each c ks ids)) failed s rs s'"
    and "undecided_recorded c ks failed s ids"
  shows "settled c ks ids rs s s'"
  using assms
proof (induction ids arbitrary: ks failed s rs)
  case Nil
  then show ?case by (auto simp: settled_def elim: batch_spec_NilE)
next
  case (Cons m ids)
  let ?k = "key_of c m"
  have inv: "?k \<in> seen s \<longleftrightarrow> ?k \<notin> ks \<or> message_str m \<notin> failed" "?k \<notin> ks \<Longrightarrow> message_str m \<notin> failed"
    "undecided_recorded c ks failed s ids"
    using Cons.prems(2) by (simp_all add: undecided_recorded_def)
  show ?case
  proof (cases "?k \<in> ks")
    case True
    then have ins: "insert ?k ks = ks" by auto
    obtain x rs1 where x: "rs = x # rs1" "(\<exists>out. x = Inr out) \<longleftrightarrow> message_str m \<notin> failed"
      and tail: "batch_spec c (app_effect eff) (zip ids (answer_each c ks ids)) failed s rs1 s'"
      using Cons.prems(1) True by (auto simp: ins elim!: batch_spec_DuplicateE)
    from Cons.IH [OF tail inv(3)] show ?thesis
      unfolding x(1) by (intro settled_Cons) (simp_all add: ins inv(1) True x(2))
  next
    case False
    with Cons.prems(1) have
      "batch_spec c (app_effect eff) ((m, Fresh) # zip ids (answer_each c (insert ?k ks) ids)) failed s rs s'" by simp
    then obtain x rs1 s1 failed1 where x: "rs = x # rs1"
      and tail: "batch_spec c (app_effect eff) (zip ids (answer_each c (insert ?k ks) ids)) failed1 s1 rs1 s'"
      and step: "(\<exists>out. x = Inr out) \<and> seen s1 = seen s \<and> failed1 = failed \<or>
        (\<nexists>out. x = Inr out) \<and> seen s1 = seen s - {?k} \<and> failed1 = insert (message_str m) failed"
      by (rule batch_spec_Fresh_step)
    have "undecided_recorded c (insert ?k ks) failed1 s1 ids"
      using step inv False unfolding undecided_recorded_def by (auto simp: message_id.expand)
    from Cons.IH [OF tail this] show ?thesis
      unfolding x by (rule settled_Cons) (use step inv(1) False in auto)
  qed
qed

lemma batch_outcome_settles:
  assumes "batch_outcome c (app_effect eff) ids s rs s'"
  shows "length rs = length ids"
    and "i < length ids \<Longrightarrow> key_of c (ids ! i) \<in> seen s' \<longleftrightarrow> (\<exists>out. rs ! i = Inr out)"
    and "k \<notin> key_of c ` set ids \<Longrightarrow> k \<in> seen s' \<longleftrightarrow> k \<in> seen s"
    and "app s' = fold eff (processed_ids ids rs) (app s)"
    and "distinct (processed_ids ids rs) \<and> (\<forall>m\<in>set (processed_ids ids rs). key_of c m \<notin> seen s)"
proof -
  let ?s = "record_keys (key_of c ` set ids) s"
  have spec: "batch_spec c (app_effect eff) (zip ids (answer_each c (seen s) ids)) {} ?s rs s'"
    using assms by (simp add: batch_outcome_def)
  from batch_spec_length [OF spec] show "length rs = length ids" by simp
  from batch_spec_processed [OF spec]
  show "distinct (processed_ids ids rs) \<and> (\<forall>m\<in>set (processed_ids ids rs). key_of c m \<notin> seen s)" .
  from batch_spec_app [OF spec] show "app s' = fold eff (processed_ids ids rs) (app s)" by simp
  have seen: "settled c (seen s) ids rs ?s s'"
    by (rule batch_spec_seen [OF spec]) (auto simp: undecided_recorded_def)
  then show "i < length ids \<Longrightarrow> key_of c (ids ! i) \<in> seen s' \<longleftrightarrow> (\<exists>out. rs ! i = Inr out)"
    by (simp add: settled_def)
  from seen have "k \<notin> key_of c ` set ids \<Longrightarrow> k \<in> seen s' \<longleftrightarrow> k \<in> seen ?s" unfolding settled_def by blast
  then show "k \<notin> key_of c ` set ids \<Longrightarrow> k \<in> seen s' \<longleftrightarrow> k \<in> seen s" by simp
qed

end
