(* ===== verification/Sql.thy ===== *)
theory Sql
  imports Consumer
begin

text \<open>
  The SQL the crate sends and the helpers of \<^verbatim>\<open>src/src/sql.rs\<close>. A statement of the sources is a
  value of \<open>stmt\<close> with its bound parameters in place; \<open>sql_post\<close> says what executing it means
  for the table \<open>inbox_messages\<close> (of \<^verbatim>\<open>src/migrations\<close>: primary key
  \<open>(consumer_id, message_id)\<close>, ids compared exactly), the open savepoints and the session
  variables. It is a relation because SQL leaves the order of \<open>RETURNING\<close> rows and the choice
  among equally old rows open.

  The driver (sqlx), the server behind it, \<open>chrono\<close> and \<open>getrandom\<close> are not part of the
  repository: they are the parameter \<open>driver\<close>, and what the backends rely on is the locale
  \<open>sql_driver\<close>.
\<close>

subsection \<open>Tables, sessions, transactions\<close>

record row =
  processed_at :: int
  claim_token :: "u64 option"

record 'u database =
  inbox_messages :: "key \<rightharpoonup> row"
  rest :: 'u

text \<open>\<open>lock_timeout\<close> is PostgreSQL's transaction-local setting, the other two are MySQL's session
  variable \<open>innodb_lock_wait_timeout\<close> and the user variable \<open>@txbox_lock_wait_timeout\<close>.\<close>

record session =
  lock_timeout :: "str option"
  innodb_lock_wait_timeout :: u64
  txbox_lock_wait_timeout :: "u64 option"

record 'u txn =
  txn_db :: "'u database"
  txn_savepoints :: "(str \<times> 'u database) list"
  txn_vars :: session

definition start_txn :: "session \<Rightarrow> 'u database \<Rightarrow> 'u txn" where
  "start_txn v d = \<lparr>txn_db = d, txn_savepoints = [], txn_vars = v\<rparr>"

lemma start_txn_simps [simp]:
  "txn_db (start_txn v d) = d" "txn_savepoints (start_txn v d) = []" "txn_vars (start_txn v d) = v"
  by (simp_all add: start_txn_def)

definition on_table :: "((key \<rightharpoonup> row) \<Rightarrow> (key \<rightharpoonup> row)) \<Rightarrow> 'u txn \<Rightarrow> 'u txn" where
  "on_table f s = s\<lparr>txn_db := (txn_db s)\<lparr>inbox_messages := f (inbox_messages (txn_db s))\<rparr>\<rparr>"

abbreviation table :: "'u txn \<Rightarrow> key \<rightharpoonup> row" where
  "table s \<equiv> inbox_messages (txn_db s)"

lemma on_table_simps [simp]:
  "table (on_table f s) = f (table s)" "rest (txn_db (on_table f s)) = rest (txn_db s)"
  "txn_savepoints (on_table f s) = txn_savepoints s" "txn_vars (on_table f s) = txn_vars s"
  by (simp_all add: on_table_def)

subsection \<open>Statements\<close>

datatype on_conflict = Do_nothing | Ignore_row | Update_same

datatype time_expr = Server_now | At int

datatype cutoff = Now_minus_secs duration | Now_minus_micros u64 | Before int

datatype var_expr = Bound u64 | Null | User_var | Session_var | Coalesce var_expr var_expr

datatype assignment = Set_session var_expr | Set_user var_expr

datatype stmt =
    Insert_row str str time_expr on_conflict
  | Insert_rows str "str list" time_expr "u64 option" bool on_conflict bool
  | Select_claimed "str list" str u64
  | Select_exists str str
  | Delete_row str str
  | Delete_oldest cutoff nat
  | Savepoint str
  | Release str
  | Rollback_to str
  | Set_local_lock_timeout str
  | Set_vars "assignment list"
  | Script stmt stmt

record query_result =
  rows_affected :: u64
  texts :: "str list"
  flag :: bool

fun time_of :: "int \<Rightarrow> time_expr \<Rightarrow> int" where
  "time_of now Server_now = now"
| "time_of now (At t) = t"

text \<open>An insert that leaves existing rows alone, for one key and for a list of ids.\<close>

definition insert_new :: "key \<Rightarrow> row \<Rightarrow> (key \<rightharpoonup> row) \<Rightarrow> (key \<rightharpoonup> row)" where
  "insert_new k r t = (if t k = None then t(k \<mapsto> r) else t)"

fun insert_all :: "str \<Rightarrow> row \<Rightarrow> str list \<Rightarrow> (key \<rightharpoonup> row) \<Rightarrow> (key \<rightharpoonup> row)" where
  "insert_all c r [] t = t"
| "insert_all c r (m # ms) t = insert_all c r ms (insert_new (c, m) r t)"

text \<open>MySQL's \<open>SET\<close>: \<open>NULL\<close> is \<open>None\<close>; a system variable cannot be set to \<open>NULL\<close>, and
  \<open>innodb_lock_wait_timeout\<close> is brought into its range.\<close>

fun var_value :: "var_expr \<Rightarrow> session \<Rightarrow> u64 option" where
  "var_value (Bound n) v = Some n"
| "var_value Null v = None"
| "var_value User_var v = txbox_lock_wait_timeout v"
| "var_value Session_var v = Some (innodb_lock_wait_timeout v)"
| "var_value (Coalesce a b) v = (case var_value a v of Some n \<Rightarrow> Some n | None \<Rightarrow> var_value b v)"

definition clamp_wait :: "u64 \<Rightarrow> u64" where
  "clamp_wait n = max 1 (min n 1073741824)"

fun assign :: "assignment list \<Rightarrow> session \<Rightarrow> session option" where
  "assign [] v = Some v"
| "assign (Set_session e # as) v =
     (case var_value e v of
        None \<Rightarrow> None
      | Some n \<Rightarrow> assign as (v\<lparr>innodb_lock_wait_timeout := clamp_wait n\<rparr>))"
| "assign (Set_user e # as) v = assign as (v\<lparr>txbox_lock_wait_timeout := var_value e v\<rparr>)"

text \<open>A savepoint name refers to its most recent savepoint.\<close>

fun after_savepoint :: "str \<Rightarrow> (str \<times> 'd) list \<Rightarrow> ('d \<times> (str \<times> 'd) list) option" where
  "after_savepoint n [] = None"
| "after_savepoint n ((m, d) # sps) = (if m = n then Some (d, sps) else after_savepoint n sps)"

text \<open>The rows \<open>DELETE .. ORDER BY processed_at LIMIT n\<close> removes: \<open>n\<close> of the rows before the
  cutoff (all, if there are fewer), none of them younger than a row left behind. A \<open>NULL\<close>
  cutoff matches no row.\<close>

definition old_keys :: "int option \<Rightarrow> (key \<rightharpoonup> row) \<Rightarrow> key set" where
  "old_keys lim t = {k. \<exists>c r. lim = Some c \<and> t k = Some r \<and> processed_at r < c}"

definition oldest :: "int option \<Rightarrow> nat \<Rightarrow> (key \<rightharpoonup> row) \<Rightarrow> key set \<Rightarrow> bool" where
  "oldest lim n t K \<longleftrightarrow>
     K \<subseteq> old_keys lim t \<and> card K = min n (card (old_keys lim t)) \<and>
     (\<forall>k\<in>K. \<forall>k'\<in>old_keys lim t - K. processed_at (the (t k)) \<le> processed_at (the (t k')))"

fun sql_post ::
  "(int \<Rightarrow> cutoff \<Rightarrow> int option) \<Rightarrow> int \<Rightarrow> stmt \<Rightarrow> 'u txn \<Rightarrow> query_result \<Rightarrow> 'u txn \<Rightarrow> bool" where
  "sql_post csub now (Insert_row c m t oc) s r s' \<longleftrightarrow>
     s' = on_table (insert_new (c, m) \<lparr>processed_at = time_of now t, claim_token = None\<rparr>) s \<and>
     (oc \<noteq> Update_same \<longrightarrow> rows_affected r = (if table s (c, m) = None then 1 else 0))"
| "sql_post csub now (Insert_rows c ms t tok ordered oc returning) s r s' \<longleftrightarrow>
     s' = on_table (insert_all c \<lparr>processed_at = time_of now t, claim_token = tok\<rparr> ms) s \<and>
     (returning \<longrightarrow> set (texts r) = {m \<in> set ms. table s (c, m) = None})"
| "sql_post csub now (Select_claimed ms c tok) s r s' \<longleftrightarrow>
     s' = s \<and>
     set (texts r) = {m \<in> set ms. \<exists>row. table s (c, m) = Some row \<and> claim_token row = Some tok}"
| "sql_post csub now (Select_exists c m) s r s' \<longleftrightarrow> s' = s \<and> flag r = (table s (c, m) \<noteq> None)"
| "sql_post csub now (Delete_row c m) s r s' \<longleftrightarrow> s' = on_table (\<lambda>t. t((c, m) := None)) s"
| "sql_post csub now (Delete_oldest co n) s r s' \<longleftrightarrow>
     (\<exists>K. oldest (csub now co) n (table s) K \<and> s' = on_table (\<lambda>t. t |` (- K)) s \<and>
        unat (rows_affected r) = card K)"
| "sql_post csub now (Savepoint n) s r s' \<longleftrightarrow>
     s' = s\<lparr>txn_savepoints := (n, txn_db s) # txn_savepoints s\<rparr>"
| "sql_post csub now (Release n) s r s' \<longleftrightarrow>
     (case after_savepoint n (txn_savepoints s) of
        None \<Rightarrow> False
      | Some (_, sps) \<Rightarrow> s' = s\<lparr>txn_savepoints := sps\<rparr>)"
| "sql_post csub now (Rollback_to n) s r s' \<longleftrightarrow>
     (case after_savepoint n (txn_savepoints s) of
        None \<Rightarrow> False
      | Some (d, sps) \<Rightarrow>
          txn_db s' = d \<and> txn_savepoints s' = (n, d) # sps)"
| "sql_post csub now (Set_local_lock_timeout v) s r s' \<longleftrightarrow>
     s' = s\<lparr>txn_vars := (txn_vars s)\<lparr>lock_timeout := Some v\<rparr>\<rparr>"
| "sql_post csub now (Set_vars as) s r s' \<longleftrightarrow>
     (case assign as (txn_vars s) of None \<Rightarrow> False | Some v \<Rightarrow> s' = s\<lparr>txn_vars := v\<rparr>)"
| "sql_post csub now (Script a b) s r s' \<longleftrightarrow>
     (\<exists>r1 s1. sql_post csub now a s r1 s1 \<and> sql_post csub now b s1 r s')"

subsection \<open>The driver\<close>

text \<open>
  \<open>drv_begin\<close> is \<open>pool.begin()\<close> and, with a statement to run first, \<open>pool.begin_with(..)\<close>;
  \<open>drv_exec\<close> runs a statement on a transaction, \<open>drv_pool\<close> one on its own from the pool;
  \<open>drv_cutoff\<close> is the server's interval arithmetic; \<open>drv_utc_now\<close>, \<open>drv_from_std\<close> and
  \<open>drv_time_sub\<close> are \<open>Utc::now\<close>, \<open>chrono::Duration::from_std\<close> and the subtraction of a
  duration from a time (\<open>None\<close>: it panics on overflow); \<open>drv_random\<close> is \<open>getrandom::u64\<close>.
\<close>

record ('tx, 'w) driver =
  drv_begin :: "stmt option \<Rightarrow> 'w \<Rightarrow> (sqlx_error + 'tx) \<times> 'w"
  drv_commit :: "'tx \<Rightarrow> 'w \<Rightarrow> (sqlx_error + unit) \<times> 'w"
  drv_rollback :: "'tx \<Rightarrow> 'w \<Rightarrow> (sqlx_error + unit) \<times> 'w"
  drv_drop :: "'tx \<Rightarrow> 'w \<Rightarrow> 'w"
  drv_exec :: "stmt \<Rightarrow> 'tx \<Rightarrow> 'w \<Rightarrow> (sqlx_error + query_result) \<times> 'tx \<times> 'w"
  drv_pool :: "stmt \<Rightarrow> 'w \<Rightarrow> (sqlx_error + query_result) \<times> 'w"
  drv_cutoff :: "int \<Rightarrow> cutoff \<Rightarrow> int option"
  drv_utc_now :: "'w \<Rightarrow> int \<times> 'w"
  drv_from_std :: "duration \<Rightarrow> str + int"
  drv_time_sub :: "int \<Rightarrow> int \<Rightarrow> int option"
  drv_random :: "'w \<Rightarrow> (str + u64) \<times> 'w"

subsection \<open>Helpers shared by the backends\<close>

definition savepoint_name :: str where
  "savepoint_name = lit ''txbox_process_many''"

definition SAVEPOINT_SQL :: stmt where
  "SAVEPOINT_SQL = Savepoint savepoint_name"

definition RELEASE_AND_SAVEPOINT_SQL :: stmt where
  "RELEASE_AND_SAVEPOINT_SQL = Script (Release savepoint_name) (Savepoint savepoint_name)"

definition RELEASE_SQL :: stmt where
  "RELEASE_SQL = Release savepoint_name"

definition ROLLBACK_TO_SQL :: stmt where
  "ROLLBACK_TO_SQL = Rollback_to savepoint_name"

text \<open>\<open>sql::execute\<close>; also \<open>query(..).execute(conn).await?\<close> where the count is not used.\<close>

definition sql_execute ::
  "('tx, 'w) driver \<Rightarrow> stmt \<Rightarrow> 'tx \<Rightarrow> 'w \<Rightarrow> (inbox_error + unit) \<times> 'tx \<times> 'w" where
  "sql_execute d q tx w =
     (case drv_exec d q tx w of
        (Inl e, tx', w') \<Rightarrow> (Inl (inbox_error_from_sqlx e), tx', w')
      | (Inr _, tx', w') \<Rightarrow> (Inr (), tx', w'))"

definition claims_from_fresh :: "str list \<Rightarrow> str list \<Rightarrow> claim list" where
  "claims_from_fresh ids fresh = map (\<lambda>ident. if ident \<in> set fresh then Fresh else Duplicate) ids"

text \<open>\<open>if affected == 1\<close>, as in every backend's \<open>claim\<close>.\<close>

definition claim_of_affected :: "u64 \<Rightarrow> claim" where
  "claim_of_affected affected = (if affected = 1 then Fresh else Duplicate)"

text \<open>\<open>pool.begin().await?\<close> and its kin, with the error converted.\<close>

definition sql_begin :: "('tx, 'w) driver \<Rightarrow> stmt option \<Rightarrow> 'w \<Rightarrow> (inbox_error + 'tx) \<times> 'w" where
  "sql_begin d q w = (case drv_begin d q w of (r, w') \<Rightarrow> (map_err inbox_error_from_sqlx r, w'))"

definition sql_commit :: "('tx, 'w) driver \<Rightarrow> 'tx \<Rightarrow> 'w \<Rightarrow> (inbox_error + unit) \<times> 'w" where
  "sql_commit d tx w = (case drv_commit d tx w of (r, w') \<Rightarrow> (map_err inbox_error_from_sqlx r, w'))"

definition sql_rollback :: "('tx, 'w) driver \<Rightarrow> 'tx \<Rightarrow> 'w \<Rightarrow> (inbox_error + unit) \<times> 'w" where
  "sql_rollback d tx w = (case drv_rollback d tx w of (r, w') \<Rightarrow> (map_err inbox_error_from_sqlx r, w'))"

text \<open>The purge loop, the same in every backend: delete a batch, stop when it was not full. The
  counter is a \<open>u64\<close>.\<close>

partial_function (option) purge_loop ::
  "('tx, 'w) driver \<Rightarrow> stmt \<Rightarrow> u32 \<Rightarrow> u64 \<Rightarrow> 'w \<Rightarrow> ((inbox_error + u64) \<times> 'w) option" where
  "purge_loop d q batch acc w =
     (case drv_pool d q w of
        (Inl e, w') \<Rightarrow> Some (Inl (inbox_error_from_sqlx e), w')
      | (Inr r, w') \<Rightarrow>
          if rows_affected r < ucast batch then Some (Inr (acc + rows_affected r), w')
          else purge_loop d q batch (acc + rows_affected r) w')"

declare purge_loop.simps [code]

text \<open>What every delete does to the world, and what is transitive, the loop does.\<close>

lemma purge_loop_trans:
  assumes step: "\<And>w x w1. drv_pool d q w = (x, w1) \<Longrightarrow> T w w1"
    and trans: "\<And>w w1 w2. T w w1 \<Longrightarrow> T w1 w2 \<Longrightarrow> T w w2"
    and "purge_loop d q batch acc w = Some rw"
  shows "T w (snd rw)"
proof -
  have "d = d \<longrightarrow> q = q \<longrightarrow> T w (snd rw)"
  proof (rule purge_loop.raw_induct [where P = "\<lambda>d' q' b a w rw. d' = d \<longrightarrow> q' = q \<longrightarrow> T w (snd rw)", OF _ assms(3)],
      intro impI)
    fix f d' q' b a w rw
    assume IH: "\<And>d' q' b a w rw. f d' q' b a w = Some rw \<Longrightarrow> d' = d \<longrightarrow> q' = q \<longrightarrow> T w (snd rw)"
      and eq: "(case drv_pool d' q' w of (Inl e, w') \<Rightarrow> Some (Inl (inbox_error_from_sqlx e), w')
        | (Inr r, w') \<Rightarrow> if rows_affected r < ucast b then Some (Inr (a + rows_affected r), w')
            else f d' q' b (a + rows_affected r) w') = Some rw"
      and d': "d' = d" "q' = q"
    obtain x w1 where x: "drv_pool d q w = (x, w1)" by (metis prod.collapse)
    have "snd rw = w1 \<or> T w1 (snd rw)"
      using eq x d' IH by (cases x) (auto split: if_splits)
    with step [OF x] trans show "T w (snd rw)" by metis
  qed
  then show ?thesis by simp
qed

text \<open>A loop that reports a count has ended with a statement whose batch was not full.\<close>

lemma purge_loop_last:
  assumes step: "\<And>w x w1. drv_pool d q w = (x, w1) \<Longrightarrow> T w w1"
    and refl: "\<And>w. T w w" and trans: "\<And>w w1 w2. T w w1 \<Longrightarrow> T w1 w2 \<Longrightarrow> T w w2"
    and "purge_loop d q batch acc w = Some (Inr n, w')"
  shows "\<exists>w1 y. T w w1 \<and> drv_pool d q w1 = (Inr y, w') \<and> rows_affected y < ucast batch"
proof -
  define rw where "rw = (Inr n :: inbox_error + u64, w')"
  with assms(4) have run: "purge_loop d q batch acc w = Some rw" by simp
  let ?P = "\<lambda>d' q' b w rw. d' = d \<longrightarrow> q' = q \<longrightarrow> b = batch \<longrightarrow> fst rw = Inr n \<longrightarrow>
    (\<exists>w1 y. T w w1 \<and> drv_pool d q w1 = (Inr y, snd rw) \<and> rows_affected y < ucast batch)"
  have "?P d q batch w rw"
  proof (rule purge_loop.raw_induct [where P = "\<lambda>d' q' b a w rw. ?P d' q' b w rw", OF _ run], intro impI)
    fix f d' q' b a w rw
    assume IH: "\<And>d' q' b a w rw. f d' q' b a w = Some rw \<Longrightarrow> ?P d' q' b w rw"
      and eq: "(case drv_pool d' q' w of (Inl e, w') \<Rightarrow> Some (Inl (inbox_error_from_sqlx e), w')
        | (Inr r, w') \<Rightarrow> if rows_affected r < ucast b then Some (Inr (a + rows_affected r), w')
            else f d' q' b (a + rows_affected r) w') = Some rw"
      and d': "d' = d" "q' = q" "b = batch" and n: "fst rw = Inr n"
    obtain x w1 where x: "drv_pool d q w = (x, w1)" by (metis prod.collapse)
    show "\<exists>w1 y. T w w1 \<and> drv_pool d q w1 = (Inr y, snd rw) \<and> rows_affected y < ucast batch"
    proof (cases x)
      case (Inl e)
      with eq x d' n show ?thesis by auto
    next
      case (Inr y)
      show ?thesis
      proof (cases "rows_affected y < ucast batch")
        case True
        with eq x Inr d' refl show ?thesis by (intro exI [of _ w] exI [of _ y]) auto
      next
        case False
        with eq x Inr d' have "f d q batch (a + rows_affected y) w1 = Some rw" by simp
        from IH [OF this] n obtain w2 z where "T w1 w2" "drv_pool d q w2 = (Inr z, snd rw)" "rows_affected z < ucast batch"
          by blast
        with trans [OF step [OF x]] show ?thesis by blast
      qed
    qed
  qed
  then show ?thesis by (simp add: rw_def)
qed

subsection \<open>What the statements do\<close>

definition abs_db :: "'u database \<Rightarrow> 'u inbox_state" where
  "abs_db d = \<lparr>seen = dom (inbox_messages d), app = rest d\<rparr>"

lemma abs_db_simps [simp]: "seen (abs_db d) = dom (inbox_messages d)" "app (abs_db d) = rest d"
  by (simp_all add: abs_db_def)

text \<open>The state \<open>ROLLBACK TO\<close> txbox's savepoint would restore.\<close>

definition saved_of :: "'u txn \<Rightarrow> 'u inbox_state option" where
  "saved_of s = map_option (\<lambda>p. abs_db (fst p)) (after_savepoint savepoint_name (txn_savepoints s))"

lemma inbox_state_eq: "s = s' \<longleftrightarrow> seen s = seen s' \<and> app s = app (s' :: 'u inbox_state)"
  by (cases s, cases s') auto

lemma dom_insert_new [simp]: "dom (insert_new k r t) = insert k (dom t)"
  by (auto simp: insert_new_def)

lemma insert_new_keeps: "t k = Some x \<Longrightarrow> insert_new k' r t k = Some x"
  by (auto simp: insert_new_def)

lemma dom_insert_all [simp]: "dom (insert_all c r ms t) = dom t \<union> Pair c ` set ms"
  by (induction ms arbitrary: t) auto

lemma insert_all_apply:
  "insert_all c r ms t (c, m) = (if t (c, m) = None \<and> m \<in> set ms then Some r else t (c, m))"
  by (induction ms arbitrary: t) (auto simp: insert_new_def)

lemma finite_dom_insert_all: "finite (dom t) \<Longrightarrow> finite (dom (insert_all c r ms t))"
  by simp

lemma abs_on_table:
  "abs_db (txn_db (on_table f s)) = \<lparr>seen = dom (f (table s)), app = rest (txn_db s)\<rparr>"
  by (simp add: abs_db_def)

lemma abs_insert_row:
  "abs_db (txn_db (on_table (insert_new k r) s)) = record_keys {k} (abs_db (txn_db s))"
  by (simp add: inbox_state_eq)

lemma abs_insert_rows:
  "abs_db (txn_db (on_table (insert_all c r ms) s)) =
     record_keys (Pair c ` set ms) (abs_db (txn_db s))"
  by (simp add: inbox_state_eq)

lemma abs_delete_row:
  "abs_db (txn_db (on_table (\<lambda>t. t(k := None)) s)) = forget_key k (abs_db (txn_db s))"
  by (auto simp: inbox_state_eq split: if_splits)

lemma claims_from_fresh_eq:
  assumes "set fresh = {m \<in> set ids. k m \<notin> ks}"
  shows "claims_from_fresh ids fresh = map (\<lambda>m. if k m \<in> ks then Duplicate else Fresh) ids"
  using assms by (auto simp: claims_from_fresh_def)

lemma key_of_image: "key_of c ` set ms = Pair (consumer_str c) ` set (map message_str ms)"
  by (auto simp: key_of_def)

subsection \<open>What a purge may do\<close>

text \<open>A purge with cutoff \<open>co\<close> from table \<open>t\<close> to table \<open>t'\<close>: every row is either untouched or
  gone, and a row that is gone was older than the cutoff at some time of the server's clock.\<close>

definition purged_rows ::
  "(int \<Rightarrow> cutoff \<Rightarrow> int option) \<Rightarrow> cutoff \<Rightarrow> (key \<rightharpoonup> row) \<Rightarrow> (key \<rightharpoonup> row) \<Rightarrow> bool" where
  "purged_rows csub co t t' \<longleftrightarrow>
     (\<forall>k. t' k = t k \<or>
        (t' k = None \<and> (\<exists>r now c. t k = Some r \<and> csub now co = Some c \<and> processed_at r < c)))"

lemma purged_rows_refl [simp]: "purged_rows csub co t t"
  by (simp add: purged_rows_def)

lemma purged_rows_trans:
  assumes "purged_rows csub co t t1" and "purged_rows csub co t1 t2"
  shows "purged_rows csub co t t2"
proof -
  have "t2 k = t k \<or> (t2 k = None \<and> (\<exists>r now c. t k = Some r \<and> csub now co = Some c \<and> processed_at r < c))" for k
    using assms [unfolded purged_rows_def, THEN spec, of k] by (elim disjE conjE) simp_all
  then show ?thesis by (simp add: purged_rows_def)
qed

lemma purged_rows_dom: "purged_rows csub co t t' \<Longrightarrow> dom t' \<subseteq> dom t"
  unfolding purged_rows_def by (metis domIff subsetI)

lemma old_keys_subset: "old_keys lim t \<subseteq> dom t"
  by (auto simp: old_keys_def)

lemma delete_oldest_step:
  assumes fin: "finite (dom t)" and K: "oldest (csub now co) n t K"
  shows "purged_rows csub co t (t |` (- K))" and "K \<subseteq> dom t" and "finite K"
    and "card K < n \<Longrightarrow> old_keys (csub now co) (t |` (- K)) = {}"
proof -
  have sub: "K \<subseteq> old_keys (csub now co) t" using K by (simp add: oldest_def)
  then show dom: "K \<subseteq> dom t" using old_keys_subset by blast
  then show "finite K" using fin finite_subset by blast
  show "purged_rows csub co t (t |` (- K))"
    using sub by (auto simp: purged_rows_def restrict_map_def old_keys_def)
  assume "card K < n"
  then have "card K = card (old_keys (csub now co) t)" using K by (simp add: oldest_def)
  then have "K = old_keys (csub now co) t"
    using sub fin old_keys_subset by (metis card_subset_eq finite_subset)
  then show "old_keys (csub now co) (t |` (- K)) = {}"
    by (auto simp: old_keys_def restrict_map_def split: if_splits)
qed

subsection \<open>What the backends rely on\<close>

text \<open>
  \<open>com w\<close> is the committed database, \<open>st tx\<close> what the transaction sees and holds, \<open>live tx w\<close>
  that it is in progress. A statement that succeeds in a live transaction does what \<open>sql_post\<close>
  says and commits nothing; one that fails commits nothing, may end the transaction, and either
  keeps its savepoints or loses them all. \<open>ROLLBACK TO\<close> may succeed in a transaction a failed
  statement aborted. \<open>COMMIT\<close> applies a live transaction; when it reports an error it may still
  have been applied; of a transaction that is not live it applies nothing. Rolling back and
  dropping commit nothing. A statement outside a transaction is its own transaction. Tables are
  finite.
\<close>

locale sql_driver =
  fixes d :: "('tx, 'w) driver"
    and com :: "'w \<Rightarrow> 'u database"
    and st :: "'tx \<Rightarrow> 'u txn"
    and live :: "'tx \<Rightarrow> 'w \<Rightarrow> bool"
  assumes begin_ok: "drv_begin d qo w = (Inr tx, w') \<Longrightarrow>
      live tx w' \<and> com w' = com w \<and> txn_db (st tx) = com w \<and> txn_savepoints (st tx) = []"
    and begin_script: "drv_begin d (Some (Set_vars as)) w = (Inr tx, w') \<Longrightarrow>
      \<exists>v0. assign as v0 = Some (txn_vars (st tx))"
    and begin_err: "drv_begin d qo w = (Inl e, w') \<Longrightarrow> com w' = com w"
    and commit_ok: "drv_commit d tx w = (Inr (), w') \<Longrightarrow>
      com w' = (if live tx w then txn_db (st tx) else com w)"
    and commit_err: "drv_commit d tx w = (Inl e, w') \<Longrightarrow>
      com w' = com w \<or> live tx w \<and> com w' = txn_db (st tx)"
    and rollback_keeps: "drv_rollback d tx w = (res, w') \<Longrightarrow> com w' = com w"
    and drop_keeps: "com (drv_drop d tx w) = com w"
    and exec_ok: "live tx w \<or> q = Rollback_to n \<Longrightarrow> drv_exec d q tx w = (Inr r, tx', w') \<Longrightarrow>
      live tx' w' \<and> com w' = com w \<and> (\<exists>now. sql_post (drv_cutoff d) now q (st tx) r (st tx'))"
    and exec_err: "live tx w \<or> q = Rollback_to n \<Longrightarrow> drv_exec d q tx w = (Inl e, tx', w') \<Longrightarrow>
      com w' = com w \<and> (txn_savepoints (st tx') = txn_savepoints (st tx) \<or> txn_savepoints (st tx') = [])"
    and pool_ok: "drv_pool d q w = (Inr r, w') \<Longrightarrow>
      \<exists>now v s'. sql_post (drv_cutoff d) now q (start_txn v (com w)) r s' \<and> com w' = txn_db s'"
    and pool_err: "drv_pool d q w = (Inl e, w') \<Longrightarrow> com w' = com w \<or>
      (\<exists>now v r s'. sql_post (drv_cutoff d) now q (start_txn v (com w)) r s' \<and> com w' = txn_db s')"
    and utc_now_keeps: "drv_utc_now d w = (t, w') \<Longrightarrow> com w' = com w \<and> (live tx w \<longrightarrow> live tx w')"
    and finite_table: "finite (dom (inbox_messages (com w)))"
begin

abbreviation committed :: "'w \<Rightarrow> 'u inbox_state" where
  "committed w \<equiv> abs_db (com w)"

abbreviation view :: "'tx \<Rightarrow> 'u inbox_state" where
  "view tx \<equiv> abs_db (txn_db (st tx))"

lemma sql_begin_laws:
  "sql_begin d q w = (Inr tx, w') \<Longrightarrow> live tx w' \<and> view tx = committed w \<and> committed w' = committed w"
  "sql_begin d q w = (Inl e, w') \<Longrightarrow> committed w' = committed w"
  using begin_ok [of q w tx w'] begin_err [of q w _ w']
  by (auto simp: sql_begin_def map_err_Inl_iff split: prod.splits)

lemma sql_commit_laws:
  "sql_commit d tx w = (Inr (), w') \<Longrightarrow> committed w' = (if live tx w then view tx else committed w)"
  "sql_commit d tx w = (Inl e, w') \<Longrightarrow> committed w' = committed w \<or> live tx w \<and> committed w' = view tx"
  using commit_ok [of tx w w'] commit_err [of tx w _ w']
  by (auto simp: sql_commit_def map_err_Inl_iff split: prod.splits)

lemma sql_rollback_laws:
  "sql_rollback d tx w = (res, w') \<Longrightarrow> committed w' = committed w"
  "committed (drv_drop d tx w) = committed w"
  using rollback_keeps [of tx w _ w'] drop_keeps
  by (auto simp: sql_rollback_def split: prod.splits)

lemma sql_execute_ok:
  assumes "live tx w \<or> q = Rollback_to n" and "sql_execute d q tx w = (Inr u, tx', w')"
  shows "live tx' w' \<and> com w' = com w \<and> (\<exists>now r. sql_post (drv_cutoff d) now q (st tx) r (st tx'))"
  using assms exec_ok [of tx w q n]
  by (fastforce simp: sql_execute_def split: prod.splits sum.splits)

lemma sql_execute_err:
  assumes "live tx w \<or> q = Rollback_to n" and "sql_execute d q tx w = (Inl e, tx', w')"
  shows "com w' = com w"
  using assms exec_err [of tx w q n]
  by (fastforce simp: sql_execute_def split: prod.splits sum.splits)

text \<open>The savepoint methods and \<open>unclaim\<close>, which every backend writes the same way.\<close>

lemma savepoint_laws:
  assumes "live tx w" and "sql_execute d SAVEPOINT_SQL tx w = (Inr u, tx', w')"
  shows "view tx' = view tx \<and> saved_of (st tx') = Some (view tx) \<and> live tx' w' \<and> committed w' = committed w"
  using assms sql_execute_ok [of tx w SAVEPOINT_SQL _ u tx' w']
  by (auto simp: SAVEPOINT_SQL_def saved_of_def)

lemma release_and_savepoint_laws:
  assumes "live tx w" and "sql_execute d RELEASE_AND_SAVEPOINT_SQL tx w = (Inr u, tx', w')"
  shows "view tx' = view tx \<and> saved_of (st tx') = Some (view tx) \<and> live tx' w' \<and> committed w' = committed w"
  using assms sql_execute_ok [of tx w RELEASE_AND_SAVEPOINT_SQL _ u tx' w']
  by (auto simp: RELEASE_AND_SAVEPOINT_SQL_def saved_of_def split: option.splits)

lemma release_laws:
  assumes "live tx w" and "sql_execute d RELEASE_SQL tx w = (Inr u, tx', w')"
  shows "view tx' = view tx \<and> live tx' w' \<and> committed w' = committed w"
  using assms sql_execute_ok [of tx w RELEASE_SQL _ u tx' w']
  by (auto simp: RELEASE_SQL_def split: option.splits)

lemma rollback_to_laws:
  assumes "sql_execute d ROLLBACK_TO_SQL tx w = (Inr u, tx', w')"
  shows "saved_of (st tx) = Some (view tx') \<and> saved_of (st tx') = saved_of (st tx) \<and> live tx' w' \<and>
    committed w' = committed w"
  using assms sql_execute_ok [of tx w ROLLBACK_TO_SQL savepoint_name u tx' w']
  by (auto simp: ROLLBACK_TO_SQL_def saved_of_def split: option.splits)

lemma unclaim_laws:
  assumes "live tx w"
    and "sql_execute d (Delete_row (consumer_str c) (message_str m)) tx w = (Inr u, tx', w')"
  shows "view tx' = forget_key (key_of c m) (view tx) \<and> saved_of (st tx') = saved_of (st tx) \<and>
    live tx' w' \<and> committed w' = committed w"
  using assms sql_execute_ok [of tx w "Delete_row (consumer_str c) (message_str m)" _ u tx' w']
  by (auto simp: abs_delete_row saved_of_def key_of_def)

lemma sql_execute_keeps:
  "live tx w \<Longrightarrow> sql_execute d q tx w = (Inl e, tx', w') \<Longrightarrow> committed w' = committed w"
  "sql_execute d ROLLBACK_TO_SQL tx w = (Inl e, tx', w') \<Longrightarrow> committed w' = committed w"
  using sql_execute_err [of tx w q] sql_execute_err [of tx w ROLLBACK_TO_SQL savepoint_name]
  by (auto simp: ROLLBACK_TO_SQL_def)

lemma pool_select_exists:
  assumes "drv_pool d (Select_exists c m) w = (r, w')"
  shows "com w' = com w" and "r = Inr x \<Longrightarrow> flag x = ((c, m) \<in> dom (inbox_messages (com w)))"
proof -
  show "com w' = com w"
    using assms pool_ok [of "Select_exists c m" w _ w'] pool_err [of "Select_exists c m" w _ w']
    by (cases r) fastforce+
  show "r = Inr x \<Longrightarrow> flag x = ((c, m) \<in> dom (inbox_messages (com w)))"
    using assms pool_ok [of "Select_exists c m" w x w'] by auto
qed

text \<open>\<open>is_known_duplicate\<close>, which every backend writes the same way.\<close>

lemma pool_known_duplicate:
  assumes "(case drv_pool d (Select_exists (consumer_str c) (message_str m)) w of
      (Inl e, w1) \<Rightarrow> (Inl (inbox_error_from_sqlx e), w1) | (Inr y, w1) \<Rightarrow> (Inr (flag y), w1)) = (r, w')"
  shows "committed w' = committed w \<and> (\<forall>b. r = Inr b \<longrightarrow> b = (key_of c m \<in> seen (committed w)))"
proof -
  obtain x w1 where x: "drv_pool d (Select_exists (consumer_str c) (message_str m)) w = (x, w1)"
    by (metis prod.collapse)
  note found = pool_select_exists [OF x]
  show ?thesis
  proof (cases x)
    case (Inl e)
    with assms x found(1) show ?thesis by auto
  next
    case (Inr y)
    with assms x have "r = Inr (flag y)" "w' = w1" by simp_all
    then show ?thesis using found(1) found(2) [OF Inr] by (simp add: key_of_def)
  qed
qed

lemma pool_delete_oldest:
  assumes "drv_pool d (Delete_oldest co n) w = (r, w')"
  shows "rest (com w') = rest (com w)"
    and "purged_rows (drv_cutoff d) co (inbox_messages (com w)) (inbox_messages (com w'))"
    and "r = Inr x \<Longrightarrow> \<exists>now K. oldest (drv_cutoff d now co) n (inbox_messages (com w)) K \<and>
      inbox_messages (com w') = inbox_messages (com w) |` (- K) \<and> unat (rows_affected x) = card K"
proof -
  note fin = finite_table [of w]
  have step: "rest (com w') = rest (com w) \<and>
      purged_rows (drv_cutoff d) co (inbox_messages (com w)) (inbox_messages (com w'))"
    if "sql_post (drv_cutoff d) now (Delete_oldest co n) (start_txn v (com w)) y s'" "com w' = txn_db s'"
    for now v y s'
    using that delete_oldest_step(1) [OF fin] by auto
  have "rest (com w') = rest (com w) \<and>
      purged_rows (drv_cutoff d) co (inbox_messages (com w)) (inbox_messages (com w'))"
  proof (cases r)
    case (Inl e)
    with assms have "com w' = com w \<or> (\<exists>now v y s'. com w' = txn_db s' \<and>
        sql_post (drv_cutoff d) now (Delete_oldest co n) (start_txn v (com w)) y s')"
      using pool_err [of "Delete_oldest co n" w e w'] by blast
    then show ?thesis using step by (metis purged_rows_refl)
  next
    case (Inr y)
    with assms pool_ok [of "Delete_oldest co n" w y w'] step show ?thesis by blast
  qed
  then show "rest (com w') = rest (com w)"
    and "purged_rows (drv_cutoff d) co (inbox_messages (com w)) (inbox_messages (com w'))" by blast+
  show "r = Inr x \<Longrightarrow> \<exists>now K. oldest (drv_cutoff d now co) n (inbox_messages (com w)) K \<and>
      inbox_messages (com w') = inbox_messages (com w) |` (- K) \<and> unat (rows_affected x) = card K"
  proof -
    assume "r = Inr x"
    then obtain now v s' K where "oldest (drv_cutoff d now co) n (inbox_messages (com w)) K"
      "s' = on_table (\<lambda>t. t |` (- K)) (start_txn v (com w))" "com w' = txn_db s'"
      "unat (rows_affected x) = card K"
      using assms pool_ok [of "Delete_oldest co n" w x w'] by auto
    then show ?thesis by (intro exI [of _ now] exI [of _ K]) simp
  qed
qed

text \<open>One round of the loop that reports a count: the count is the number of rows removed, and a round
  that is not full leaves no row older than the cutoff of its statement.\<close>

lemma pool_delete_round:
  fixes batch :: u32
  assumes "drv_pool d (Delete_oldest co (unat batch)) w = (Inr y, w1)"
  obtains K now where "K \<subseteq> dom (inbox_messages (com w))" "finite K"
    "dom (inbox_messages (com w1)) = dom (inbox_messages (com w)) - K"
    "rows_affected y = of_nat (card K)" "rows_affected y < ucast batch \<longleftrightarrow> card K < unat batch"
    "card K < unat batch \<longrightarrow> old_keys (drv_cutoff d now co) (inbox_messages (com w1)) = {}"
proof -
  obtain now K where K: "oldest (drv_cutoff d now co) (unat batch) (inbox_messages (com w)) K"
    and t1: "inbox_messages (com w1) = inbox_messages (com w) |` (- K)" and n: "unat (rows_affected y) = card K"
    using pool_delete_oldest(3) [OF assms refl] by blast
  note del = delete_oldest_step [where csub = "drv_cutoff d" and now = now and co = co, OF finite_table K]
  show ?thesis
  proof (rule that [of K now])
    show "rows_affected y = of_nat (card K)" by (simp flip: n)
    show "rows_affected y < ucast batch \<longleftrightarrow> card K < unat batch"
      using n by (simp add: word_less_nat_alt unat_ucast_widen)
  qed (use del t1 in auto)
qed

text \<open>The loop ends: a full batch removes at least one row of a finite table. When it reports a
  count, the count is the number of rows removed, and no row older than the cutoff of the last
  statement is left.\<close>

lemma purge_loop_total:
  assumes "0 < batch"
  shows "\<exists>r w'. purge_loop d (Delete_oldest co (unat batch)) batch acc w = Some (r, w') \<and>
    rest (com w') = rest (com w) \<and>
    purged_rows (drv_cutoff d) co (inbox_messages (com w)) (inbox_messages (com w')) \<and>
    (\<forall>n. r = Inr n \<longrightarrow>
       n = acc + of_nat (card (dom (inbox_messages (com w)) - dom (inbox_messages (com w')))) \<and>
       (\<exists>now. old_keys (drv_cutoff d now co) (inbox_messages (com w')) = {}))"
proof (induction "card (dom (inbox_messages (com w)))" arbitrary: w acc rule: less_induct)
  case less
  let ?q = "Delete_oldest co (unat batch)" and ?T = "\<lambda>w. inbox_messages (com w)"
  obtain x w1 where x: "drv_pool d ?q w = (x, w1)" by (metis prod.collapse)
  note step = pool_delete_oldest [OF x]
  show ?case
  proof (cases x)
    case (Inl e)
    with x step show ?thesis by (simp add: purge_loop.simps [of d ?q batch acc w])
  next
    case (Inr y)
    obtain K now where K: "K \<subseteq> dom (?T w)" "finite K" and dom: "dom (?T w1) = dom (?T w) - K"
      and y: "rows_affected y = of_nat (card K)" "rows_affected y < ucast batch \<longleftrightarrow> card K < unat batch"
      and none: "card K < unat batch \<longrightarrow> old_keys (drv_cutoff d now co) (?T w1) = {}"
      by (rule pool_delete_round [OF x [unfolded Inr]])
    have removed: "dom (?T w) - dom (?T w1) = K" using K(1) dom by auto
    show ?thesis
    proof (cases "card K < unat batch")
      case True
      with x Inr step y removed none show ?thesis by (auto simp: purge_loop.simps [of d ?q batch acc w])
    next
      case False
      then have "0 < card K" using assms by (simp add: word_less_nat_alt)
      then have "card (dom (?T w1)) < card (dom (?T w))"
        using K card_mono [OF finite_table K(1)] by (simp add: dom card_Diff_subset)
      from less [OF this, of "acc + rows_affected y"] obtain r w' where
        loop: "purge_loop d ?q batch (acc + rows_affected y) w1 = Some (r, w')"
        and w': "rest (com w') = rest (com w1)" "purged_rows (drv_cutoff d) co (?T w1) (?T w')"
        and r: "\<forall>m. r = Inr m \<longrightarrow>
          m = acc + rows_affected y + of_nat (card (dom (?T w1) - dom (?T w'))) \<and>
          (\<exists>now. old_keys (drv_cutoff d now co) (?T w') = {})"
        by blast
      have "dom (?T w) - dom (?T w') = K \<union> (dom (?T w1) - dom (?T w'))"
        using removed purged_rows_dom [OF w'(2)] purged_rows_dom [OF step(2)] by blast
      moreover have "card (K \<union> (dom (?T w1) - dom (?T w'))) = card K + card (dom (?T w1) - dom (?T w'))"
        using K(2) finite_table by (intro card_Un_disjoint) (auto simp: dom)
      ultimately show ?thesis using loop x Inr y False w' r step
        by (auto simp: purge_loop.simps [of d ?q batch acc w] add.assoc intro: purged_rows_trans)
    qed
  qed
qed

text \<open>Whatever the batch size: if the loop returns, it removed old rows only.\<close>

lemma purge_loop_safe:
  assumes "purge_loop d (Delete_oldest co n) batch acc w = Some rw"
  shows "rest (com (snd rw)) = rest (com w) \<and>
    purged_rows (drv_cutoff d) co (inbox_messages (com w)) (inbox_messages (com (snd rw)))"
  by (rule purge_loop_trans [OF _ _ assms])
    (use pool_delete_oldest(1,2) purged_rows_trans in \<open>fastforce\<close>)+

subsection \<open>Claims through the driver\<close>

lemma exec_insert_row:
  assumes "live tx w" and "oc \<noteq> Update_same"
    and "drv_exec d (Insert_row (consumer_str c) (message_str m) t oc) tx w = (Inr r, tx', w')"
  shows "claim_of_affected (rows_affected r) = (if key_of c m \<in> seen (view tx) then Duplicate else Fresh)"
    and "view tx' = record_keys {key_of c m} (view tx)"
    and "live tx' w'" and "committed w' = committed w" and "txn_vars (st tx') = txn_vars (st tx)"
  using exec_ok [OF disjI1 [OF assms(1)] assms(3)] assms(2)
  by (auto simp: claim_of_affected_def key_of_def abs_insert_row domIff)

lemma exec_insert_rows:
  assumes "live tx w"
    and "drv_exec d (Insert_rows (consumer_str c) (map message_str ms) t tok ord oc True) tx w = (Inr r, tx', w')"
  shows "claims_from_fresh (map message_str ms) (texts r) =
      map (\<lambda>m. if key_of c m \<in> seen (view tx) then Duplicate else Fresh) ms"
    and "view tx' = record_keys (key_of c ` set ms) (view tx)"
    and "live tx' w'" and "committed w' = committed w"
proof -
  obtain now where ok: "live tx' w'" "com w' = com w"
    "sql_post (drv_cutoff d) now (Insert_rows (consumer_str c) (map message_str ms) t tok ord oc True) (st tx) r (st tx')"
    using exec_ok [OF disjI1 [OF assms(1)] assms(2)] by blast
  have "set (texts r) = {m \<in> set (map message_str ms). (consumer_str c, m) \<notin> seen (view tx)}"
    using ok(3) by (auto simp: domIff)
  from claims_from_fresh_eq [OF this]
  show "claims_from_fresh (map message_str ms) (texts r) =
      map (\<lambda>m. if key_of c m \<in> seen (view tx) then Duplicate else Fresh) ms"
    by (simp add: key_of_def)
  show "view tx' = record_keys (key_of c ` set ms) (view tx)"
    using ok(3) by (simp add: abs_insert_rows key_of_image)
  from ok show "live tx' w'" "committed w' = committed w" by simp_all
qed

lemma exec_keeps:
  assumes "live tx w" and "drv_exec d q tx w = (Inl e, tx', w')"
  shows "committed w' = committed w"
  using exec_err [OF disjI1 [OF assms(1)] assms(2)] by simp

text \<open>A backend whose transactions, savepoints and \<open>unclaim\<close> are the shared ones keeps the whole
  contract as soon as its claims, its look-up and its purge do.\<close>

lemma savepoints_contractI:
  assumes tx_ops: "op_begin S = sql_begin d q" "op_commit S = sql_commit d"
      "op_rollback S = sql_rollback d" "op_drop S = drv_drop d"
    and sp_ops: "op_savepoint S = sql_execute d SAVEPOINT_SQL"
      "op_release_and_savepoint S = sql_execute d RELEASE_AND_SAVEPOINT_SQL"
      "op_release S = sql_execute d RELEASE_SQL" "op_rollback_to S = sql_execute d ROLLBACK_TO_SQL"
      "op_unclaim S = (\<lambda>c m. sql_execute d (Delete_row (consumer_str c) (message_str m)))"
    and claim: "\<And>r tx w c tx' w'. live tx w \<Longrightarrow> op_claim S r tx w = (Inr c, tx', w') \<Longrightarrow>
      c = (if req_key r \<in> seen (view tx) then Duplicate else Fresh) \<and>
      view tx' = record_keys {req_key r} (view tx) \<and> live tx' w' \<and> committed w' = committed w"
      "\<And>r tx w e tx' w'. live tx w \<Longrightarrow> op_claim S r tx w = (Inl e, tx', w') \<Longrightarrow> committed w' = committed w"
    and claim_many: "\<And>b tx w cs tx' w'. live tx w \<Longrightarrow> distinct (batch_ids b) \<Longrightarrow> sorted (batch_ids b) \<Longrightarrow>
      op_claim_many S b tx w = (Inr cs, tx', w') \<Longrightarrow>
      cs = map (\<lambda>m. if key_of (batch_consumer b) m \<in> seen (view tx) then Duplicate else Fresh) (batch_ids b) \<and>
      view tx' = record_keys (key_of (batch_consumer b) ` set (batch_ids b)) (view tx) \<and>
      live tx' w' \<and> committed w' = committed w"
      "\<And>b tx w e tx' w'. live tx w \<Longrightarrow> op_claim_many S b tx w = (Inl e, tx', w') \<Longrightarrow> committed w' = committed w"
    and known: "\<And>c m w r w'. op_is_known_duplicate S c m w = (r, w') \<Longrightarrow>
      committed w' = committed w \<and> (r = Inr True \<longrightarrow> key_of c m \<in> seen (committed w))"
    and purge: "\<And>p w r w'. op_purge S p w = Some (r, w') \<Longrightarrow>
      seen (committed w') \<subseteq> seen (committed w) \<and> app (committed w') = app (committed w)"
  shows "savepoints_contract S (\<lambda>w. abs_db (com w)) (\<lambda>tx. abs_db (txn_db (st tx))) live (\<lambda>tx. saved_of (st tx))"
proof (unfold_locales, unfold tx_ops sp_ops, goal_cases)
  case (7 tx w r tx' w')
  from claim(1) [OF this] show ?case by (auto split: if_splits)
next
  case (8 tx w r tx' w')
  from claim(1) [OF this] show ?case by (auto simp: record_keys_absorb split: if_splits)
qed (rule sql_begin_laws sql_commit_laws sql_rollback_laws claim(2) claim_many known purge
    savepoint_laws release_and_savepoint_laws release_laws rollback_to_laws unclaim_laws
    sql_execute_keeps; assumption)+

end

end
