(* ===== verification/Postgres.thy ===== *)
theory Postgres
  imports Sql
begin

text \<open>
  \<open>PgInbox\<close> of \<^verbatim>\<open>src/src/postgres.rs\<close>: its statements, the lock timeout setting, the
  classification of claim errors, and its methods as a store over the driver. Every driver that
  keeps the \<open>sql_driver\<close> contract makes it a store that keeps the whole
  \<open>savepoints_contract\<close>.
\<close>

definition pg_LOCK_NOT_AVAILABLE :: str where
  "pg_LOCK_NOT_AVAILABLE = lit ''55P03''"

definition pg_DEADLOCK_DETECTED :: str where
  "pg_DEADLOCK_DETECTED = lit ''40P01''"

fun pg_claim_error :: "sqlx_error \<Rightarrow> inbox_error" where
  "pg_claim_error (Database (Some code) n) =
     (if code = pg_LOCK_NOT_AVAILABLE \<or> code = pg_DEADLOCK_DETECTED then Contended
      else inbox_error_from_sqlx (Database (Some code) n))"
| "pg_claim_error e = inbox_error_from_sqlx e"

definition pg_UNCLAIM_SQL :: "str \<Rightarrow> str \<Rightarrow> stmt" where
  "pg_UNCLAIM_SQL consumer ident = Delete_row consumer ident"

definition pg_CLAIM_SQL :: "str \<Rightarrow> str \<Rightarrow> stmt" where
  "pg_CLAIM_SQL consumer ident = Insert_row consumer ident Server_now Do_nothing"

definition pg_CLAIM_MANY_SQL :: "str \<Rightarrow> str list \<Rightarrow> stmt" where
  "pg_CLAIM_MANY_SQL consumer ids = Insert_rows consumer ids Server_now None True Do_nothing True"

definition pg_PURGE_SQL :: "duration \<Rightarrow> nat \<Rightarrow> stmt" where
  "pg_PURGE_SQL age batch = Delete_oldest (Now_minus_secs age) batch"

definition pg_SET_LOCK_TIMEOUT_SQL :: "str \<Rightarrow> stmt" where
  "pg_SET_LOCK_TIMEOUT_SQL v = Set_local_lock_timeout v"

definition pg_KNOWN_DUPLICATE_SQL :: "str \<Rightarrow> str \<Rightarrow> stmt" where
  "pg_KNOWN_DUPLICATE_SQL consumer ident = Select_exists consumer ident"

text \<open>Whole milliseconds, rounded up, at least one.\<close>

definition pg_lock_timeout_ms :: "duration \<Rightarrow> u128" where
  "pg_lock_timeout_ms timeout = max (div_ceil (as_nanos timeout) 1000000) 1"

definition pg_lock_timeout :: "duration \<Rightarrow> str" where
  "pg_lock_timeout timeout = show_nat (unat (pg_lock_timeout_ms timeout)) @ lit ''ms''"

definition pg_set_lock_timeout ::
  "('tx, 'w) driver \<Rightarrow> duration option \<Rightarrow> 'tx \<Rightarrow> 'w \<Rightarrow> (sqlx_error + unit) \<times> 'tx \<times> 'w" where
  "pg_set_lock_timeout d timeout tx w =
     (case timeout of
        None \<Rightarrow> (Inr (), tx, w)
      | Some t \<Rightarrow>
         (case drv_exec d (pg_SET_LOCK_TIMEOUT_SQL (pg_lock_timeout t)) tx w of
            (Inl e, tx', w') \<Rightarrow> (Inl e, tx', w')
          | (Inr _, tx', w') \<Rightarrow> (Inr (), tx', w')))"

definition pg_claim ::
  "('tx, 'w) driver \<Rightarrow> claim_request \<Rightarrow> 'tx \<Rightarrow> 'w \<Rightarrow> (inbox_error + claim) \<times> 'tx \<times> 'w" where
  "pg_claim d request tx w =
     (case pg_set_lock_timeout d (req_lock_timeout request) tx w of
        (Inl e, tx1, w1) \<Rightarrow> (Inl (inbox_error_from_sqlx e), tx1, w1)
      | (Inr _, tx1, w1) \<Rightarrow>
         (case drv_exec d (pg_CLAIM_SQL (consumer_str (req_consumer request)) (message_str (req_id request))) tx1 w1 of
            (Inl e, tx2, w2) \<Rightarrow> (Inl (pg_claim_error e), tx2, w2)
          | (Inr r, tx2, w2) \<Rightarrow> (Inr (claim_of_affected (rows_affected r)), tx2, w2)))"

definition pg_claim_many ::
  "('tx, 'w) driver \<Rightarrow> claim_batch \<Rightarrow> 'tx \<Rightarrow> 'w \<Rightarrow> (inbox_error + claim list) \<times> 'tx \<times> 'w" where
  "pg_claim_many d batch tx w =
     (case pg_set_lock_timeout d (batch_lock_timeout batch) tx w of
        (Inl e, tx1, w1) \<Rightarrow> (Inl (inbox_error_from_sqlx e), tx1, w1)
      | (Inr _, tx1, w1) \<Rightarrow>
         (let ids = map message_str (batch_ids batch)
          in case drv_exec d (pg_CLAIM_MANY_SQL (consumer_str (batch_consumer batch)) ids) tx1 w1 of
            (Inl e, tx2, w2) \<Rightarrow> (Inl (pg_claim_error e), tx2, w2)
          | (Inr fresh, tx2, w2) \<Rightarrow> (Inr (claims_from_fresh ids (texts fresh)), tx2, w2)))"

definition pg_is_known_duplicate ::
  "('tx, 'w) driver \<Rightarrow> consumer_id \<Rightarrow> message_id \<Rightarrow> 'w \<Rightarrow> (inbox_error + bool) \<times> 'w" where
  "pg_is_known_duplicate d consumer ident w =
     (case drv_pool d (pg_KNOWN_DUPLICATE_SQL (consumer_str consumer) (message_str ident)) w of
        (Inl e, w') \<Rightarrow> (Inl (inbox_error_from_sqlx e), w')
      | (Inr r, w') \<Rightarrow> (Inr (flag r), w'))"

definition pg_purge ::
  "('tx, 'w) driver \<Rightarrow> retention_policy \<Rightarrow> 'w \<Rightarrow> ((inbox_error + u64) \<times> 'w) option" where
  "pg_purge d policy w =
     purge_loop d (pg_PURGE_SQL (max_age policy) (unat (batch_size policy))) (batch_size policy) 0 w"

definition pg_unclaim ::
  "('tx, 'w) driver \<Rightarrow> consumer_id \<Rightarrow> message_id \<Rightarrow> 'tx \<Rightarrow> 'w \<Rightarrow> (inbox_error + unit) \<times> 'tx \<times> 'w" where
  "pg_unclaim d consumer ident =
     sql_execute d (pg_UNCLAIM_SQL (consumer_str consumer) (message_str ident))"

text \<open>\<open>impl InboxStore for PgInbox\<close> and \<open>impl Savepoints for PgInbox\<close>.\<close>

definition pg_store :: "('tx, 'w) driver \<Rightarrow> ('tx, 'w) savepoint_ops" where
  "pg_store d =
     \<lparr>op_begin = sql_begin d None, op_commit = sql_commit d, op_rollback = sql_rollback d,
      op_drop = drv_drop d, op_claim = pg_claim d, op_claim_many = pg_claim_many d,
      op_is_known_duplicate = pg_is_known_duplicate d, op_purge = pg_purge d,
      op_savepoint = sql_execute d SAVEPOINT_SQL,
      op_release_and_savepoint = sql_execute d RELEASE_AND_SAVEPOINT_SQL,
      op_release = sql_execute d RELEASE_SQL, op_rollback_to = sql_execute d ROLLBACK_TO_SQL,
      op_unclaim = pg_unclaim d\<rparr>"

lemma pg_store_simps [simp]:
  "op_begin (pg_store d) = sql_begin d None" "op_commit (pg_store d) = sql_commit d"
  "op_rollback (pg_store d) = sql_rollback d" "op_drop (pg_store d) = drv_drop d"
  "op_claim (pg_store d) = pg_claim d" "op_claim_many (pg_store d) = pg_claim_many d"
  "op_is_known_duplicate (pg_store d) = pg_is_known_duplicate d" "op_purge (pg_store d) = pg_purge d"
  "op_savepoint (pg_store d) = sql_execute d SAVEPOINT_SQL"
  "op_release_and_savepoint (pg_store d) = sql_execute d RELEASE_AND_SAVEPOINT_SQL"
  "op_release (pg_store d) = sql_execute d RELEASE_SQL"
  "op_rollback_to (pg_store d) = sql_execute d ROLLBACK_TO_SQL" "op_unclaim (pg_store d) = pg_unclaim d"
  by (simp_all add: pg_store_def)

lemmas pg_sql_defs [sql_defs] = pg_UNCLAIM_SQL_def pg_CLAIM_SQL_def pg_CLAIM_MANY_SQL_def pg_PURGE_SQL_def
  pg_SET_LOCK_TIMEOUT_SQL_def pg_KNOWN_DUPLICATE_SQL_def

subsection \<open>The backend keeps the contract\<close>

context sql_driver
begin

lemma pg_set_lock_timeout_ok:
  assumes "live tx w" and "pg_set_lock_timeout d timeout tx w = (Inr u, tx', w')"
  shows "live tx' w'" and "view tx' = view tx" and "committed w' = committed w"
proof -
  have "live tx' w' \<and> view tx' = view tx \<and> committed w' = committed w"
  proof (cases timeout)
    case (Some t)
    with assms(2) obtain r where
      "drv_exec d (pg_SET_LOCK_TIMEOUT_SQL (pg_lock_timeout t)) tx w = (Inr r, tx', w')"
      by (auto simp: pg_set_lock_timeout_def split: prod.splits sum.splits)
    from exec_ok [OF disjI1 [OF assms(1)] this] show ?thesis by (auto simp: pg_sql_defs)
  qed (use assms in \<open>simp add: pg_set_lock_timeout_def\<close>)
  then show "live tx' w'" "view tx' = view tx" "committed w' = committed w" by blast+
qed

lemma pg_set_lock_timeout_err:
  assumes "live tx w" and "pg_set_lock_timeout d timeout tx w = (Inl e, tx', w')"
  shows "committed w' = committed w"
  using assms exec_keeps [OF assms(1)]
  by (auto simp: pg_set_lock_timeout_def split: option.splits prod.splits sum.splits)

lemma pg_claim_ok:
  assumes "live tx w" and "pg_claim d r tx w = (Inr c, tx', w')"
  shows "c = (if req_key r \<in> seen (view tx) then Duplicate else Fresh) \<and>
    view tx' = record_keys {req_key r} (view tx) \<and> live tx' w' \<and> committed w' = committed w"
proof -
  obtain u tx1 w1 x where set: "pg_set_lock_timeout d (req_lock_timeout r) tx w = (Inr u, tx1, w1)"
    and ins: "drv_exec d (Insert_row (consumer_str (req_consumer r)) (message_str (req_id r)) Server_now Do_nothing)
      tx1 w1 = (Inr x, tx', w')"
    and c: "c = claim_of_affected (rows_affected x)"
    using assms(2) by (auto simp: pg_claim_def pg_sql_defs split: prod.splits sum.splits)
  note pre = pg_set_lock_timeout_ok [OF assms(1) set]
  show ?thesis using exec_insert_row [OF pre(1) _ ins] pre c by simp
qed

lemma pg_claim_err:
  assumes "live tx w" and "pg_claim d r tx w = (Inl e, tx', w')"
  shows "committed w' = committed w"
proof -
  obtain x tx1 w1 where set: "pg_set_lock_timeout d (req_lock_timeout r) tx w = (x, tx1, w1)"
    by (metis prod.collapse)
  show ?thesis
  proof (cases x)
    case (Inl e1)
    with set assms(2) pg_set_lock_timeout_err [OF assms(1)] show ?thesis by (simp add: pg_claim_def)
  next
    case (Inr u)
    note pre = pg_set_lock_timeout_ok [OF assms(1) set [unfolded Inr]]
    have "\<exists>e2. drv_exec d (pg_CLAIM_SQL (consumer_str (req_consumer r)) (message_str (req_id r))) tx1 w1 = (Inl e2, tx', w')"
      using assms(2) set Inr by (auto simp: pg_claim_def Let_def split: prod.splits sum.splits)
    then show ?thesis using exec_keeps [OF pre(1)] pre(3) by auto
  qed
qed

lemma pg_claim_many_ok:
  assumes "live tx w" and "pg_claim_many d b tx w = (Inr cs, tx', w')"
  shows "cs = map (\<lambda>m. if key_of (batch_consumer b) m \<in> seen (view tx) then Duplicate else Fresh) (batch_ids b) \<and>
    view tx' = record_keys (key_of (batch_consumer b) ` set (batch_ids b)) (view tx) \<and>
    live tx' w' \<and> committed w' = committed w"
proof -
  let ?ids = "map message_str (batch_ids b)"
  obtain u tx1 w1 x where set: "pg_set_lock_timeout d (batch_lock_timeout b) tx w = (Inr u, tx1, w1)"
    and ins: "drv_exec d (Insert_rows (consumer_str (batch_consumer b)) ?ids Server_now None True Do_nothing True)
      tx1 w1 = (Inr x, tx', w')"
    and cs: "cs = claims_from_fresh ?ids (texts x)"
    using assms(2) by (auto simp: pg_claim_many_def pg_sql_defs Let_def split: prod.splits sum.splits)
  note pre = pg_set_lock_timeout_ok [OF assms(1) set]
  show ?thesis using exec_insert_rows [OF pre(1) ins] pre cs by simp
qed

lemma pg_claim_many_err:
  assumes "live tx w" and "pg_claim_many d r tx w = (Inl e, tx', w')"
  shows "committed w' = committed w"
proof -
  obtain x tx1 w1 where set: "pg_set_lock_timeout d (batch_lock_timeout r) tx w = (x, tx1, w1)"
    by (metis prod.collapse)
  show ?thesis
  proof (cases x)
    case (Inl e1)
    with set assms(2) pg_set_lock_timeout_err [OF assms(1)] show ?thesis by (simp add: pg_claim_many_def)
  next
    case (Inr u)
    note pre = pg_set_lock_timeout_ok [OF assms(1) set [unfolded Inr]]
    have "\<exists>e2. drv_exec d (pg_CLAIM_MANY_SQL (consumer_str (batch_consumer r)) (map message_str (batch_ids r))) tx1 w1 = (Inl e2, tx', w')"
      using assms(2) set Inr by (auto simp: pg_claim_many_def Let_def split: prod.splits sum.splits)
    then show ?thesis using exec_keeps [OF pre(1)] pre(3) by auto
  qed
qed

lemma pg_purge_removes:
  assumes "pg_purge d p w = Some (r, w')"
  shows "seen (committed w') \<subseteq> seen (committed w) \<and> app (committed w') = app (committed w)"
  using purge_loop_safe [OF assms [unfolded pg_purge_def pg_sql_defs]] by (auto dest: purged_rows_dom)

lemma pg_known_duplicate_law:
  assumes "pg_is_known_duplicate d c m w = (r, w')"
  shows "committed w' = committed w \<and> (r = Inr True \<longrightarrow> key_of c m \<in> seen (committed w))"
  using pool_known_duplicate [OF assms [unfolded pg_is_known_duplicate_def pg_sql_defs]] by blast

lemma pg_keeps_contract:
  "savepoints_contract (pg_store d) (\<lambda>w. abs_db (com w)) (\<lambda>tx. abs_db (txn_db (st tx))) live
     (\<lambda>tx. saved_of (st tx))"
proof (rule savepoints_contractI [where q = None], unfold pg_store_simps)
  show "pg_unclaim d = (\<lambda>c m. sql_execute d (Delete_row (consumer_str c) (message_str m)))"
    by (simp add: fun_eq_iff pg_unclaim_def pg_sql_defs)
qed (rule refl | rule pg_claim_ok pg_claim_err pg_claim_many_ok pg_claim_many_err
    pg_known_duplicate_law pg_purge_removes; assumption)+

end

sublocale sql_driver \<subseteq> pg: savepoints_contract "pg_store d" "\<lambda>w. abs_db (com w)"
  "\<lambda>tx. abs_db (txn_db (st tx))" live "\<lambda>tx. saved_of (st tx)"
  by (rule pg_keeps_contract)

end
