(* ===== verification/Mysql.thy ===== *)
theory Mysql
  imports Sql
begin

text \<open>
  \<open>MySqlInbox\<close> of \<^verbatim>\<open>src/src/mysql.rs\<close>. It differs from the other backends in two ways. The lock
  timeout is a session variable that outlives the transaction, so a claim lends it: it saves the
  session's own value in a user variable, sets its timeout and restores the saved value after
  the statement. And there is no \<open>RETURNING\<close>: \<open>claim_many\<close> stamps its rows with a random
  token and reads them back by it. What it needs from its driver beyond \<open>sql_driver\<close> is the
  locale \<open>mysql_driver\<close>.
\<close>

definition ER_LOCK_WAIT_TIMEOUT :: "16 word" where
  "ER_LOCK_WAIT_TIMEOUT = 1205"

definition ER_LOCK_DEADLOCK :: "16 word" where
  "ER_LOCK_DEADLOCK = 1213"

definition mysql_BEGIN_SQL :: stmt where
  "mysql_BEGIN_SQL = Set_vars [Set_session (Coalesce User_var Session_var), Set_user Null]"

definition mysql_SET_LOCK_TIMEOUT_SQL :: "u64 \<Rightarrow> stmt" where
  "mysql_SET_LOCK_TIMEOUT_SQL n = Set_vars [Set_user Session_var, Set_session (Bound n)]"

definition mysql_RESTORE_LOCK_TIMEOUT_SQL :: stmt where
  "mysql_RESTORE_LOCK_TIMEOUT_SQL = Set_vars [Set_session User_var, Set_user Null]"

definition mysql_CLAIM_SQL :: "str \<Rightarrow> str \<Rightarrow> stmt" where
  "mysql_CLAIM_SQL consumer ident = Insert_row consumer ident Server_now Ignore_row"

definition mysql_CLAIM_MANY_SQL :: "str \<Rightarrow> u64 \<Rightarrow> str list \<Rightarrow> stmt" where
  "mysql_CLAIM_MANY_SQL consumer token ids =
     Insert_rows consumer ids Server_now (Some token) True Update_same False"

definition mysql_CLAIMED_BY_TOKEN_SQL :: "str list \<Rightarrow> str \<Rightarrow> u64 \<Rightarrow> stmt" where
  "mysql_CLAIMED_BY_TOKEN_SQL ids consumer token = Select_claimed ids consumer token"

definition mysql_UNCLAIM_SQL :: "str \<Rightarrow> str \<Rightarrow> stmt" where
  "mysql_UNCLAIM_SQL consumer ident = Delete_row consumer ident"

definition mysql_PURGE_SQL :: "u64 \<Rightarrow> nat \<Rightarrow> stmt" where
  "mysql_PURGE_SQL age batch = Delete_oldest (Now_minus_micros age) batch"

definition mysql_KNOWN_DUPLICATE_SQL :: "str \<Rightarrow> str \<Rightarrow> stmt" where
  "mysql_KNOWN_DUPLICATE_SQL consumer ident = Select_exists consumer ident"

text \<open>\<open>u64::try_from(n).unwrap_or(u64::MAX)\<close> on a \<open>u128\<close>.\<close>

definition u64_or_max :: "u128 \<Rightarrow> u64" where
  "u64_or_max n = (if n \<le> 0xFFFFFFFFFFFFFFFF then ucast n else 0xFFFFFFFFFFFFFFFF)"

definition mysql_lock_timeout :: "duration \<Rightarrow> u64" where
  "mysql_lock_timeout timeout =
     (let secs = max (div_ceil (as_nanos timeout) 1000000000) 1
      in min (u64_or_max secs) 1073741824)"

definition mysql_set_lock_timeout ::
  "('tx, 'w) driver \<Rightarrow> duration option \<Rightarrow> 'tx \<Rightarrow> 'w \<Rightarrow> (sqlx_error + unit) \<times> 'tx \<times> 'w" where
  "mysql_set_lock_timeout d timeout tx w =
     (case timeout of
        None \<Rightarrow> (Inr (), tx, w)
      | Some t \<Rightarrow>
         (case drv_exec d (mysql_SET_LOCK_TIMEOUT_SQL (mysql_lock_timeout t)) tx w of
            (Inl e, tx', w') \<Rightarrow> (Inl e, tx', w')
          | (Inr _, tx', w') \<Rightarrow> (Inr (), tx', w')))"

definition mysql_restore_lock_timeout ::
  "('tx, 'w) driver \<Rightarrow> duration option \<Rightarrow> 'tx \<Rightarrow> 'w \<Rightarrow> (sqlx_error + unit) \<times> 'tx \<times> 'w" where
  "mysql_restore_lock_timeout d timeout tx w =
     (case timeout of
        None \<Rightarrow> (Inr (), tx, w)
      | Some t \<Rightarrow>
         (case drv_exec d mysql_RESTORE_LOCK_TIMEOUT_SQL tx w of
            (Inl e, tx', w') \<Rightarrow> (Inl e, tx', w')
          | (Inr _, tx', w') \<Rightarrow> (Inr (), tx', w')))"

fun mysql_claim_error :: "sqlx_error \<Rightarrow> inbox_error" where
  "mysql_claim_error (Database code (Some number)) =
     (if number = ER_LOCK_WAIT_TIMEOUT \<or> number = ER_LOCK_DEADLOCK then Contended
      else inbox_error_from_sqlx (Database code (Some number)))"
| "mysql_claim_error e = inbox_error_from_sqlx e"

text \<open>The claim's error wins over the restore's.\<close>

definition mysql_claim ::
  "('tx, 'w) driver \<Rightarrow> claim_request \<Rightarrow> 'tx \<Rightarrow> 'w \<Rightarrow> (inbox_error + claim) \<times> 'tx \<times> 'w" where
  "mysql_claim d request tx w =
     (case mysql_set_lock_timeout d (req_lock_timeout request) tx w of
        (Inl e, tx1, w1) \<Rightarrow> (Inl (inbox_error_from_sqlx e), tx1, w1)
      | (Inr _, tx1, w1) \<Rightarrow>
         (case drv_exec d (mysql_CLAIM_SQL (consumer_str (req_consumer request)) (message_str (req_id request))) tx1 w1 of
            (result, tx2, w2) \<Rightarrow>
             (case mysql_restore_lock_timeout d (req_lock_timeout request) tx2 w2 of
                (restored, tx3, w3) \<Rightarrow>
                 (case result of
                    Inl e \<Rightarrow> (Inl (mysql_claim_error e), tx3, w3)
                  | Inr r \<Rightarrow>
                     (case restored of
                        Inl e \<Rightarrow> (Inl (inbox_error_from_sqlx e), tx3, w3)
                      | Inr _ \<Rightarrow> (Inr (claim_of_affected (rows_affected r)), tx3, w3))))))"

definition mysql_claim_many ::
  "('tx, 'w) driver \<Rightarrow> claim_batch \<Rightarrow> 'tx \<Rightarrow> 'w \<Rightarrow> (inbox_error + claim list) \<times> 'tx \<times> 'w" where
  "mysql_claim_many d batch tx w =
     (case drv_random d w of
        (Inl e, w0) \<Rightarrow> (Inl (Backend (BoxMsg e)), tx, w0)
      | (Inr token, w0) \<Rightarrow>
         (let ids = map message_str (batch_ids batch); consumer = consumer_str (batch_consumer batch)
          in case mysql_set_lock_timeout d (batch_lock_timeout batch) tx w0 of
               (Inl e, tx1, w1) \<Rightarrow> (Inl (inbox_error_from_sqlx e), tx1, w1)
             | (Inr _, tx1, w1) \<Rightarrow>
                (case drv_exec d (mysql_CLAIM_MANY_SQL consumer token ids) tx1 w1 of
                   (result, tx2, w2) \<Rightarrow>
                    (case mysql_restore_lock_timeout d (batch_lock_timeout batch) tx2 w2 of
                       (restored, tx3, w3) \<Rightarrow>
                        (case result of
                           Inl e \<Rightarrow> (Inl (mysql_claim_error e), tx3, w3)
                         | Inr _ \<Rightarrow>
                            (case restored of
                               Inl e \<Rightarrow> (Inl (inbox_error_from_sqlx e), tx3, w3)
                             | Inr _ \<Rightarrow>
                                (case drv_exec d (mysql_CLAIMED_BY_TOKEN_SQL ids consumer token) tx3 w3 of
                                   (Inl e, tx4, w4) \<Rightarrow> (Inl (inbox_error_from_sqlx e), tx4, w4)
                                 | (Inr fresh, tx4, w4) \<Rightarrow>
                                    (Inr (claims_from_fresh ids (texts fresh)), tx4, w4))))))))"

definition mysql_is_known_duplicate ::
  "('tx, 'w) driver \<Rightarrow> consumer_id \<Rightarrow> message_id \<Rightarrow> 'w \<Rightarrow> (inbox_error + bool) \<times> 'w" where
  "mysql_is_known_duplicate d consumer ident w =
     (case drv_pool d (mysql_KNOWN_DUPLICATE_SQL (consumer_str consumer) (message_str ident)) w of
        (Inl e, w') \<Rightarrow> (Inl (inbox_error_from_sqlx e), w')
      | (Inr r, w') \<Rightarrow> (Inr (flag r), w'))"

definition mysql_purge ::
  "('tx, 'w) driver \<Rightarrow> retention_policy \<Rightarrow> 'w \<Rightarrow> ((inbox_error + u64) \<times> 'w) option" where
  "mysql_purge d policy w =
     (let age = u64_or_max (as_micros (max_age policy))
      in purge_loop d (mysql_PURGE_SQL age (unat (batch_size policy))) (batch_size policy) 0 w)"

definition mysql_unclaim ::
  "('tx, 'w) driver \<Rightarrow> consumer_id \<Rightarrow> message_id \<Rightarrow> 'tx \<Rightarrow> 'w \<Rightarrow> (inbox_error + unit) \<times> 'tx \<times> 'w" where
  "mysql_unclaim d consumer ident =
     sql_execute d (mysql_UNCLAIM_SQL (consumer_str consumer) (message_str ident))"

text \<open>\<open>impl InboxStore for MySqlInbox\<close> and \<open>impl Savepoints for MySqlInbox\<close>.\<close>

definition mysql_store :: "('tx, 'w) driver \<Rightarrow> ('tx, 'w) savepoint_ops" where
  "mysql_store d =
     \<lparr>op_begin = sql_begin d (Some mysql_BEGIN_SQL), op_commit = sql_commit d,
      op_rollback = sql_rollback d, op_drop = drv_drop d, op_claim = mysql_claim d,
      op_claim_many = mysql_claim_many d, op_is_known_duplicate = mysql_is_known_duplicate d,
      op_purge = mysql_purge d, op_savepoint = sql_execute d SAVEPOINT_SQL,
      op_release_and_savepoint = sql_execute d RELEASE_AND_SAVEPOINT_SQL,
      op_release = sql_execute d RELEASE_SQL, op_rollback_to = sql_execute d ROLLBACK_TO_SQL,
      op_unclaim = mysql_unclaim d\<rparr>"

lemma mysql_store_simps [simp]:
  "op_begin (mysql_store d) = sql_begin d (Some mysql_BEGIN_SQL)" "op_commit (mysql_store d) = sql_commit d"
  "op_rollback (mysql_store d) = sql_rollback d" "op_drop (mysql_store d) = drv_drop d"
  "op_claim (mysql_store d) = mysql_claim d" "op_claim_many (mysql_store d) = mysql_claim_many d"
  "op_is_known_duplicate (mysql_store d) = mysql_is_known_duplicate d"
  "op_purge (mysql_store d) = mysql_purge d" "op_savepoint (mysql_store d) = sql_execute d SAVEPOINT_SQL"
  "op_release_and_savepoint (mysql_store d) = sql_execute d RELEASE_AND_SAVEPOINT_SQL"
  "op_release (mysql_store d) = sql_execute d RELEASE_SQL"
  "op_rollback_to (mysql_store d) = sql_execute d ROLLBACK_TO_SQL"
  "op_unclaim (mysql_store d) = mysql_unclaim d"
  by (simp_all add: mysql_store_def)

lemmas mysql_sql_defs [sql_defs] = mysql_UNCLAIM_SQL_def mysql_CLAIM_SQL_def mysql_CLAIM_MANY_SQL_def
  mysql_CLAIMED_BY_TOKEN_SQL_def mysql_PURGE_SQL_def mysql_KNOWN_DUPLICATE_SQL_def

lemmas mysql_var_defs = mysql_BEGIN_SQL_def mysql_SET_LOCK_TIMEOUT_SQL_def
  mysql_RESTORE_LOCK_TIMEOUT_SQL_def

subsection \<open>The timeout sent to the server\<close>

lemma unat_u64_or_max: "unat (u64_or_max n) = min (unat n) (2 ^ 64 - 1)"
proof (cases "n \<le> 0xFFFFFFFFFFFFFFFF")
  case True
  then have "unat n < 2 ^ 64" by (simp add: word_le_nat_alt)
  with True show ?thesis
    by (simp add: u64_or_max_def unsigned_ucast_eq take_bit_nat_eq_self)
next
  case False
  then show ?thesis by (simp add: u64_or_max_def word_le_nat_alt)
qed

text \<open>The server takes the value as it is: it lies in the range of the variable. It is the timeout in
  whole seconds, rounded up, unless the timeout exceeds MySQL's maximum.\<close>

lemma unat_mysql_lock_timeout:
  "unat (mysql_lock_timeout t) =
    min (max 1 ((unat (dur_secs t) * 1000000000 + unat (dur_nanos t) + 999999999) div 1000000000)) 1073741824"
  by (simp add: mysql_lock_timeout_def Let_def unat_min unat_max unat_u64_or_max unat_div_ceil_nanos max.commute)

lemma clamp_mysql_lock_timeout [simp]: "clamp_wait (mysql_lock_timeout t) = mysql_lock_timeout t"
proof -
  have "1 \<le> mysql_lock_timeout t" by (simp add: word_le_nat_alt unat_mysql_lock_timeout)
  moreover have "mysql_lock_timeout t \<le> 1073741824" by (simp add: mysql_lock_timeout_def Let_def)
  ultimately show ?thesis by (simp add: clamp_wait_def)
qed

subsection \<open>The lent session variable\<close>

text \<open>The session's own timeout: the saved value while it is lent, the variable otherwise.\<close>

definition own_wait :: "session \<Rightarrow> u64" where
  "own_wait v = (case txbox_lock_wait_timeout v of Some n \<Rightarrow> n | None \<Rightarrow> innodb_lock_wait_timeout v)"

definition at_rest :: "session \<Rightarrow> bool" where
  "at_rest v \<longleftrightarrow> txbox_lock_wait_timeout v = None \<and>
     clamp_wait (innodb_lock_wait_timeout v) = innodb_lock_wait_timeout v"

lemma assign_begin:
  "assign [Set_session (Coalesce User_var Session_var), Set_user Null] v =
     Some (v\<lparr>innodb_lock_wait_timeout := clamp_wait (own_wait v), txbox_lock_wait_timeout := None\<rparr>)"
  by (simp add: own_wait_def split: option.splits)

lemma assign_set:
  "assign [Set_user Session_var, Set_session (Bound n)] v =
     Some (v\<lparr>txbox_lock_wait_timeout := Some (innodb_lock_wait_timeout v),
       innodb_lock_wait_timeout := clamp_wait n\<rparr>)"
  by simp

lemma assign_restore:
  "assign [Set_session User_var, Set_user Null] (v\<lparr>txbox_lock_wait_timeout := Some k, innodb_lock_wait_timeout := n\<rparr>) =
     Some (v\<lparr>innodb_lock_wait_timeout := clamp_wait k, txbox_lock_wait_timeout := None\<rparr>)"
  by simp

lemma clamp_wait_idem [simp]: "clamp_wait (clamp_wait n) = clamp_wait n"
  by (simp add: clamp_wait_def max_def min_def)

subsection \<open>What MySQL adds to the driver\<close>

fun is_claiming :: "stmt \<Rightarrow> bool" where
  "is_claiming (Insert_row c m t oc) = True"
| "is_claiming (Insert_rows c ms t tok ord oc ret) = True"
| "is_claiming (Select_claimed ms c tok) = True"
| "is_claiming _ = False"

text \<open>
  Session variables are not transactional: \<open>SET\<close> works whether or not the server has ended the
  transaction, and the statements of a claim leave them alone even
  when they fail. A token drawn while a
  transaction is in progress is on no row the transaction can see.
\<close>

locale mysql_driver = sql_driver d com st live
  for d :: "('tx, 'w) driver" and com :: "'w \<Rightarrow> 'u database" and st :: "'tx \<Rightarrow> 'u txn"
    and live :: "'tx \<Rightarrow> 'w \<Rightarrow> bool" +
  assumes set_vars_ok: "drv_exec d (Set_vars as) tx w = (Inr r, tx', w') \<Longrightarrow>
      com w' = com w \<and> assign as (txn_vars (st tx)) = Some (txn_vars (st tx'))"
    and set_vars_err: "drv_exec d (Set_vars as) tx w = (Inl e, tx', w') \<Longrightarrow>
      com w' = com w \<and> txn_vars (st tx') = txn_vars (st tx)"
    and claiming_err_vars: "is_claiming q \<Longrightarrow> drv_exec d q tx w = (Inl e, tx', w') \<Longrightarrow>
      txn_vars (st tx') = txn_vars (st tx)"
    and random_ok: "live tx w \<Longrightarrow> drv_random d w = (Inr token, w') \<Longrightarrow>
      live tx w' \<and> com w' = com w \<and>
      (\<forall>k row. table (st tx) k = Some row \<longrightarrow> claim_token row \<noteq> Some token)"
    and random_err: "drv_random d w = (Inl err, w') \<Longrightarrow> com w' = com w"
begin

lemma mysql_set_ok:
  assumes "live tx w" and "mysql_set_lock_timeout d timeout tx w = (Inr u, tx', w')"
  shows "live tx' w' \<and> txn_db (st tx') = txn_db (st tx) \<and> com w' = com w"
proof (cases timeout)
  case (Some t)
  with assms(2) obtain r where
    "drv_exec d (mysql_SET_LOCK_TIMEOUT_SQL (mysql_lock_timeout t)) tx w = (Inr r, tx', w')"
    by (auto simp: mysql_set_lock_timeout_def split: prod.splits sum.splits)
  from exec_ok [OF disjI1 [OF assms(1)] this] show ?thesis
    by (auto simp: mysql_var_defs split: option.splits)
qed (use assms in \<open>simp add: mysql_set_lock_timeout_def\<close>)

lemma mysql_restore_ok:
  assumes "live tx w" and "mysql_restore_lock_timeout d timeout tx w = (Inr u, tx', w')"
  shows "live tx' w' \<and> txn_db (st tx') = txn_db (st tx) \<and> com w' = com w"
proof (cases timeout)
  case (Some t)
  with assms(2) obtain r where "drv_exec d mysql_RESTORE_LOCK_TIMEOUT_SQL tx w = (Inr r, tx', w')"
    by (auto simp: mysql_restore_lock_timeout_def split: prod.splits sum.splits)
  from exec_ok [OF disjI1 [OF assms(1)] this] show ?thesis
    by (auto simp: mysql_var_defs split: option.splits)
qed (use assms in \<open>simp add: mysql_restore_lock_timeout_def\<close>)

lemma mysql_timeout_com:
  "mysql_set_lock_timeout d timeout tx w = (r, tx', w') \<Longrightarrow> com w' = com w"
  "mysql_restore_lock_timeout d timeout tx w = (r, tx', w') \<Longrightarrow> com w' = com w"
  using set_vars_ok set_vars_err
  by (auto simp: mysql_set_lock_timeout_def mysql_restore_lock_timeout_def mysql_var_defs
      split: option.splits prod.splits sum.splits)

lemma mysql_claim_ok:
  assumes "live tx w" and "mysql_claim d r tx w = (Inr c, tx', w')"
  shows "c = (if req_key r \<in> seen (view tx) then Duplicate else Fresh) \<and>
    view tx' = record_keys {req_key r} (view tx) \<and> live tx' w' \<and> committed w' = committed w"
proof -
  obtain u tx1 w1 x tx2 w2 v where set: "mysql_set_lock_timeout d (req_lock_timeout r) tx w = (Inr u, tx1, w1)"
    and ins: "drv_exec d (Insert_row (consumer_str (req_consumer r)) (message_str (req_id r)) Server_now Ignore_row)
      tx1 w1 = (Inr x, tx2, w2)"
    and res: "mysql_restore_lock_timeout d (req_lock_timeout r) tx2 w2 = (Inr v, tx', w')"
    and c: "c = claim_of_affected (rows_affected x)"
    using assms(2) by (auto simp: mysql_claim_def mysql_sql_defs split: prod.splits sum.splits)
  note pre = mysql_set_ok [OF assms(1) set]
  have "Ignore_row \<noteq> Update_same" by simp
  note mid = exec_insert_row [OF conjunct1 [OF pre] this ins]
  show ?thesis using mid mysql_restore_ok [OF mid(3) res] pre c by simp
qed

lemma mysql_claim_err:
  assumes "live tx w" and "mysql_claim d r tx w = (Inl e, tx', w')"
  shows "committed w' = committed w"
proof -
  obtain x tx1 w1 where set: "mysql_set_lock_timeout d (req_lock_timeout r) tx w = (x, tx1, w1)"
    by (metis prod.collapse)
  show ?thesis
  proof (cases x)
    case (Inl e1)
    with set assms(2) mysql_timeout_com(1) [OF set] show ?thesis by (simp add: mysql_claim_def)
  next
    case (Inr u)
    let ?q = "mysql_CLAIM_SQL (consumer_str (req_consumer r)) (message_str (req_id r))"
    note pre = mysql_set_ok [OF assms(1) set [unfolded Inr]]
    obtain y tx2 w2 where ins: "drv_exec d ?q tx1 w1 = (y, tx2, w2)" by (metis prod.collapse)
    have "com w2 = com w1"
      using ins pre exec_ok [of tx1 w1 ?q] exec_err [of tx1 w1 ?q] by (cases y) blast+
    moreover obtain z tx3 w3 where res: "mysql_restore_lock_timeout d (req_lock_timeout r) tx2 w2 = (z, tx3, w3)"
      by (metis prod.collapse)
    moreover have "w' = w3"
      using assms(2) set ins res Inr by (auto simp: mysql_claim_def split: sum.splits)
    ultimately show ?thesis using pre mysql_timeout_com(2) [OF res] by simp
  qed
qed

text \<open>With a fresh token, the rows that carry it afterwards are those the call inserted.\<close>

lemma mysql_claimed_by_token:
  assumes "\<forall>k row. t k = Some row \<longrightarrow> claim_token row \<noteq> Some token"
    and "claim_token r = Some token"
  shows "{m \<in> set ms. \<exists>row. insert_all c r ms t (c, m) = Some row \<and> claim_token row = Some token} =
    {m \<in> set ms. (c, m) \<notin> dom t}"
  using assms by (auto simp: insert_all_apply split: if_splits)

lemma mysql_claim_many_ok:
  assumes "live tx w" and "mysql_claim_many d b tx w = (Inr cs, tx', w')"
  shows "cs = map (\<lambda>m. if key_of (batch_consumer b) m \<in> seen (view tx) then Duplicate else Fresh) (batch_ids b) \<and>
    view tx' = record_keys (key_of (batch_consumer b) ` set (batch_ids b)) (view tx) \<and>
    live tx' w' \<and> committed w' = committed w"
proof -
  let ?ids = "map message_str (batch_ids b)" and ?c = "consumer_str (batch_consumer b)"
  obtain token w0 u tx1 w1 x tx2 w2 v tx3 w3 y where
    rnd: "drv_random d w = (Inr token, w0)"
    and set: "mysql_set_lock_timeout d (batch_lock_timeout b) tx w0 = (Inr u, tx1, w1)"
    and ins: "drv_exec d (Insert_rows ?c ?ids Server_now (Some token) True Update_same False) tx1 w1 = (Inr x, tx2, w2)"
    and res: "mysql_restore_lock_timeout d (batch_lock_timeout b) tx2 w2 = (Inr v, tx3, w3)"
    and sel: "drv_exec d (Select_claimed ?ids ?c token) tx3 w3 = (Inr y, tx', w')"
    and cs: "cs = claims_from_fresh ?ids (texts y)"
    using assms(2) by (auto simp: mysql_claim_many_def mysql_sql_defs Let_def split: prod.splits sum.splits)
  note drawn = random_ok [OF assms(1) rnd]
  note pre = mysql_set_ok [OF conjunct1 [OF drawn] set]
  obtain now where inserted: "live tx2 w2" "com w2 = com w1"
    "st tx2 = on_table (insert_all ?c \<lparr>processed_at = now, claim_token = Some token\<rparr> ?ids) (st tx1)"
    using exec_ok [OF disjI1 [OF conjunct1 [OF pre]] ins] by auto
  note post = mysql_restore_ok [OF inserted(1) res]
  have selected: "live tx' w'" "com w' = com w3" "st tx' = st tx3"
    "set (texts y) = {m \<in> set ?ids. \<exists>row. table (st tx3) (?c, m) = Some row \<and> claim_token row = Some token}"
    using exec_ok [OF disjI1 [OF conjunct1 [OF post]] sel] by auto
  have "set (texts y) = {m \<in> set ?ids. (?c, m) \<notin> seen (view tx)}"
    unfolding selected(4) using post inserted(3) pre drawn
    by (simp add: mysql_claimed_by_token del: set_map)
  from claims_from_fresh_eq [OF this]
  have "cs = map (\<lambda>m. if key_of (batch_consumer b) m \<in> seen (view tx) then Duplicate else Fresh) (batch_ids b)"
    by (simp add: cs key_of_def)
  moreover have "view tx' = record_keys (key_of (batch_consumer b) ` set (batch_ids b)) (view tx)"
    using selected(3) post inserted(3) pre by (simp add: abs_insert_rows key_of_image)
  ultimately show ?thesis using selected post inserted pre drawn by simp
qed

lemma mysql_claim_many_err:
  assumes "live tx w" and "mysql_claim_many d b tx w = (Inl e, tx', w')"
  shows "committed w' = committed w"
proof -
  let ?ids = "map message_str (batch_ids b)" and ?c = "consumer_str (batch_consumer b)"
  obtain t w0 where rnd: "drv_random d w = (t, w0)" by (metis prod.collapse)
  show ?thesis
  proof (cases t)
    case (Inl e0)
    with rnd assms(2) random_err show ?thesis by (auto simp: mysql_claim_many_def)
  next
    case (Inr token)
    note drawn = random_ok [OF assms(1) rnd [unfolded Inr]]
    obtain x tx1 w1 where set: "mysql_set_lock_timeout d (batch_lock_timeout b) tx w0 = (x, tx1, w1)"
      by (metis prod.collapse)
    note c1 = mysql_timeout_com(1) [OF set]
    show ?thesis
    proof (cases x)
      case (Inl e1)
      with set rnd \<open>t = Inr token\<close> assms(2) c1 drawn show ?thesis by (simp add: mysql_claim_many_def)
    next
      case (Inr u)
      let ?q = "mysql_CLAIM_MANY_SQL ?c token ?ids" and ?s = "mysql_CLAIMED_BY_TOKEN_SQL ?ids ?c token"
      note pre = mysql_set_ok [OF conjunct1 [OF drawn] set [unfolded Inr]]
      obtain y tx2 w2 where ins: "drv_exec d ?q tx1 w1 = (y, tx2, w2)" by (metis prod.collapse)
      have c2: "com w2 = com w1" and l2: "y = Inr r \<Longrightarrow> live tx2 w2" for r
        using ins pre exec_ok [of tx1 w1 ?q] exec_err [of tx1 w1 ?q] by (cases y; blast)+
      obtain z tx3 w3 where res: "mysql_restore_lock_timeout d (batch_lock_timeout b) tx2 w2 = (z, tx3, w3)"
        by (metis prod.collapse)
      note c3 = mysql_timeout_com(2) [OF res]
      have "w' = w3 \<or> (\<exists>r u. y = Inr r \<and> z = Inr u \<and> drv_exec d ?s tx3 w3 = (Inl e0, tx', w'))"
        if "drv_exec d ?s tx3 w3 = (Inl e0, a, c) \<or> (\<exists>r. drv_exec d ?s tx3 w3 = (Inr r, a, c))" for e0 a c
        using assms(2) set ins res Inr rnd \<open>t = Inr token\<close> that
        by (auto simp: mysql_claim_many_def Let_def split: sum.splits)
      then have "w' = w3 \<or> (\<exists>r u e0. y = Inr r \<and> z = Inr u \<and> drv_exec d ?s tx3 w3 = (Inl e0, tx', w'))"
        by (metis prod.collapse sum.exhaust)
      moreover have "com w' = com w3" if "y = Inr r" "z = Inr u'" "drv_exec d ?s tx3 w3 = (Inl e0, tx', w')" for r u' e0
        using exec_err [OF disjI1 [OF conjunct1 [OF mysql_restore_ok [OF l2 [OF that(1)] res [unfolded that(2)]]]] that(3)]
        by simp
      ultimately have "com w' = com w3" by blast
      then show ?thesis using c1 c2 c3 drawn by simp
    qed
  qed
qed

lemma mysql_known_duplicate_law:
  assumes "mysql_is_known_duplicate d c m w = (r, w')"
  shows "committed w' = committed w \<and> (r = Inr True \<longrightarrow> key_of c m \<in> seen (committed w))"
  using pool_known_duplicate [OF assms [unfolded mysql_is_known_duplicate_def mysql_sql_defs]] by blast

lemma mysql_purge_removes:
  assumes "mysql_purge d p w = Some (r, w')"
  shows "seen (committed w') \<subseteq> seen (committed w) \<and> app (committed w') = app (committed w)"
  using purge_loop_safe [OF assms [unfolded mysql_purge_def mysql_sql_defs Let_def]]
  by (auto dest: purged_rows_dom)

text \<open>Lending: set, run a statement of the claim, restore. Whatever happens, the session's own value
  is not lost, and it is back in place when the restore succeeded.\<close>

lemma mysql_set_vars:
  assumes "at_rest (txn_vars (st tx))" and "mysql_set_lock_timeout d timeout tx w = (x, tx', w')"
  shows "x = Inl e \<Longrightarrow> txn_vars (st tx') = txn_vars (st tx)"
    and "x = Inr u \<Longrightarrow> txn_vars (st tx') = (case timeout of None \<Rightarrow> txn_vars (st tx) | Some t \<Rightarrow>
      (txn_vars (st tx))\<lparr>txbox_lock_wait_timeout := Some (innodb_lock_wait_timeout (txn_vars (st tx))),
        innodb_lock_wait_timeout := mysql_lock_timeout t\<rparr>)"
proof -
  have "case timeout of None \<Rightarrow> x = Inr () \<and> tx' = tx | Some t \<Rightarrow>
      (\<exists>e. x = Inl e \<and> drv_exec d (mysql_SET_LOCK_TIMEOUT_SQL (mysql_lock_timeout t)) tx w = (Inl e, tx', w')) \<or>
      (\<exists>r. x = Inr () \<and> drv_exec d (mysql_SET_LOCK_TIMEOUT_SQL (mysql_lock_timeout t)) tx w = (Inr r, tx', w'))"
    using assms(2) by (auto simp: mysql_set_lock_timeout_def split: option.splits prod.splits sum.splits)
  then show "x = Inl e \<Longrightarrow> txn_vars (st tx') = txn_vars (st tx)"
    and "x = Inr u \<Longrightarrow> txn_vars (st tx') = (case timeout of None \<Rightarrow> txn_vars (st tx) | Some t \<Rightarrow>
      (txn_vars (st tx))\<lparr>txbox_lock_wait_timeout := Some (innodb_lock_wait_timeout (txn_vars (st tx))),
        innodb_lock_wait_timeout := mysql_lock_timeout t\<rparr>)"
    using set_vars_err set_vars_ok
    by (fastforce simp: mysql_SET_LOCK_TIMEOUT_SQL_def split: option.splits)+
qed

lemma mysql_claiming_vars:
  assumes "live tx w" and "is_claiming q" and "drv_exec d q tx w = (y, tx', w')"
  shows "txn_vars (st tx') = txn_vars (st tx)"
proof (cases y)
  case (Inl e)
  with assms claiming_err_vars show ?thesis by blast
next
  case (Inr r)
  then obtain now where "sql_post (drv_cutoff d) now q (st tx) r (st tx')"
    using exec_ok [OF disjI1 [OF assms(1)]] assms(3) by blast
  with assms(2) show ?thesis by (cases q) auto
qed

lemma mysql_restore_vars:
  assumes "mysql_restore_lock_timeout d timeout tx w = (z, tx', w')"
    and lent: "txn_vars (st tx) = (case timeout of None \<Rightarrow> v | Some t \<Rightarrow>
      v\<lparr>txbox_lock_wait_timeout := Some (innodb_lock_wait_timeout v), innodb_lock_wait_timeout := mysql_lock_timeout t\<rparr>)"
    and rest: "at_rest v"
  shows "own_wait (txn_vars (st tx')) = own_wait v" and "z = Inr u \<Longrightarrow> txn_vars (st tx') = v"
proof -
  have "own_wait (txn_vars (st tx')) = own_wait v \<and> (\<forall>u. z = Inr u \<longrightarrow> txn_vars (st tx') = v)"
  proof (cases timeout)
    case None
    with assms show ?thesis by (auto simp: mysql_restore_lock_timeout_def)
  next
    case (Some t)
    then consider e where "z = Inl e" "drv_exec d mysql_RESTORE_LOCK_TIMEOUT_SQL tx w = (Inl e, tx', w')"
      | r where "z = Inr ()" "drv_exec d mysql_RESTORE_LOCK_TIMEOUT_SQL tx w = (Inr r, tx', w')"
      using assms(1) by (auto simp: mysql_restore_lock_timeout_def split: prod.splits sum.splits)
    then show ?thesis
    proof cases
      case 1
      then have "txn_vars (st tx') = txn_vars (st tx)"
        using set_vars_err by (auto simp: mysql_RESTORE_LOCK_TIMEOUT_SQL_def)
      with 1 lent rest Some show ?thesis by (simp add: own_wait_def at_rest_def)
    next
      case 2
      then have "Some (txn_vars (st tx')) = assign [Set_session User_var, Set_user Null] (txn_vars (st tx))"
        using set_vars_ok unfolding mysql_RESTORE_LOCK_TIMEOUT_SQL_def by metis
      with lent Some rest have "txn_vars (st tx') = v" by (simp add: at_rest_def)
      then show ?thesis by simp
    qed
  qed
  then show "own_wait (txn_vars (st tx')) = own_wait v" and "z = Inr u \<Longrightarrow> txn_vars (st tx') = v"
    by blast+
qed

lemma mysql_claim_session:
  assumes "live tx w" and "at_rest (txn_vars (st tx))" and "mysql_claim d r tx w = (x, tx', w')"
  shows "own_wait (txn_vars (st tx')) = own_wait (txn_vars (st tx)) \<and>
    (\<forall>c. x = Inr c \<longrightarrow> txn_vars (st tx') = txn_vars (st tx))"
proof -
  obtain s tx1 w1 where set: "mysql_set_lock_timeout d (req_lock_timeout r) tx w = (s, tx1, w1)"
    by (metis prod.collapse)
  note vars1 = mysql_set_vars [OF assms(2) set]
  show ?thesis
  proof (cases s)
    case (Inl e)
    with set assms(3) vars1(1) show ?thesis by (auto simp: mysql_claim_def)
  next
    case (Inr u)
    let ?q = "mysql_CLAIM_SQL (consumer_str (req_consumer r)) (message_str (req_id r))"
    obtain y tx2 w2 where ins: "drv_exec d ?q tx1 w1 = (y, tx2, w2)" by (metis prod.collapse)
    obtain z tx3 w3 where res: "mysql_restore_lock_timeout d (req_lock_timeout r) tx2 w2 = (z, tx3, w3)"
      by (metis prod.collapse)
    have "live tx1 w1" using mysql_set_ok [OF assms(1)] set Inr by blast
    from mysql_claiming_vars [OF this _ ins] have vars2: "txn_vars (st tx2) = txn_vars (st tx1)"
      by (simp add: mysql_sql_defs)
    note vars3 = mysql_restore_vars [OF res vars2 [unfolded vars1(2) [OF Inr]] assms(2)]
    have "tx' = tx3 \<and> ((\<exists>c. x = Inr c) \<longrightarrow> (\<exists>u. z = Inr u))"
      using assms(3) set ins res Inr by (auto simp: mysql_claim_def split: sum.splits)
    with vars3 show ?thesis by blast
  qed
qed

lemma mysql_keeps_contract:
  "savepoints_contract (mysql_store d) (\<lambda>w. abs_db (com w)) (\<lambda>tx. abs_db (txn_db (st tx))) live
     (\<lambda>tx. saved_of (st tx))"
proof (rule savepoints_contractI [where q = "Some mysql_BEGIN_SQL"], unfold mysql_store_simps)
  show "mysql_unclaim d = (\<lambda>c m. sql_execute d (Delete_row (consumer_str c) (message_str m)))"
    by (simp add: fun_eq_iff mysql_unclaim_def mysql_sql_defs)
qed (rule refl | rule mysql_claim_ok mysql_claim_err mysql_claim_many_ok mysql_claim_many_err
    mysql_known_duplicate_law mysql_purge_removes; assumption)+

end

sublocale mysql_driver \<subseteq> mysql: savepoints_contract "mysql_store d" "\<lambda>w. abs_db (com w)"
  "\<lambda>tx. abs_db (txn_db (st tx))" live "\<lambda>tx. saved_of (st tx)"
  by (rule mysql_keeps_contract)

end
