(* ===== verification/Sqlite.thy ===== *)
theory Sqlite
  imports Sql
begin

text \<open>
  \<open>SqliteInbox\<close> of \<^verbatim>\<open>src/src/sqlite.rs\<close>: no lock timeout, times from the caller's clock, busy
  and locked databases reported as contention by the primary result code.
\<close>

definition sqlite_UNCLAIM_SQL :: "str \<Rightarrow> str \<Rightarrow> stmt" where
  "sqlite_UNCLAIM_SQL consumer ident = Delete_row consumer ident"

definition sqlite_CLAIM_SQL :: "str \<Rightarrow> str \<Rightarrow> int \<Rightarrow> stmt" where
  "sqlite_CLAIM_SQL consumer ident now = Insert_row consumer ident (At now) Do_nothing"

definition sqlite_CLAIM_MANY_SQL :: "str \<Rightarrow> int \<Rightarrow> str list \<Rightarrow> stmt" where
  "sqlite_CLAIM_MANY_SQL consumer now ids = Insert_rows consumer ids (At now) None False Do_nothing True"

definition sqlite_KNOWN_DUPLICATE_SQL :: "str \<Rightarrow> str \<Rightarrow> stmt" where
  "sqlite_KNOWN_DUPLICATE_SQL consumer ident = Select_exists consumer ident"

definition sqlite_PURGE_SQL :: "int \<Rightarrow> nat \<Rightarrow> stmt" where
  "sqlite_PURGE_SQL lim batch = Delete_oldest (Before lim) batch"

text \<open>\<open>str::parse::<i32>\<close>: an optional sign, then at least one digit, in the range of \<open>i32\<close>.\<close>

definition digits :: "str \<Rightarrow> bool" where
  "digits s \<longleftrightarrow> s \<noteq> [] \<and> list_all (\<lambda>c. 48 \<le> c \<and> c < 58) s"

fun parse_i32 :: "str \<Rightarrow> 32 word option" where
  "parse_i32 [] = None"
| "parse_i32 (c # s) =
     (if c = 45 then (if digits s \<and> read_nat s \<le> 2147483648 then Some (- of_nat (read_nat s)) else None)
      else let n = (if c = 43 then s else c # s)
           in if digits n \<and> read_nat n < 2147483648 then Some (of_nat (read_nat n)) else None)"

unbundle bit_operations_syntax

fun sqlite_claim_error :: "sqlx_error \<Rightarrow> inbox_error" where
  "sqlite_claim_error (Database code n) =
     (case Option.bind code parse_i32 of
        Some c \<Rightarrow> if c AND 0xff = 5 \<or> c AND 0xff = 6 then Contended
                  else inbox_error_from_sqlx (Database code n)
      | None \<Rightarrow> inbox_error_from_sqlx (Database code n))"
| "sqlite_claim_error e = inbox_error_from_sqlx e"

definition sqlite_claim ::
  "('tx, 'w) driver \<Rightarrow> claim_request \<Rightarrow> 'tx \<Rightarrow> 'w \<Rightarrow> (inbox_error + claim) \<times> 'tx \<times> 'w" where
  "sqlite_claim d request tx w =
     (case drv_utc_now d w of (now, w1) \<Rightarrow>
       (case drv_exec d (sqlite_CLAIM_SQL (consumer_str (req_consumer request)) (message_str (req_id request)) now) tx w1 of
          (Inl e, tx2, w2) \<Rightarrow> (Inl (sqlite_claim_error e), tx2, w2)
        | (Inr r, tx2, w2) \<Rightarrow> (Inr (claim_of_affected (rows_affected r)), tx2, w2)))"

definition sqlite_claim_many ::
  "('tx, 'w) driver \<Rightarrow> claim_batch \<Rightarrow> 'tx \<Rightarrow> 'w \<Rightarrow> (inbox_error + claim list) \<times> 'tx \<times> 'w" where
  "sqlite_claim_many d batch tx w =
     (let ids = map message_str (batch_ids batch)
      in case drv_utc_now d w of (now, w1) \<Rightarrow>
        (case drv_exec d (sqlite_CLAIM_MANY_SQL (consumer_str (batch_consumer batch)) now ids) tx w1 of
           (Inl e, tx2, w2) \<Rightarrow> (Inl (sqlite_claim_error e), tx2, w2)
         | (Inr fresh, tx2, w2) \<Rightarrow> (Inr (claims_from_fresh ids (texts fresh)), tx2, w2)))"

definition sqlite_is_known_duplicate ::
  "('tx, 'w) driver \<Rightarrow> consumer_id \<Rightarrow> message_id \<Rightarrow> 'w \<Rightarrow> (inbox_error + bool) \<times> 'w" where
  "sqlite_is_known_duplicate d consumer ident w =
     (case drv_pool d (sqlite_KNOWN_DUPLICATE_SQL (consumer_str consumer) (message_str ident)) w of
        (Inl e, w') \<Rightarrow> (Inl (inbox_error_from_sqlx e), w')
      | (Inr r, w') \<Rightarrow> (Inr (flag r), w'))"

text \<open>A \<open>max_age\<close> chrono cannot hold is an error; a cutoff before chrono's first time is a panic
  of the subtraction (\<open>None\<close>).\<close>

definition sqlite_purge ::
  "('tx, 'w) driver \<Rightarrow> retention_policy \<Rightarrow> 'w \<Rightarrow> ((inbox_error + u64) \<times> 'w) option" where
  "sqlite_purge d policy w =
     (case drv_utc_now d w of (now, w1) \<Rightarrow>
       (case drv_from_std d (max_age policy) of
          Inl e \<Rightarrow> Some (Inl (Backend (BoxMsg e)), w1)
        | Inr age \<Rightarrow>
           (case drv_time_sub d now age of
              None \<Rightarrow> None
            | Some lim \<Rightarrow>
                purge_loop d (sqlite_PURGE_SQL lim (unat (batch_size policy))) (batch_size policy) 0 w1)))"

definition sqlite_unclaim ::
  "('tx, 'w) driver \<Rightarrow> consumer_id \<Rightarrow> message_id \<Rightarrow> 'tx \<Rightarrow> 'w \<Rightarrow> (inbox_error + unit) \<times> 'tx \<times> 'w" where
  "sqlite_unclaim d consumer ident =
     sql_execute d (sqlite_UNCLAIM_SQL (consumer_str consumer) (message_str ident))"

text \<open>\<open>impl InboxStore for SqliteInbox\<close> and \<open>impl Savepoints for SqliteInbox\<close>.\<close>

definition sqlite_store :: "('tx, 'w) driver \<Rightarrow> ('tx, 'w) savepoint_ops" where
  "sqlite_store d =
     \<lparr>op_begin = sql_begin d None, op_commit = sql_commit d, op_rollback = sql_rollback d,
      op_drop = drv_drop d, op_claim = sqlite_claim d, op_claim_many = sqlite_claim_many d,
      op_is_known_duplicate = sqlite_is_known_duplicate d, op_purge = sqlite_purge d,
      op_savepoint = sql_execute d SAVEPOINT_SQL,
      op_release_and_savepoint = sql_execute d RELEASE_AND_SAVEPOINT_SQL,
      op_release = sql_execute d RELEASE_SQL, op_rollback_to = sql_execute d ROLLBACK_TO_SQL,
      op_unclaim = sqlite_unclaim d\<rparr>"

lemma sqlite_store_simps [simp]:
  "op_begin (sqlite_store d) = sql_begin d None" "op_commit (sqlite_store d) = sql_commit d"
  "op_rollback (sqlite_store d) = sql_rollback d" "op_drop (sqlite_store d) = drv_drop d"
  "op_claim (sqlite_store d) = sqlite_claim d" "op_claim_many (sqlite_store d) = sqlite_claim_many d"
  "op_is_known_duplicate (sqlite_store d) = sqlite_is_known_duplicate d"
  "op_purge (sqlite_store d) = sqlite_purge d" "op_savepoint (sqlite_store d) = sql_execute d SAVEPOINT_SQL"
  "op_release_and_savepoint (sqlite_store d) = sql_execute d RELEASE_AND_SAVEPOINT_SQL"
  "op_release (sqlite_store d) = sql_execute d RELEASE_SQL"
  "op_rollback_to (sqlite_store d) = sql_execute d ROLLBACK_TO_SQL"
  "op_unclaim (sqlite_store d) = sqlite_unclaim d"
  by (simp_all add: sqlite_store_def)

lemmas sqlite_sql_defs [sql_defs] = sqlite_UNCLAIM_SQL_def sqlite_CLAIM_SQL_def sqlite_CLAIM_MANY_SQL_def
  sqlite_PURGE_SQL_def sqlite_KNOWN_DUPLICATE_SQL_def

subsection \<open>The backend keeps the contract\<close>

context sql_driver
begin

lemma sqlite_claim_ok:
  assumes "live tx w" and "sqlite_claim d r tx w = (Inr c, tx', w')"
  shows "c = (if req_key r \<in> seen (view tx) then Duplicate else Fresh) \<and>
    view tx' = record_keys {req_key r} (view tx) \<and> live tx' w' \<and> committed w' = committed w"
proof -
  obtain now w1 x where t: "drv_utc_now d w = (now, w1)"
    and ins: "drv_exec d (Insert_row (consumer_str (req_consumer r)) (message_str (req_id r)) (At now) Do_nothing)
      tx w1 = (Inr x, tx', w')"
    and c: "c = claim_of_affected (rows_affected x)"
    using assms(2) by (auto simp: sqlite_claim_def sqlite_sql_defs split: prod.splits sum.splits)
  have w1: "com w1 = com w" "live tx w1" using utc_now_keeps [OF t] assms(1) by blast+
  have "Do_nothing \<noteq> Update_same" by simp
  from exec_insert_row [OF w1(2) this ins] w1 c show ?thesis by simp
qed

lemma sqlite_claim_err:
  assumes "live tx w" and "sqlite_claim d r tx w = (Inl e, tx', w')"
  shows "committed w' = committed w"
proof -
  obtain now w1 e2 where t: "drv_utc_now d w = (now, w1)"
    and ins: "drv_exec d (sqlite_CLAIM_SQL (consumer_str (req_consumer r)) (message_str (req_id r)) now) tx w1 = (Inl e2, tx', w')"
    using assms(2) by (auto simp: sqlite_claim_def split: prod.splits sum.splits)
  have w1: "com w1 = com w" "live tx w1" using utc_now_keeps [OF t] assms(1) by blast+
  from exec_keeps [OF w1(2) ins] w1 show ?thesis by simp
qed

lemma sqlite_claim_many_ok:
  assumes "live tx w" and "sqlite_claim_many d b tx w = (Inr cs, tx', w')"
  shows "cs = map (\<lambda>m. if key_of (batch_consumer b) m \<in> seen (view tx) then Duplicate else Fresh) (batch_ids b) \<and>
    view tx' = record_keys (key_of (batch_consumer b) ` set (batch_ids b)) (view tx) \<and>
    live tx' w' \<and> committed w' = committed w"
proof -
  let ?ids = "map message_str (batch_ids b)"
  obtain now w1 x where t: "drv_utc_now d w = (now, w1)"
    and ins: "drv_exec d (Insert_rows (consumer_str (batch_consumer b)) ?ids (At now) None False Do_nothing True)
      tx w1 = (Inr x, tx', w')"
    and cs: "cs = claims_from_fresh ?ids (texts x)"
    using assms(2) by (auto simp: sqlite_claim_many_def sqlite_sql_defs Let_def split: prod.splits sum.splits)
  have w1: "com w1 = com w" "live tx w1" using utc_now_keeps [OF t] assms(1) by blast+
  from exec_insert_rows [OF w1(2) ins] w1 cs show ?thesis by simp
qed

lemma sqlite_claim_many_err:
  assumes "live tx w" and "sqlite_claim_many d b tx w = (Inl e, tx', w')"
  shows "committed w' = committed w"
proof -
  obtain now w1 e2 where t: "drv_utc_now d w = (now, w1)"
    and ins: "drv_exec d (sqlite_CLAIM_MANY_SQL (consumer_str (batch_consumer b)) now (map message_str (batch_ids b))) tx w1 =
      (Inl e2, tx', w')"
    using assms(2) by (auto simp: sqlite_claim_many_def Let_def split: prod.splits sum.splits)
  have w1: "com w1 = com w" "live tx w1" using utc_now_keeps [OF t] assms(1) by blast+
  from exec_keeps [OF w1(2) ins] w1 show ?thesis by simp
qed

lemma sqlite_known_duplicate_law:
  assumes "sqlite_is_known_duplicate d c m w = (r, w')"
  shows "committed w' = committed w \<and> (r = Inr True \<longrightarrow> key_of c m \<in> seen (committed w))"
  using pool_known_duplicate [OF assms [unfolded sqlite_is_known_duplicate_def sqlite_sql_defs]] by blast

lemma sqlite_purge_removes:
  assumes "sqlite_purge d p w = Some (r, w')"
  shows "seen (committed w') \<subseteq> seen (committed w) \<and> app (committed w') = app (committed w)"
proof -
  obtain now w1 where t: "drv_utc_now d w = (now, w1)" by (metis prod.collapse)
  have w1: "com w1 = com w" using utc_now_keeps [OF t] by blast
  show ?thesis
  proof (cases "\<exists>age lim. drv_from_std d (max_age p) = Inr age \<and> drv_time_sub d now age = Some lim")
    case True
    then obtain lim where "purge_loop d (Delete_oldest (Before lim) (unat (batch_size p))) (batch_size p) 0 w1 = Some (r, w')"
      using assms t by (auto simp: sqlite_purge_def sqlite_sql_defs)
    from purge_loop_safe [OF this] w1 show ?thesis by (auto dest: purged_rows_dom)
  next
    case False
    with assms t w1 show ?thesis by (auto simp: sqlite_purge_def split: sum.splits option.splits)
  qed
qed

lemma sqlite_keeps_contract:
  "savepoints_contract (sqlite_store d) (\<lambda>w. abs_db (com w)) (\<lambda>tx. abs_db (txn_db (st tx))) live
     (\<lambda>tx. saved_of (st tx))"
proof (rule savepoints_contractI [where q = None], unfold sqlite_store_simps)
  show "sqlite_unclaim d = (\<lambda>c m. sql_execute d (Delete_row (consumer_str c) (message_str m)))"
    by (simp add: fun_eq_iff sqlite_unclaim_def sqlite_sql_defs)
qed (rule refl | rule sqlite_claim_ok sqlite_claim_err sqlite_claim_many_ok sqlite_claim_many_err
    sqlite_known_duplicate_law sqlite_purge_removes; assumption)+

end

sublocale sql_driver \<subseteq> sqlite: savepoints_contract "sqlite_store d" "\<lambda>w. abs_db (com w)"
  "\<lambda>tx. abs_db (txn_db (st tx))" live "\<lambda>tx. saved_of (st tx)"
  by (rule sqlite_keeps_contract)

end
