(* ===== verification/Reference_Db.thy ===== *)
theory Reference_Db
  imports Mysql "HOL-Library.AList"
begin

text \<open>
  A small executable database that keeps the \<open>sql_driver\<close> contract: tables are association
  lists, a step counter serves as the clock and a second one as the source of tokens, and a schedule \<open>sv\<close>
  chooses for every step whether it succeeds, fails, or is carried out with its acknowledgement
  lost. A failed statement aborts the transaction until a \<open>ROLLBACK TO\<close>, as on PostgreSQL. It also
  keeps what \<open>mysql_driver\<close> adds. It
  shows that the contracts can be met, faults included, and the concrete runs of the development
  are runs on it.
\<close>

type_synonym 'u data = "(key \<times> row) list \<times> 'u"

datatype fault = No_fault | Fail sqlx_error | Lost sqlx_error

record 'u ref_tx =
  tx_data :: "'u data"
  tx_saved :: "(str \<times> 'u data) list"
  tx_vars :: session
  tx_aborted :: bool

record 'u ref_world =
  w_data :: "'u data"
  w_vars :: session
  w_step :: nat
  w_next :: nat

definition db_of :: "'u data \<Rightarrow> 'u database" where
  "db_of p = \<lparr>inbox_messages = map_of (fst p), rest = snd p\<rparr>"

definition ref_com :: "'u ref_world \<Rightarrow> 'u database" where
  "ref_com w = db_of (w_data w)"

definition ref_st :: "'u ref_tx \<Rightarrow> 'u txn" where
  "ref_st tx = \<lparr>txn_db = db_of (tx_data tx), txn_savepoints = map (apsnd db_of) (tx_saved tx),
     txn_vars = tx_vars tx\<rparr>"

lemma db_of_simps [simp]: "inbox_messages (db_of p) = map_of (fst p)" "rest (db_of p) = snd p"
  by (simp_all add: db_of_def)

lemma ref_st_simps [simp]:
  "txn_db (ref_st tx) = db_of (tx_data tx)" "txn_savepoints (ref_st tx) = map (apsnd db_of) (tx_saved tx)"
  "txn_vars (ref_st tx) = tx_vars tx"
  by (simp_all add: ref_st_def)

subsection \<open>Running a statement\<close>

fun ref_cutoff :: "int \<Rightarrow> cutoff \<Rightarrow> int option" where
  "ref_cutoff now (Now_minus_secs age) = Some (now - uint (as_micros age))"
| "ref_cutoff now (Now_minus_micros n) = Some (now - uint n)"
| "ref_cutoff now (Before t) = Some t"

definition result_rows :: "nat \<Rightarrow> query_result" where
  "result_rows n = \<lparr>rows_affected = of_nat n, texts = [], flag = False\<rparr>"

definition result_texts :: "str list \<Rightarrow> query_result" where
  "result_texts xs = \<lparr>rows_affected = 0, texts = xs, flag = False\<rparr>"

fun rows_insert :: "str \<Rightarrow> row \<Rightarrow> str list \<Rightarrow> (key \<times> row) list \<Rightarrow> (key \<times> row) list" where
  "rows_insert c r [] t = t"
| "rows_insert c r (m # ms) t =
     rows_insert c r ms (if map_of t (c, m) = None then ((c, m), r) # t else t)"

definition oldest_rows :: "int option \<Rightarrow> nat \<Rightarrow> (key \<times> row) list \<Rightarrow> (key \<times> row) list" where
  "oldest_rows lim n t =
     (case lim of
        None \<Rightarrow> []
      | Some c \<Rightarrow> take n (sort_key (\<lambda>p. processed_at (snd p))
                       (filter (\<lambda>p. processed_at (snd p) < c) (AList.clearjunk t))))"

fun run_sql :: "int \<Rightarrow> stmt \<Rightarrow> 'u ref_tx \<Rightarrow> (query_result \<times> 'u ref_tx) option" where
  "run_sql now (Insert_row c m t oc) tx =
     Some (result_rows (if map_of (fst (tx_data tx)) (c, m) = None then 1 else 0),
       tx\<lparr>tx_data := apfst (rows_insert c \<lparr>processed_at = time_of now t, claim_token = None\<rparr> [m]) (tx_data tx)\<rparr>)"
| "run_sql now (Insert_rows c ms t tok ordered oc returning) tx =
     Some (result_texts (filter (\<lambda>m. map_of (fst (tx_data tx)) (c, m) = None) ms),
       tx\<lparr>tx_data := apfst (rows_insert c \<lparr>processed_at = time_of now t, claim_token = tok\<rparr> ms) (tx_data tx)\<rparr>)"
| "run_sql now (Select_claimed ms c tok) tx =
     Some (result_texts (filter (\<lambda>m. case map_of (fst (tx_data tx)) (c, m) of
         None \<Rightarrow> False | Some r \<Rightarrow> claim_token r = Some tok) ms), tx)"
| "run_sql now (Select_exists c m) tx =
     Some (\<lparr>rows_affected = 0, texts = [], flag = (map_of (fst (tx_data tx)) (c, m) \<noteq> None)\<rparr>, tx)"
| "run_sql now (Delete_row c m) tx =
     Some (result_rows 0, tx\<lparr>tx_data := apfst (AList.delete (c, m)) (tx_data tx)\<rparr>)"
| "run_sql now (Delete_oldest co n) tx =
     (let gone = oldest_rows (ref_cutoff now co) n (fst (tx_data tx))
      in if int (length gone) < 18446744073709551616
         then Some (result_rows (length gone),
           tx\<lparr>tx_data := apfst (filter (\<lambda>p. fst p \<notin> fst ` set gone)) (tx_data tx)\<rparr>)
         else None)"
| "run_sql now (Savepoint n) tx =
     Some (result_rows 0, tx\<lparr>tx_saved := (n, tx_data tx) # tx_saved tx\<rparr>)"
| "run_sql now (Release n) tx =
     (case after_savepoint n (tx_saved tx) of
        None \<Rightarrow> None
      | Some (_, sps) \<Rightarrow> Some (result_rows 0, tx\<lparr>tx_saved := sps\<rparr>))"
| "run_sql now (Rollback_to n) tx =
     (case after_savepoint n (tx_saved tx) of
        None \<Rightarrow> None
      | Some (p, sps) \<Rightarrow> Some (result_rows 0, tx\<lparr>tx_data := p, tx_saved := (n, p) # sps\<rparr>))"
| "run_sql now (Set_local_lock_timeout v) tx =
     Some (result_rows 0, tx\<lparr>tx_vars := (tx_vars tx)\<lparr>lock_timeout := Some v\<rparr>\<rparr>)"
| "run_sql now (Set_vars as) tx =
     (case assign as (tx_vars tx) of
        None \<Rightarrow> None
      | Some v \<Rightarrow> Some (result_rows 0, tx\<lparr>tx_vars := v\<rparr>))"
| "run_sql now (Script a b) tx =
     (case run_sql now a tx of
        None \<Rightarrow> None
      | Some (_, tx1) \<Rightarrow> run_sql now b tx1)"

subsection \<open>The driver\<close>

definition tokens_of :: "'u data \<Rightarrow> nat list" where
  "tokens_of p = List.map_filter (\<lambda>(k, r). map_option unat (claim_token r)) (fst p)"

text \<open>Every step advances the clock, and the next token past the tokens in use.\<close>

definition tick :: "'u data \<Rightarrow> 'u ref_world \<Rightarrow> 'u ref_world" where
  "tick p w = w\<lparr>w_step := Suc (w_step w), w_next := fold max (map Suc (tokens_of p)) (w_next w)\<rparr>"

definition ref_live :: "'u ref_tx \<Rightarrow> 'u ref_world \<Rightarrow> bool" where
  "ref_live tx w \<longleftrightarrow> \<not> tx_aborted tx \<and> list_all (\<lambda>n. n < w_next w) (tokens_of (tx_data tx))"

definition ref_error :: sqlx_error where
  "ref_error = OtherSqlx (lit ''statement refused'')"

definition ref_begin ::
  "(nat \<Rightarrow> fault) \<Rightarrow> stmt option \<Rightarrow> 'u ref_world \<Rightarrow> (sqlx_error + 'u ref_tx) \<times> 'u ref_world" where
  "ref_begin sv q w =
     (let tx = \<lparr>tx_data = w_data w, tx_saved = [], tx_vars = w_vars w, tx_aborted = False\<rparr>;
          w' = tick (w_data w) w
      in case sv (w_step w) of
           Fail e \<Rightarrow> (Inl e, w')
         | Lost e \<Rightarrow> (Inl e, w')
         | No_fault \<Rightarrow>
            (case q of
               None \<Rightarrow> (Inr tx, w')
             | Some (Set_vars as) \<Rightarrow>
                (case assign as (w_vars w) of
                   None \<Rightarrow> (Inl ref_error, w')
                 | Some v \<Rightarrow> (Inr (tx\<lparr>tx_vars := v\<rparr>), w'))
             | Some _ \<Rightarrow> (Inl ref_error, w')))"

text \<open>What the connection keeps of its session; \<open>SET LOCAL\<close> ends with the transaction.\<close>

definition session_after :: "'u ref_tx \<Rightarrow> session" where
  "session_after tx = (tx_vars tx)\<lparr>lock_timeout := None\<rparr>"

definition ref_drop :: "'u ref_tx \<Rightarrow> 'u ref_world \<Rightarrow> 'u ref_world" where
  "ref_drop tx w = tick (tx_data tx) (w\<lparr>w_vars := session_after tx\<rparr>)"

definition ref_commit ::
  "(nat \<Rightarrow> fault) \<Rightarrow> 'u ref_tx \<Rightarrow> 'u ref_world \<Rightarrow> (sqlx_error + unit) \<times> 'u ref_world" where
  "ref_commit sv tx w =
     (let applied = (if ref_live tx w then w\<lparr>w_data := tx_data tx, w_vars := session_after tx\<rparr> else w)
      in case sv (w_step w) of
           Fail e \<Rightarrow> (Inl e, tick (tx_data tx) w)
         | Lost e \<Rightarrow> (Inl e, tick (tx_data tx) applied)
         | No_fault \<Rightarrow> (Inr (), tick (tx_data tx) applied))"

definition ref_rollback ::
  "(nat \<Rightarrow> fault) \<Rightarrow> 'u ref_tx \<Rightarrow> 'u ref_world \<Rightarrow> (sqlx_error + unit) \<times> 'u ref_world" where
  "ref_rollback sv tx w =
     (case sv (w_step w) of
        No_fault \<Rightarrow> (Inr (), tick (tx_data tx) (w\<lparr>w_vars := session_after tx\<rparr>))
      | Fail e \<Rightarrow> (Inl e, tick (tx_data tx) w)
      | Lost e \<Rightarrow> (Inl e, tick (tx_data tx) w))"

fun works_aborted :: "stmt \<Rightarrow> bool" where
  "works_aborted (Rollback_to n) = True"
| "works_aborted (Set_vars as) = True"
| "works_aborted _ = False"

fun is_rollback_to :: "stmt \<Rightarrow> bool" where
  "is_rollback_to (Rollback_to n) = True"
| "is_rollback_to _ = False"

definition ref_exec ::
  "(nat \<Rightarrow> fault) \<Rightarrow> stmt \<Rightarrow> 'u ref_tx \<Rightarrow> 'u ref_world \<Rightarrow>
   (sqlx_error + query_result) \<times> 'u ref_tx \<times> 'u ref_world" where
  "ref_exec sv q tx w =
     (let failed = tx\<lparr>tx_aborted := True\<rparr>
      in case sv (w_step w) of
           Fail e \<Rightarrow> (Inl e, failed, tick (tx_data tx) w)
         | Lost e \<Rightarrow> (Inl e, failed, tick (tx_data tx) w)
         | No_fault \<Rightarrow>
            (if tx_aborted tx \<and> \<not> works_aborted q then (Inl ref_error, failed, tick (tx_data tx) w)
             else case run_sql (int (w_step w)) q tx of
                 None \<Rightarrow> (Inl ref_error, failed, tick (tx_data tx) w)
               | Some (r, tx') \<Rightarrow>
                   (Inr r, (if is_rollback_to q then tx'\<lparr>tx_aborted := False\<rparr> else tx'),
                    tick (tx_data tx') w)))"

definition ref_pool ::
  "(nat \<Rightarrow> fault) \<Rightarrow> stmt \<Rightarrow> 'u ref_world \<Rightarrow> (sqlx_error + query_result) \<times> 'u ref_world" where
  "ref_pool sv q w =
     (let tx = \<lparr>tx_data = w_data w, tx_saved = [], tx_vars = w_vars w, tx_aborted = False\<rparr>
      in case sv (w_step w) of
           Fail e \<Rightarrow> (Inl e, tick (w_data w) w)
         | f \<Rightarrow>
            (case run_sql (int (w_step w)) q tx of
               None \<Rightarrow> (Inl ref_error, tick (w_data w) w)
             | Some (r, tx') \<Rightarrow>
                 ((case f of Lost e \<Rightarrow> Inl e | _ \<Rightarrow> Inr r),
                  tick (tx_data tx') (w\<lparr>w_data := tx_data tx'\<rparr>))))"

text \<open>The range of chrono's durations and times, in microseconds.\<close>

definition ref_from_std :: "duration \<Rightarrow> str + int" where
  "ref_from_std age =
     (if dur_secs age < 9223372036854775 then Inr (uint (as_micros age))
      else Inl (lit ''OutOfRangeError''))"

definition ref_time_sub :: "int \<Rightarrow> int \<Rightarrow> int option" where
  "ref_time_sub t age = (if - 8334601228800000000 \<le> t - age then Some (t - age) else None)"

definition ref_random :: "'u ref_world \<Rightarrow> (str + u64) \<times> 'u ref_world" where
  "ref_random w =
     (if int (w_next w) < 18446744073709551616
      then (Inr (of_nat (w_next w)), w\<lparr>w_step := Suc (w_step w), w_next := Suc (w_next w)\<rparr>)
      else (Inl (lit ''no entropy''), w))"

definition ref_driver :: "(nat \<Rightarrow> fault) \<Rightarrow> ('u ref_tx, 'u ref_world) driver" where
  "ref_driver sv =
     \<lparr>drv_begin = ref_begin sv, drv_commit = ref_commit sv, drv_rollback = ref_rollback sv,
      drv_drop = ref_drop, drv_exec = ref_exec sv, drv_pool = ref_pool sv,
      drv_cutoff = ref_cutoff, drv_utc_now = (\<lambda>w. (int (w_step w), w)), drv_from_std = ref_from_std,
      drv_time_sub = ref_time_sub, drv_random = ref_random\<rparr>"

lemma ref_driver_simps [simp]:
  "drv_begin (ref_driver sv) = ref_begin sv" "drv_commit (ref_driver sv) = ref_commit sv"
  "drv_rollback (ref_driver sv) = ref_rollback sv" "drv_drop (ref_driver sv) = ref_drop"
  "drv_exec (ref_driver sv) = ref_exec sv" "drv_pool (ref_driver sv) = ref_pool sv"
  "drv_cutoff (ref_driver sv) = ref_cutoff" "drv_utc_now (ref_driver sv) = (\<lambda>w. (int (w_step w), w))"
  "drv_from_std (ref_driver sv) = ref_from_std" "drv_time_sub (ref_driver sv) = ref_time_sub"
  "drv_random (ref_driver sv) = ref_random"
  by (simp_all add: ref_driver_def)

subsection \<open>It keeps the contract\<close>

lemma map_of_rows_insert: "map_of (rows_insert c r ms t) = insert_all c r ms (map_of t)"
  by (induction ms arbitrary: t) (simp_all add: insert_new_def fun_upd_def)

lemma db_of_rows_insert:
  "db_of (apfst (rows_insert c r ms) p) = (db_of p)\<lparr>inbox_messages := insert_all c r ms (map_of (fst p))\<rparr>"
  by (simp add: db_of_def map_of_rows_insert)

lemma map_of_filter_keys: "map_of (filter (\<lambda>p. fst p \<notin> K) t) = map_of t |` (- K)"
  by (rule ext, induction t) (auto simp: restrict_map_def)

lemma after_savepoint_map:
  "after_savepoint n (map (apsnd f) sps) =
     map_option (\<lambda>(x, ys). (f x, map (apsnd f) ys)) (after_savepoint n sps)"
  by (induction n sps rule: after_savepoint.induct) auto

lemma take_sorted_split:
  assumes "sorted (map f xs)" and "x \<in> set (take n xs)" and "y \<in> set (drop n xs)"
  shows "f x \<le> f y"
proof -
  have "sorted (map f (take n xs) @ map f (drop n xs))"
    using assms(1) by (simp flip: map_append)
  with assms(2,3) show ?thesis by (auto simp: sorted_append)
qed

lemma oldest_rows_oldest:
  "oldest lim n (map_of t) (fst ` set (oldest_rows lim n t)) \<and>
   card (fst ` set (oldest_rows lim n t)) = length (oldest_rows lim n t)"
proof (cases lim)
  case None
  then show ?thesis by (simp add: oldest_rows_def oldest_def old_keys_def)
next
  case (Some c)
  let ?t = "AList.clearjunk t" and ?f = "\<lambda>p :: key \<times> row. processed_at (snd p)"
  let ?s = "sort_key ?f (filter (\<lambda>p. ?f p < c) ?t)"
  have eq: "oldest_rows lim n t = take n ?s" by (simp add: oldest_rows_def Some)
  have dt: "distinct (map fst ?t)" by simp
  have ds: "distinct (map fst ?s)"
  proof -
    have "distinct (map fst (filter (\<lambda>p. ?f p < c) ?t))" by (rule distinct_map_filter [OF dt])
    then show ?thesis by (simp add: distinct_map)
  qed
  have val: "map_of t k = Some r \<longleftrightarrow> (k, r) \<in> set ?t" for k r
    using dt by (metis map_of_clearjunk map_of_eq_Some_iff)
  have old: "old_keys lim (map_of t) = fst ` set ?s"
    by (force simp: old_keys_def Some val image_iff)
  have dtake: "distinct (map fst (take n ?s))" using ds by (simp flip: take_map)
  then have card: "card (fst ` set (take n ?s)) = length (take n ?s)"
    using distinct_card [of "map fst (take n ?s)"] by (simp only: set_map length_map)
  have total: "card (old_keys lim (map_of t)) = length ?s"
    unfolding old using distinct_card [OF ds] by (simp only: set_map length_map)
  have "processed_at (the (map_of t k)) \<le> processed_at (the (map_of t k'))"
    if k: "k \<in> fst ` set (take n ?s)" and k': "k' \<in> fst ` set ?s - fst ` set (take n ?s)" for k k'
  proof -
    obtain r where r: "(k, r) \<in> set (take n ?s)" using k by auto
    obtain r' where r': "(k', r') \<in> set ?s" using k' by auto
    have "(k', r') \<in> set (drop n ?s)"
    proof -
      have "set ?s = set (take n ?s) \<union> set (drop n ?s)" by (metis append_take_drop_id set_append)
      then show ?thesis using r' k' by force
    qed
    from take_sorted_split [OF _ r this, of ?f] have "processed_at r \<le> processed_at r'" by simp
    moreover have "map_of t k = Some r" "map_of t k' = Some r'"
      using r r' set_take_subset [of n ?s] unfolding val by auto
    ultimately show ?thesis by simp
  qed
  then show ?thesis
    unfolding oldest_def eq using card total set_take_subset [of n ?s] by (auto simp: old)
qed

lemma run_sql_post:
  "run_sql now q tx = Some (r, tx') \<Longrightarrow> sql_post ref_cutoff now q (ref_st tx) r (ref_st tx')"
proof (induction q arbitrary: tx r tx')
  case (Insert_row c m t oc)
  then show ?case
    by (auto simp: result_rows_def on_table_def ref_st_def db_of_def fun_upd_def insert_new_def)
next
  case (Insert_rows c ms t tok ord oc ret)
  then show ?case
    by (auto simp: result_texts_def on_table_def ref_st_def db_of_rows_insert)
next
  case (Select_claimed ms c tok)
  then show ?case by (auto simp: result_texts_def split: option.splits)
next
  case (Delete_row c m)
  then show ?case
    by (auto simp: on_table_def ref_st_def db_of_def delete_conv')
next
  case (Delete_oldest co n)
  let ?gone = "oldest_rows (ref_cutoff now co) n (fst (tx_data tx))"
  have len: "length ?gone < 2 ^ 64" and r: "r = result_rows (length ?gone)"
    and tx': "tx' = tx\<lparr>tx_data := apfst (filter (\<lambda>p. fst p \<notin> fst ` set ?gone)) (tx_data tx)\<rparr>"
    using Delete_oldest by (simp_all add: Let_def split: if_splits)
  have "ref_st tx' = on_table (\<lambda>t. t |` (- (fst ` set ?gone))) (ref_st tx)"
    unfolding tx' by (simp add: on_table_def ref_st_def db_of_def map_of_filter_keys)
  moreover have "unat (rows_affected r) = card (fst ` set ?gone)"
    using len oldest_rows_oldest [of "ref_cutoff now co" n] by (simp add: r result_rows_def unat_of_nat take_bit_nat_eq_self)
  ultimately show ?case
    using oldest_rows_oldest [of "ref_cutoff now co" n "fst (tx_data tx)"] by auto
next
  case (Release n)
  then show ?case by (auto simp: ref_st_def after_savepoint_map split: option.splits)
next
  case (Rollback_to n)
  then show ?case by (auto simp: ref_st_def after_savepoint_map split: option.splits)
next
  case (Set_vars as)
  then show ?case by (auto simp: ref_st_def split: option.splits)
next
  case (Script a b)
  then show ?case by (fastforce split: option.splits)
qed (auto simp: ref_st_def)

lemma run_sql_frame:
  "run_sql now q tx = Some (r, tx') \<Longrightarrow> tx_aborted tx' = tx_aborted tx"
  by (induction q arbitrary: tx r tx') (auto simp: Let_def split: option.splits if_splits)

lemma fold_max_ge: "(n :: nat) \<le> fold max xs n" "x \<in> set xs \<Longrightarrow> x \<le> fold max xs n"
  unfolding Max.set_eq_fold [symmetric] by simp_all

lemma tick_simps [simp]: "w_data (tick p w) = w_data w" "w_vars (tick p w) = w_vars w"
  "w_step (tick p w) = Suc (w_step w)"
  by (simp_all add: tick_def)

lemma tick_live: "\<not> tx_aborted tx \<Longrightarrow> ref_live tx (tick (tx_data tx) w)"
  using fold_max_ge(2) [of _ "map Suc (tokens_of (tx_data tx))"] by (force simp: ref_live_def tick_def list_all_iff Suc_le_eq)

lemma ref_exec_ok:
  assumes "ref_live tx w \<or> q = Rollback_to n" and "ref_exec sv q tx w = (Inr r, tx', w')"
  shows "ref_live tx' w'" and "ref_com w' = ref_com w"
    and "sql_post ref_cutoff (int (w_step w)) q (ref_st tx) r (ref_st tx')"
proof -
  obtain tx1 where run: "run_sql (int (w_step w)) q tx = Some (r, tx1)"
    and tx': "tx' = (if is_rollback_to q then tx1\<lparr>tx_aborted := False\<rparr> else tx1)"
    and w': "w' = tick (tx_data tx1) w"
    using assms(2) by (auto simp: ref_exec_def Let_def split: fault.splits if_splits option.splits)
  have "\<not> tx_aborted tx'"
    using assms(1) run_sql_frame [OF run] by (auto simp: tx' ref_live_def)
  moreover have "tx_data tx' = tx_data tx1" by (simp add: tx')
  ultimately show "ref_live tx' w'" using tick_live [of tx' w] by (simp add: w')
  show "ref_com w' = ref_com w" by (simp add: w' ref_com_def)
  show "sql_post ref_cutoff (int (w_step w)) q (ref_st tx) r (ref_st tx')"
    using run_sql_post [OF run] by (simp add: tx' ref_st_def)
qed

lemma ref_exec_err:
  "ref_exec sv q tx w = (Inl e, tx', w') \<Longrightarrow> ref_com w' = ref_com w \<and> tx_saved tx' = tx_saved tx \<and>
    tx_vars tx' = tx_vars tx"
  by (auto simp: ref_exec_def Let_def ref_com_def split: fault.splits if_splits option.splits)

lemma ref_begin_ok:
  assumes "ref_begin sv q w = (Inr tx, w')"
  shows "ref_live tx w' \<and> ref_com w' = ref_com w \<and> txn_db (ref_st tx) = ref_com w \<and> tx_saved tx = []"
    and "q = Some (Set_vars as) \<Longrightarrow> assign as (w_vars w) = Some (tx_vars tx)"
proof -
  have tx: "tx_data tx = w_data w" "tx_saved tx = []" "\<not> tx_aborted tx" "w' = tick (w_data w) w"
    using assms by (auto simp: ref_begin_def Let_def split: fault.splits option.splits stmt.splits)
  then show "ref_live tx w' \<and> ref_com w' = ref_com w \<and> txn_db (ref_st tx) = ref_com w \<and> tx_saved tx = []"
    using tick_live [of tx w] by (simp add: ref_com_def)
  show "q = Some (Set_vars as) \<Longrightarrow> assign as (w_vars w) = Some (tx_vars tx)"
    using assms by (auto simp: ref_begin_def Let_def split: fault.splits option.splits)
qed

lemma ref_begin_err: "ref_begin sv q w = (Inl e, w') \<Longrightarrow> ref_com w' = ref_com w"
  by (auto simp: ref_begin_def Let_def ref_com_def split: fault.splits option.splits stmt.splits)

lemma ref_pool_post:
  assumes "ref_pool sv q w = (x, w')"
  shows "(\<exists>e. x = Inl e) \<and> ref_com w' = ref_com w \<or>
    (\<exists>r s'. sql_post ref_cutoff (int (w_step w)) q (start_txn (w_vars w) (ref_com w)) r s' \<and>
       ref_com w' = txn_db s' \<and> (x = Inr r \<or> (\<exists>e. x = Inl e)))"
proof -
  let ?tx = "\<lparr>tx_data = w_data w, tx_saved = [], tx_vars = w_vars w, tx_aborted = False\<rparr>"
  have st: "ref_st ?tx = start_txn (w_vars w) (ref_com w)" by (simp add: ref_st_def start_txn_def ref_com_def)
  consider "(\<exists>e. x = Inl e) \<and> w_data w' = w_data w"
    | r tx' where "run_sql (int (w_step w)) q ?tx = Some (r, tx')" "w_data w' = tx_data tx'"
        "x = Inr r \<or> (\<exists>e. x = Inl e)"
    using assms by (auto simp: ref_pool_def Let_def split: fault.splits option.splits)
  then show ?thesis
  proof cases
    case 1
    then show ?thesis by (simp add: ref_com_def)
  next
    case 2
    with run_sql_post [OF 2(1)] have "sql_post ref_cutoff (int (w_step w)) q (start_txn (w_vars w) (ref_com w)) r (ref_st tx')"
      by (simp add: st)
    with 2 show ?thesis by (intro disjI2 exI [of _ r] exI [of _ "ref_st tx'"]) (simp add: ref_com_def)
  qed
qed

interpretation ref: sql_driver "ref_driver sv" ref_com ref_st ref_live for sv
proof (unfold_locales, goal_cases)
  case (1 qo w tx w')
  then show ?case using ref_begin_ok(1) by fastforce
next
  case (2 as w tx w')
  then have "assign as (w_vars w) = Some (tx_vars tx)" using ref_begin_ok(2) by (metis ref_driver_simps(1))
  then show ?case by auto
next
  case (3 qo w e w')
  then show ?case using ref_begin_err by simp
next
  case (7 tx w)
  show ?case by (simp add: ref_drop_def ref_com_def)
next
  case (8 tx w q n r tx' w')
  then show ?case using ref_exec_ok [OF 8(1), of sv r tx' w'] unfolding ref_driver_simps by blast
next
  case (9 tx w q n e tx' w')
  then show ?case using ref_exec_err by fastforce
next
  case (10 q w r w')
  then show ?case using ref_pool_post [of sv q w "Inr r" w'] by auto
next
  case (11 q w e w')
  then show ?case using ref_pool_post [of sv q w "Inl e" w'] by auto
next
  case (13 w)
  show ?case by (simp add: ref_com_def finite_dom_map_of)
qed (auto simp: ref_commit_def ref_rollback_def Let_def ref_com_def split: fault.splits if_splits)

lemma tokens_below:
  assumes "ref_live tx w" and "map_of (fst (tx_data tx)) k = Some row" and "claim_token row = Some t"
  shows "unat t < w_next w"
proof -
  have "unat t \<in> set (tokens_of (tx_data tx))"
    using map_of_SomeD [OF assms(2)] assms(3) by (force simp: tokens_of_def List.map_filter_def)
  with assms(1) show ?thesis by (auto simp: ref_live_def list_all_iff)
qed

interpretation ref_mysql: mysql_driver "ref_driver sv" ref_com ref_st ref_live for sv
proof (unfold_locales, goal_cases)
  case (1 as tx w r tx' w')
  then show ?case by (auto simp: ref_exec_def Let_def ref_com_def split: fault.splits if_splits option.splits)
next
  case (2 as tx w e tx' w')
  then show ?case by (auto dest!: ref_exec_err)
next
  case (3 q tx w e tx' w')
  then show ?case by (auto dest!: ref_exec_err)
next
  case (4 tx w token w')
  then have "token = of_nat (w_next w)" "w_next w < 2 ^ 64"
    "w' = w\<lparr>w_step := Suc (w_step w), w_next := Suc (w_next w)\<rparr>"
    by (auto simp: ref_random_def split: if_splits)
  moreover from this have "unat token = w_next w" by (simp add: unat_of_nat take_bit_nat_eq_self)
  moreover from this have "claim_token row \<noteq> Some token" if "table (ref_st tx) k = Some row" for k row
    using tokens_below [OF 4(1), of k row token] that by auto
  ultimately show ?case
    using 4(1) by (auto simp: ref_live_def ref_com_def list_all_iff)
next
  case (5 w e w')
  then show ?case by (auto simp: ref_random_def ref_com_def split: if_splits)
qed

end
