(* ===== verification/Backends.thy ===== *)
theory Backends
  imports Postgres Mysql Sqlite Reference_Db
begin

text \<open>
  The three SQL backends behind one predicate: what is proved of a store here holds for
  \<open>PgInbox\<close>, \<open>MySqlInbox\<close> and \<open>SqliteInbox\<close> on every driver that keeps the contract its
  backend relies on.
\<close>

definition backend ::
  "('tx, 'w) driver \<Rightarrow> ('w \<Rightarrow> 'u database) \<Rightarrow> ('tx \<Rightarrow> 'u txn) \<Rightarrow> ('tx \<Rightarrow> 'w \<Rightarrow> bool) \<Rightarrow>
   ('tx, 'w) savepoint_ops \<Rightarrow> bool" where
  "backend d com st live S \<longleftrightarrow>
     sql_driver d com st live \<and>
     (S = pg_store d \<or> S = sqlite_store d \<or> S = mysql_store d \<and> mysql_driver d com st live)"

abbreviation db_committed :: "('w \<Rightarrow> 'u database) \<Rightarrow> 'w \<Rightarrow> 'u inbox_state" where
  "db_committed com w \<equiv> abs_db (com w)"

abbreviation tx_view :: "('tx \<Rightarrow> 'u txn) \<Rightarrow> 'tx \<Rightarrow> 'u inbox_state" where
  "tx_view st tx \<equiv> abs_db (txn_db (st tx))"

abbreviation tx_savepoint :: "('tx \<Rightarrow> 'u txn) \<Rightarrow> 'tx \<Rightarrow> 'u inbox_state option" where
  "tx_savepoint st tx \<equiv> saved_of (st tx)"

lemma backend_contract:
  assumes "backend d com st live S"
  shows "savepoints_contract S (db_committed com) (tx_view st) live (tx_savepoint st)"
  using assms sql_driver.pg_keeps_contract sql_driver.sqlite_keeps_contract mysql_driver.mysql_keeps_contract
  unfolding backend_def by blast

lemma backend_inbox_contract:
  "backend d com st live S \<Longrightarrow> inbox_contract S (db_committed com) (tx_view st) live"
  using backend_contract by (fastforce simp: savepoints_contract_def)

lemma backend_claim_contract:
  "backend d com st live S \<Longrightarrow> claim_contract S (db_committed com) (tx_view st) live"
  using backend_inbox_contract by (fastforce simp: inbox_contract_def)

lemma backend_ref [simp]:
  "backend (ref_driver sv) ref_com ref_st ref_live (pg_store (ref_driver sv))"
  "backend (ref_driver sv) ref_com ref_st ref_live (sqlite_store (ref_driver sv))"
  "backend (ref_driver sv) ref_com ref_st ref_live (mysql_store (ref_driver sv))"
  by (simp_all add: backend_def ref.sql_driver_axioms ref_mysql.mysql_driver_axioms)

end
