(* ===== verification/Delivery.thy ===== *)
theory Delivery
  imports Backends
begin

text \<open>
  What the consumer promises on the SQL backends: the theorems of \<open>Consumer\<close> reach here through
  the contract the backends were shown to keep. Each is stated for any driver and any store with
  \<open>backend d com st live S\<close>. The concrete runs use the reference database with a counter as the
  application's data and a handler that increments it.
\<close>

subsection \<open>Sample data\<close>

definition calm :: "nat \<Rightarrow> fault" where
  "calm n = No_fault"

definition sample_world :: "nat ref_world" where
  "sample_world =
     \<lparr>w_data = ([], 0),
      w_vars = \<lparr>lock_timeout = None, innodb_lock_wait_timeout = 50, txbox_lock_wait_timeout = None\<rparr>,
      w_step = 0, w_next = 0\<rparr>"

definition orders :: consumer_id where
  "orders = ConsumerId (lit ''orders'')"

definition pg_orders :: "(nat \<Rightarrow> fault) \<Rightarrow> ('u ref_tx, 'u ref_world) savepoint_ops consumer" where
  "pg_orders sv = consumer_new (pg_store (ref_driver sv)) orders"

definition msg :: "string \<Rightarrow> message_id" where
  "msg s = MessageId (lit s)"

text \<open>A handler that changes the application's data by \<open>eff m\<close>, or fails for the messages in \<open>bad\<close>
  after having changed them.\<close>

definition ref_handler ::
  "(message_id \<Rightarrow> 'u \<Rightarrow> 'u) \<Rightarrow> message_id list \<Rightarrow> message_id \<Rightarrow> (unit, 'u ref_tx, 'u ref_world) handler" where
  "ref_handler eff bad m tx w =
     (if m \<in> set bad then Inl (lit ''refused'') else Inr (),
      tx\<lparr>tx_data := apsnd (eff m) (tx_data tx)\<rparr>, w)"

lemma tokens_of_apsnd [simp]: "tokens_of (apsnd f p) = tokens_of p"
  by (simp add: tokens_of_def)

lemma ref_handler_in_tx:
  "handler_in_tx (db_committed ref_com) (tx_view ref_st) ref_live (app_effect eff m) (ref_handler eff bad m)"
  by (auto simp: handler_in_tx_def ref_handler_def ref_live_def app_effect_def abs_db_def split: if_splits)

lemma ref_handler_in_savepoint:
  "handler_in_savepoint (db_committed ref_com) (tx_view ref_st) ref_live (tx_savepoint ref_st)
     (app_effect eff) (ref_handler eff bad)"
  by (auto simp: handler_in_savepoint_def ref_handler_def ref_live_def app_effect_def abs_db_def
      saved_of_def ref_st_def split: if_splits)

lemma con_store_pg_orders [simp]: "con_store (pg_orders sv) = pg_store (ref_driver sv)"
  "con_id (pg_orders sv) = orders"
  by (simp_all add: pg_orders_def consumer_new_def)

subsection \<open>One message\<close>

text \<open>C9: \<open>process\<close> on a SQL backend is atomic and deduplicates, whatever fails. \<open>Processed\<close>
  is returned only for a message that was not recorded, and then the record and the handler's
  effect are committed together; \<open>Duplicate\<close> only for a recorded one, and then nothing changes;
  an error leaves the data alone or, if the commit was applied and its acknowledgement lost,
  with the record and the effect together. There is no outcome with one and not the other.\<close>

theorem process_is_atomic:
  assumes "backend d com st live S" and "con_store self = S"
    and "handler_in_tx (db_committed com) (tx_view st) live R h"
    and "process self m h w = (r, w')"
  shows "process_post R (key_of (con_id self) m) (db_committed com w) r (db_committed com w')"
  by (rule claim_contract.process_atomic [OF backend_claim_contract [OF assms(1)] assms(2-4)])

lemma process_is_atomic_witness:
  "\<exists>w'. process (pg_orders calm) (msg ''m1'') (ref_handler (\<lambda>_. Suc) [] (msg ''m1'')) sample_world =
       (Inr (Processed ()), w') \<and>
     process_post (app_effect (\<lambda>_. Suc) (msg ''m1'')) (key_of orders (msg ''m1''))
       (db_committed ref_com sample_world) (Inr (Processed ())) (db_committed ref_com w')"
proof -
  let ?run = "process (pg_orders calm) (msg ''m1'') (ref_handler (\<lambda>_. Suc) [] (msg ''m1'')) sample_world"
  have "fst ?run = Inr (Processed ())" by code_simp
  then have run: "?run = (Inr (Processed ()), snd ?run)" by (simp add: prod_eq_iff)
  with process_is_atomic [OF backend_ref(1) con_store_pg_orders(1) ref_handler_in_tx run]
  show ?thesis by auto
qed

subsection \<open>A history of deliveries\<close>

text \<open>What a broker does with at-least-once delivery: messages arrive, some of them again, in any
  order; each delivery is one call of \<open>process\<close>, and a delivery that fails may or may not be
  among the later ones.\<close>

fun deliver_all ::
  "('tx, 'w, 'z) inbox_ops_scheme consumer \<Rightarrow> ('x \<Rightarrow> message_id) \<Rightarrow> ('x \<Rightarrow> ('t, 'tx, 'w) handler) \<Rightarrow>
   'x list \<Rightarrow> 'w \<Rightarrow> (inbox_error + 't outcome) list \<times> 'w" where
  "deliver_all self ident h [] w = ([], w)"
| "deliver_all self ident h (x # xs) w =
     (case process self (ident x) (h x) w of
        (r, w1) \<Rightarrow> (case deliver_all self ident h xs w1 of (rs, w') \<Rightarrow> (r # rs, w')))"

text \<open>What the data look like after the deliveries in \<open>xs\<close> took effect, once each.\<close>

definition effects_once ::
  "consumer_id \<Rightarrow> ('x \<Rightarrow> message_id) \<Rightarrow> ('x \<Rightarrow> 'u \<Rightarrow> 'u) \<Rightarrow> 'x list \<Rightarrow> 'u inbox_state \<Rightarrow> 'u inbox_state \<Rightarrow> bool" where
  "effects_once c ident eff xs s s' \<longleftrightarrow>
     distinct (map ident xs) \<and> (\<forall>x\<in>set xs. key_of c (ident x) \<notin> seen s) \<and>
     seen s' = seen s \<union> (\<lambda>x. key_of c (ident x)) ` set xs \<and> app s' = fold eff xs (app s)"

lemma effects_once_Nil [simp]: "effects_once c ident eff [] s s"
  by (simp add: effects_once_def)

lemma effects_once_append:
  assumes "effects_once c ident eff xs s s1" and "effects_once c ident eff ys s1 s'"
  shows "effects_once c ident eff (xs @ ys) s s'"
proof -
  have ys: "\<forall>y\<in>set ys. key_of c (ident y) \<notin> seen s \<and> (\<forall>x\<in>set xs. ident x \<noteq> ident y)"
    using assms unfolding effects_once_def by (metis (no_types, lifting) UnI1 UnI2 image_eqI)
  then have "distinct (map ident (xs @ ys))"
    using assms by (auto simp: effects_once_def)
  then show ?thesis using assms ys by (auto simp: effects_once_def)
qed

text \<open>One delivery: no effect, or the first effect of its message; and success means recorded.\<close>

lemma process_post_effect:
  assumes "process_post (app_effect eff x) (key_of c (ident x)) s r s'"
  shows "(\<exists>xs. set xs \<subseteq> {x} \<and> effects_once c ident eff xs s s') \<and>
    (\<forall>out. r = Inr out \<longrightarrow> key_of c (ident x) \<in> seen s')"
proof -
  let ?k = "key_of c (ident x)"
  let ?done = "?k \<notin> seen s \<and> s' = (record_keys {?k} s)\<lparr>app := eff x (app s)\<rparr>"
  have "s' = s \<and> (\<forall>out. r = Inr out \<longrightarrow> ?k \<in> seen s') \<or> ?done"
    using assms by (auto simp: process_post_def app_effect_def split: sum.splits outcome.splits)
  then show ?thesis
  proof
    assume "s' = s \<and> (\<forall>out. r = Inr out \<longrightarrow> ?k \<in> seen s')"
    then show ?thesis by (intro conjI exI [of _ "[]"]) auto
  next
    assume "?done"
    then show ?thesis by (intro conjI exI [of _ "[x]"]) (simp_all add: effects_once_def)
  qed
qed

lemma effects_once_seen: "effects_once c ident eff xs s s' \<Longrightarrow> seen s \<subseteq> seen s'"
  by (auto simp: effects_once_def)

context claim_contract
begin

lemma deliver_all_once:
  assumes self: "con_store self = S"
    and h: "\<And>x. handler_in_tx committed view live (app_effect eff x) (h x)"
    and "deliver_all self ident h xs w = (rs, w')"
  shows "(\<exists>ys. set ys \<subseteq> set xs \<and> effects_once (con_id self) ident eff ys (committed w) (committed w')) \<and>
    (\<forall>(x, r)\<in>set (zip xs rs). \<forall>out. r = Inr out \<longrightarrow> key_of (con_id self) (ident x) \<in> seen (committed w'))"
  using assms(3)
proof (induction xs arbitrary: w rs)
  case Nil
  then show ?case by (auto intro!: exI [of _ "[]"])
next
  case (Cons x xs)
  let ?c = "con_id self"
  obtain r w1 where r: "process self (ident x) (h x) w = (r, w1)" by (metis prod.collapse)
  obtain rs1 where rs: "deliver_all self ident h xs w1 = (rs1, w')" "rs = r # rs1"
    using Cons.prems r by (auto split: prod.splits)
  obtain ys where ys: "set ys \<subseteq> {x}" "effects_once ?c ident eff ys (committed w) (committed w1)"
    and now: "\<forall>out. r = Inr out \<longrightarrow> key_of ?c (ident x) \<in> seen (committed w1)"
    using process_post_effect [of eff x ?c ident, OF process_atomic [OF self h r]] by blast
  obtain zs where zs: "set zs \<subseteq> set xs" "effects_once ?c ident eff zs (committed w1) (committed w')"
    and later: "\<forall>(x, r)\<in>set (zip xs rs1). \<forall>out. r = Inr out \<longrightarrow> key_of ?c (ident x) \<in> seen (committed w')"
    using Cons.IH [OF rs(1)] by blast
  have "set (ys @ zs) \<subseteq> set (x # xs) \<and> effects_once ?c ident eff (ys @ zs) (committed w) (committed w')"
    using ys zs effects_once_append by fastforce
  moreover have "\<forall>(x, r)\<in>set (zip (x # xs) rs). \<forall>out. r = Inr out \<longrightarrow> key_of ?c (ident x) \<in> seen (committed w')"
    using later now effects_once_seen [OF zs(2)] rs(2) by auto
  ultimately show ?case by blast
qed

end

text \<open>C1: at most once, for a whole history. Over any sequence of deliveries, with any repetitions and
  with any failures of the database along the way, each message takes effect at most once: the
  data after the history are the data before it with the effects of some of the deliveries
  applied, no two of them of the same message and none of a message already recorded, and
  exactly those are newly recorded. A delivery that was reported as processed or duplicate, and
  which a consumer may therefore acknowledge, is recorded.\<close>

theorem deliveries_take_effect_once:
  assumes "backend d com st live S" and "con_store self = S"
    and "\<And>x. handler_in_tx (db_committed com) (tx_view st) live (app_effect eff x) (h x)"
    and "deliver_all self ident h xs w = (rs, w')"
  shows "(\<exists>ys. set ys \<subseteq> set xs \<and>
      effects_once (con_id self) ident eff ys (db_committed com w) (db_committed com w')) \<and>
    (\<forall>(x, r)\<in>set (zip xs rs). \<forall>out. r = Inr out \<longrightarrow>
      key_of (con_id self) (ident x) \<in> seen (db_committed com w'))"
  by (rule claim_contract.deliver_all_once [OF backend_claim_contract [OF assms(1)] assms(2-4)])

text \<open>The fifth step of the run below is the commit of the first delivery, and its
  acknowledgement is lost: the redelivery answers \<open>Duplicate\<close>, and the counter is 2 after five
  deliveries of two messages.\<close>

definition lossy :: "nat \<Rightarrow> fault" where
  "lossy n = (if n = 2 then Lost (OtherSqlx (lit ''gone'')) else if n = 4 then Fail (OtherSqlx (lit ''down'')) else No_fault)"

lemma deliveries_take_effect_once_witness:
  "\<exists>rs w'. deliver_all (pg_orders lossy) msg (\<lambda>x. ref_handler (\<lambda>_. Suc) [] (msg x))
       [''a'', ''a'', ''b'', ''a'', ''b''] sample_world = (rs, w') \<and>
     snd (w_data w') = 2 \<and>
     (\<exists>ys. set ys \<subseteq> {''a'', ''b''} \<and>
        effects_once orders msg (\<lambda>_. Suc) ys (db_committed ref_com sample_world) (db_committed ref_com w'))"
proof -
  let ?run = "deliver_all (pg_orders lossy) msg (\<lambda>x. ref_handler (\<lambda>_. Suc) [] (msg x))
       [''a'', ''a'', ''b'', ''a'', ''b''] sample_world"
  have h: "handler_in_tx (db_committed ref_com) (tx_view ref_st) ref_live (app_effect (\<lambda>_. Suc) x)
      (ref_handler (\<lambda>_. Suc) [] (msg x))" for x
    using ref_handler_in_tx [of "\<lambda>_. Suc" "msg x" "[]"] by (simp add: handler_in_tx_def app_effect_def)
  have "snd (w_data (snd ?run)) = 2" by code_simp
  moreover have run: "?run = (fst ?run, snd ?run)" by simp
  ultimately show ?thesis
    using deliveries_take_effect_once [OF backend_ref(1) con_store_pg_orders(1) h run]
    by (intro exI [of _ "fst ?run"] exI [of _ "snd ?run"]) auto
qed

text \<open>A message that is already recorded never reaches a handler: with any two handlers, of
  any behaviour, \<open>process\<close> does the same.\<close>

theorem recorded_message_skips_handler:
  assumes "backend d com st live S" and "con_store self = S"
    and "key_of (con_id self) m \<in> seen (db_committed com w)"
  shows "process self m h w = process self m g w"
  by (rule claim_contract.process_known_ignores_handler [OF backend_claim_contract [OF assms(1)] assms(2,3)])

definition recorded_world :: "nat ref_world" where
  "recorded_world =
     sample_world\<lparr>w_data := ([(key_of orders (msg ''m1''), \<lparr>processed_at = 0, claim_token = None\<rparr>)], 1)\<rparr>"

lemma recorded_message_skips_handler_witness:
  "key_of orders (msg ''m1'') \<in> seen (db_committed ref_com recorded_world) \<and>
   process (pg_orders calm) (msg ''m1'') (ref_handler (\<lambda>_. Suc) [] (msg ''m1'')) recorded_world =
   process (pg_orders calm) (msg ''m1'') (ref_handler (\<lambda>_. Suc) [msg ''m1''] (msg ''m1'')) recorded_world"
proof -
  have known: "key_of (con_id (pg_orders calm)) (msg ''m1'') \<in> seen (db_committed ref_com recorded_world)"
    by (simp add: recorded_world_def ref_com_def)
  then show ?thesis
    using recorded_message_skips_handler [OF backend_ref(1) con_store_pg_orders(1) known] by simp
qed

text \<open>A handler's error. Once the claim is fresh and the handler has failed, \<open>process\<close>
  returns exactly the handler's error, even if the rollback fails too, and nothing is
  committed: the claim is free for a retry.\<close>

theorem handler_error_rolls_back:
  assumes "backend d com st live S" and "con_store self = S"
    and "op_begin S w = (Inr tx, w1)" and "consumer_claim self m tx w1 = (Inr Fresh, tx2, w2)"
    and "h tx2 w2 = (Inl e, tx3, w3)" and "com w3 = com w2"
    and "process self m h w = (r, w')"
  shows "r = Inl (Handler e) \<and> db_committed com w' = db_committed com w"
proof -
  have "db_committed com w3 = db_committed com w2" using assms(6) by simp
  from claim_contract.process_handler_error [OF backend_claim_contract [OF assms(1)] assms(2-5) this assms(7)]
  show ?thesis .
qed

lemma handler_error_rolls_back_witness:
  "\<exists>w'. process (pg_orders calm) (msg ''m1'') (ref_handler (\<lambda>_. Suc) [msg ''m1''] (msg ''m1'')) sample_world =
       (Inl (Handler (lit ''refused'')), w') \<and>
     db_committed ref_com w' = db_committed ref_com sample_world"
proof -
  let ?h = "ref_handler (\<lambda>_. Suc) [msg ''m1''] (msg ''m1'')" and ?S = "pg_store (ref_driver calm)"
  let ?run = "process (pg_orders calm) (msg ''m1'') ?h sample_world"
  let ?b = "op_begin ?S sample_world"
  let ?c = "consumer_claim (pg_orders calm) (msg ''m1'') (projr (fst ?b)) (snd ?b)"
  have "isl (fst ?b) = False" by code_simp
  then have b: "?b = (Inr (projr (fst ?b)), snd ?b)" by (simp add: prod_eq_iff)
  have "fst ?c = Inr Fresh" by code_simp
  then have c: "?c = (Inr Fresh, fst (snd ?c), snd (snd ?c))" by (simp add: prod_eq_iff)
  have h: "?h (fst (snd ?c)) (snd (snd ?c)) =
      (Inl (lit ''refused''), (fst (snd ?c))\<lparr>tx_data := apsnd Suc (tx_data (fst (snd ?c)))\<rparr>, snd (snd ?c))"
    by (simp add: ref_handler_def)
  have run: "?run = (fst ?run, snd ?run)" by simp
  from handler_error_rolls_back [OF backend_ref(1) con_store_pg_orders(1) b c h refl run]
  show ?thesis by (metis prod.collapse)
qed

subsection \<open>Batches\<close>

text \<open>C17: \<open>claim_many\<close> answers like one claim after the other. It sends each id once, in byte
  order, yet the answers come in input order and are those of claiming the ids one by one in the
  transaction: \<open>Fresh\<close> at the first occurrence of an id that was not recorded, \<open>Duplicate\<close>
  everywhere else; all ids are recorded in the transaction and nothing is committed. The lookup
  the code guards with \<open>expect\<close> never fails.\<close>

theorem claim_many_answers_in_order:
  assumes "backend d com st live S" and "con_store self = S" and "live tx w"
    and "consumer_claim_many self ids tx w = (r, tx', w')"
  shows "r \<noteq> None \<and> db_committed com w' = db_committed com w \<and>
    (\<forall>cs. r = Some (Inr cs) \<longrightarrow>
       cs = answer_each (con_id self) (seen (tx_view st tx)) ids \<and>
       tx_view st tx' = record_keys (key_of (con_id self) ` set ids) (tx_view st tx) \<and> live tx' w')"
  by (rule inbox_contract.consumer_claim_many_ok [OF backend_inbox_contract [OF assms(1)] assms(2-4)])

definition sample_tx :: "nat ref_tx" where
  "sample_tx = \<lparr>tx_data = w_data recorded_world, tx_saved = [], tx_vars = w_vars recorded_world, tx_aborted = False\<rparr>"

lemma ref_live_sample [simp]: "ref_live sample_tx recorded_world"
  by (simp add: ref_live_def sample_tx_def recorded_world_def tokens_of_def List.map_filter_simps)

lemma claim_many_answers_in_order_witness:
  "\<exists>tx' w'. consumer_claim_many (pg_orders calm) [msg ''z'', msg ''m1'', msg ''a'', msg ''z''] sample_tx recorded_world =
       (Some (Inr [Fresh, Duplicate, Fresh, Duplicate]), tx', w') \<and>
     [Fresh, Duplicate, Fresh, Duplicate] =
       answer_each orders (seen (tx_view ref_st sample_tx)) [msg ''z'', msg ''m1'', msg ''a'', msg ''z'']"
proof -
  let ?run = "consumer_claim_many (pg_orders calm) [msg ''z'', msg ''m1'', msg ''a'', msg ''z''] sample_tx recorded_world"
  have "fst ?run = Some (Inr [Fresh, Duplicate, Fresh, Duplicate])" by code_simp
  then have run: "?run = (Some (Inr [Fresh, Duplicate, Fresh, Duplicate]), fst (snd ?run), snd (snd ?run))"
    by (simp add: prod_eq_iff)
  note answered = claim_many_answers_in_order [OF backend_ref(1) con_store_pg_orders(1) ref_live_sample run,
    unfolded con_store_pg_orders(2), THEN conjunct2, THEN conjunct2, THEN spec, THEN mp, OF refl, THEN conjunct1]
  from run answered show ?thesis by blast
qed

text \<open>C18: the batch statement of a backend is an optimisation of the trait's default loop. For the
  batches the consumer sends (each id once, in byte order), if the backend's \<open>claim_many\<close> and
  the default \<open>claim_many\<close> over its \<open>claim\<close> both answer, they give the same claims in the same
  order, leave the same data in the transaction, and commit nothing.\<close>

theorem claim_many_equals_default_loop:
  assumes "backend d com st live S" and "live tx w"
    and "distinct (batch_ids b)" and "sorted (batch_ids b)"
    and "op_claim_many S b tx w = (Inr cs, tx1, w1)"
    and "default_claim_many (op_claim S) b tx w = (Inr ds, tx2, w2)"
  shows "cs = ds \<and> tx_view st tx1 = tx_view st tx2 \<and>
    db_committed com w1 = db_committed com w \<and> db_committed com w2 = db_committed com w"
  using inbox_contract.claim_many_ok [OF backend_inbox_contract [OF assms(1)] assms(2-5)]
    claim_contract.claim_each_ok [OF backend_claim_contract [OF assms(1)] assms(2,3)
      assms(6) [unfolded default_claim_many_def]]
  by simp

lemma claim_many_equals_default_loop_witness:
  "\<exists>cs tx1 w1 tx2 w2. op_claim_many (mysql_store (ref_driver calm)) (claim_batch_new orders [msg ''a'', msg ''m1'', msg ''z''])
       sample_tx recorded_world = (Inr cs, tx1, w1) \<and>
     default_claim_many (op_claim (mysql_store (ref_driver calm))) (claim_batch_new orders [msg ''a'', msg ''m1'', msg ''z''])
       sample_tx recorded_world = (Inr cs, tx2, w2) \<and>
     cs = [Fresh, Duplicate, Fresh] \<and> tx_view ref_st tx1 = tx_view ref_st tx2"
proof -
  let ?S = "mysql_store (ref_driver calm)" and ?b = "claim_batch_new orders [msg ''a'', msg ''m1'', msg ''z'']"
  let ?x = "op_claim_many ?S ?b sample_tx recorded_world"
  let ?y = "default_claim_many (op_claim ?S) ?b sample_tx recorded_world"
  have "fst ?x = Inr [Fresh, Duplicate, Fresh]" by code_simp
  then have x: "?x = (Inr [Fresh, Duplicate, Fresh], fst (snd ?x), snd (snd ?x))" by (simp add: prod_eq_iff)
  have "fst ?y = Inr [Fresh, Duplicate, Fresh]" by code_simp
  then have y: "?y = (Inr [Fresh, Duplicate, Fresh], fst (snd ?y), snd (snd ?y))" by (simp add: prod_eq_iff)
  have "distinct (batch_ids ?b)" by code_simp
  moreover have "sorted (batch_ids ?b)" by code_simp
  ultimately have "tx_view ref_st (fst (snd ?x)) = tx_view ref_st (fst (snd ?y))"
    using claim_many_equals_default_loop [OF backend_ref(3) ref_live_sample _ _ x y] by blast
  with x y show ?thesis by blast
qed

text \<open>C5: \<open>process_many\<close> on a SQL backend is one atomic transaction in which each message settles
  on its own, whatever fails. The call never panics. When it returns results, they and the
  committed data are those of the batch specification: the messages are taken in order, a fresh
  message whose handler succeeds moves the data by its effect, one whose handler fails leaves
  what was there before it and gives up its claim, a duplicate changes nothing. When it returns
  an error, nothing is committed or, if only the acknowledgement of the final commit was lost,
  the whole batch is.\<close>

theorem process_many_is_atomic:
  assumes "backend d com st live S" and "con_store self = S"
    and "handler_in_savepoint (db_committed com) (tx_view st) live (tx_savepoint st) R h"
    and "process_many self ids h w = (r, w')"
  shows "process_many_post (con_id self) R ids (db_committed com w) r (db_committed com w')"
  by (rule savepoints_contract.process_many_atomic [OF backend_contract [OF assms(1)] assms(2-4)])

text \<open>In the batch below \<open>bad\<close> fails and is repeated, \<open>m1\<close> was recorded before.\<close>

definition sample_batch :: "message_id list" where
  "sample_batch = [msg ''a'', msg ''bad'', msg ''m1'', msg ''bad'', msg ''a'', msg ''b'']"

definition sample_results :: "unit process_result list" where
  "sample_results =
     [Inr (Processed ()), Inl (lit ''refused''), Inr DuplicateOutcome,
      Inl (repeat_of_failed (msg ''bad'')), Inr DuplicateOutcome, Inr (Processed ())]"

lemma process_many_is_atomic_witness:
  "\<exists>w'. process_many (pg_orders calm) sample_batch (ref_handler (\<lambda>_. Suc) [msg ''bad'']) recorded_world =
       (Some (Inr sample_results), w') \<and> snd (w_data w') = 3 \<and>
     process_many_post orders (app_effect (\<lambda>_. Suc)) sample_batch (db_committed ref_com recorded_world)
       (Some (Inr sample_results)) (db_committed ref_com w')"
proof -
  let ?run = "process_many (pg_orders calm) sample_batch (ref_handler (\<lambda>_. Suc) [msg ''bad'']) recorded_world"
  have n: "snd (w_data (snd ?run)) = 3" by code_simp
  have "fst ?run = Some (Inr sample_results)" by code_simp
  then have run: "?run = (Some (Inr sample_results), snd ?run)" by (simp add: prod_eq_iff)
  from process_many_is_atomic [OF backend_ref(1) con_store_pg_orders(1) ref_handler_in_savepoint run]
  show ?thesis using run n unfolding con_store_pg_orders(2) by blast
qed

text \<open>C6: the results of a batch are what a consumer may acknowledge by. There is one result per
  position; a position is \<open>Ok\<close> exactly when its message is recorded afterwards, so two
  positions of one message never disagree; no other message's record is touched; the
  application's data have changed by exactly the effects of the positions reported as processed,
  in order, each message once and none that was recorded before.\<close>

theorem process_many_settles:
  assumes "backend d com st live S" and "con_store self = S"
    and "handler_in_savepoint (db_committed com) (tx_view st) live (tx_savepoint st) (app_effect eff) h"
    and "process_many self ids h w = (Some (Inr rs), w')"
  shows "length rs = length ids \<and>
    (\<forall>i<length ids. key_of (con_id self) (ids ! i) \<in> seen (db_committed com w') \<longleftrightarrow> (\<exists>out. rs ! i = Inr out)) \<and>
    (\<forall>k. k \<notin> key_of (con_id self) ` set ids \<longrightarrow>
       (k \<in> seen (db_committed com w') \<longleftrightarrow> k \<in> seen (db_committed com w))) \<and>
    app (db_committed com w') = fold eff (processed_ids ids rs) (app (db_committed com w)) \<and>
    distinct (processed_ids ids rs) \<and>
    (\<forall>m\<in>set (processed_ids ids rs). key_of (con_id self) m \<notin> seen (db_committed com w))"
proof -
  have "batch_outcome (con_id self) (app_effect eff) ids (db_committed com w) rs (db_committed com w')"
    using savepoints_contract.process_many_atomic [OF backend_contract [OF assms(1)] assms(2-4)]
    by (simp add: process_many_post_def)
  note settled = batch_outcome_settles [OF this]
  show ?thesis by (intro conjI allI impI settled settled(5) [THEN conjunct1] settled(5) [THEN conjunct2])
qed

lemma process_many_settles_witness:
  "\<exists>w'. process_many (pg_orders calm) sample_batch (ref_handler (\<lambda>_. Suc) [msg ''bad'']) recorded_world =
       (Some (Inr sample_results), w') \<and>
     key_of orders (msg ''bad'') \<notin> seen (db_committed ref_com w') \<and>
     app (db_committed ref_com w') = fold (\<lambda>_. Suc) (processed_ids sample_batch sample_results) 1"
proof -
  let ?run = "process_many (pg_orders calm) sample_batch (ref_handler (\<lambda>_. Suc) [msg ''bad'']) recorded_world"
  have "fst ?run = Some (Inr sample_results)" by code_simp
  then have run: "?run = (Some (Inr sample_results), snd ?run)" by (simp add: prod_eq_iff)
  note settled = process_many_settles [OF backend_ref(1) con_store_pg_orders(1) ref_handler_in_savepoint run,
    unfolded con_store_pg_orders(2)]
  have "sample_results ! 1 = Inl (lit ''refused'')" "sample_batch ! 1 = msg ''bad''" "1 < length sample_batch"
    by (simp_all add: sample_results_def sample_batch_def)
  with settled have "key_of orders (msg ''bad'') \<notin> seen (db_committed ref_com (snd ?run))" by force
  moreover have "app (db_committed ref_com recorded_world) = 1" by (simp add: ref_com_def recorded_world_def)
  ultimately show ?thesis using run settled by metis
qed

subsection \<open>The look-up without a transaction\<close>

text \<open>C28: \<open>is_known_duplicate\<close> on the SQL backends is exact and read-only: when it answers, it says
  whether the message is recorded in the committed data, and it changes nothing, so a consumer
  that skips a message on a positive answer skips only what \<open>process\<close> would call a duplicate.\<close>

theorem known_duplicate_is_exact:
  assumes "backend d com st live S" and "con_store self = S"
    and "consumer_is_known_duplicate self m w = (r, w')"
  shows "db_committed com w' = db_committed com w \<and>
    (\<forall>b. r = Inr b \<longrightarrow> b = (key_of (con_id self) m \<in> seen (db_committed com w)))"
proof -
  have "op_is_known_duplicate S (con_id self) m w = (case drv_pool d (Select_exists (consumer_str (con_id self)) (message_str m)) w of
      (Inl e, w1) \<Rightarrow> (Inl (inbox_error_from_sqlx e), w1) | (Inr y, w1) \<Rightarrow> (Inr (flag y), w1))"
    using assms(1) unfolding backend_def
    by (auto simp: pg_is_known_duplicate_def mysql_is_known_duplicate_def sqlite_is_known_duplicate_def
        pg_sql_defs mysql_sql_defs sqlite_sql_defs)
  moreover have "op_is_known_duplicate S (con_id self) m w = (r, w')"
    using assms(2,3) by (simp add: consumer_is_known_duplicate_def)
  moreover have "sql_driver d com st live" using assms(1) by (simp add: backend_def)
  ultimately show ?thesis
    by (intro sql_driver.pool_known_duplicate [of d com st live]) (simp_all only:)
qed

lemma known_duplicate_is_exact_witness:
  "\<exists>w'. consumer_is_known_duplicate (pg_orders calm) (msg ''m1'') recorded_world = (Inr True, w') \<and>
     key_of orders (msg ''m1'') \<in> seen (db_committed ref_com recorded_world)"
proof -
  let ?run = "consumer_is_known_duplicate (pg_orders calm) (msg ''m1'') recorded_world"
  have "fst ?run = Inr True" by code_simp
  then have run: "?run = (Inr True, snd ?run)" by (simp add: prod_eq_iff)
  note known = known_duplicate_is_exact [OF backend_ref(1) con_store_pg_orders(1) run,
    unfolded con_store_pg_orders(2), THEN conjunct2, THEN spec, THEN mp, OF refl]
  from run known show ?thesis by blast
qed

subsection \<open>Limits of the guarantee\<close>

text \<open>The MySQL batch claim rests on its token. If two calls draw the same token, the second
  reads the first one's rows as its own: it answers \<open>Fresh\<close> for a message that is already
  recorded, and its handler would run a second time.\<close>

theorem mysql_repeated_token_claims_twice:
  "\<exists>tx1 w1 tx2 w2. mysql_claim_many ((ref_driver calm)\<lparr>drv_random := \<lambda>w. (Inr 7, w)\<rparr>)
       (claim_batch_new orders [msg ''a'']) sample_tx recorded_world = (Inr [Fresh], tx1, w1) \<and>
     key_of orders (msg ''a'') \<in> seen (tx_view ref_st tx1) \<and>
     mysql_claim_many ((ref_driver calm)\<lparr>drv_random := \<lambda>w. (Inr 7, w)\<rparr>)
       (claim_batch_new orders [msg ''a'']) tx1 w1 = (Inr [Fresh], tx2, w2)"
proof -
  let ?d = "(ref_driver calm)\<lparr>drv_random := \<lambda>w. (Inr 7, w)\<rparr>" and ?b = "claim_batch_new orders [msg ''a'']"
  let ?x = "mysql_claim_many ?d ?b sample_tx recorded_world"
  let ?y = "mysql_claim_many ?d ?b (fst (snd ?x)) (snd (snd ?x))"
  have "fst ?x = Inr [Fresh]" by code_simp
  then have x: "?x = (Inr [Fresh], fst (snd ?x), snd (snd ?x))" by (simp add: prod_eq_iff)
  have "key_of orders (msg ''a'') \<in> set (map fst (fst (tx_data (fst (snd ?x)))))" by code_simp
  then have a: "key_of orders (msg ''a'') \<in> seen (tx_view ref_st (fst (snd ?x)))"
    by (simp add: dom_map_of_conv_image_fst)
  have "fst ?y = Inr [Fresh]" by code_simp
  then have y: "?y = (Inr [Fresh], fst (snd ?y), snd (snd ?y))" by (simp add: prod_eq_iff)
  from x a y show ?thesis by blast
qed




text \<open>A store that does what \<open>S\<close> does and loses the acknowledgement of every commit: the answer is the error \<open>e\<close>.\<close>

definition lost_ack :: "inbox_error \<Rightarrow> ('tx, 'w, 'z) inbox_ops_scheme \<Rightarrow> ('tx, 'w, 'z) inbox_ops_scheme" where
  "lost_ack e S = S\<lparr>op_commit := \<lambda>tx w. (Inl e, snd (op_commit S tx w))\<rparr>"

definition unacknowledged :: "inbox_error \<Rightarrow> ('tx, 'w, 'z) inbox_ops_scheme consumer \<Rightarrow> ('tx, 'w, 'z) inbox_ops_scheme consumer" where
  "unacknowledged e self = self\<lparr>con_store := lost_ack e (con_store self)\<rparr>"

lemma unacknowledged_simps [simp]:
  fixes self :: "('tx, 'w, 'z) savepoint_ops_scheme consumer"
  shows "con_id (unacknowledged e self) = con_id self" "con_lock_timeout (unacknowledged e self) = con_lock_timeout self"
    "op_begin (con_store (unacknowledged e self)) = op_begin (con_store self)"
    "op_commit (con_store (unacknowledged e self)) tx w = (Inl e, snd (op_commit (con_store self) tx w))"
    "op_drop (con_store (unacknowledged e self)) = op_drop (con_store self)"
    "op_claim_many (con_store (unacknowledged e self)) = op_claim_many (con_store self)"
    "op_savepoint (con_store (unacknowledged e self)) = op_savepoint (con_store self)"
    "op_release_and_savepoint (con_store (unacknowledged e self)) = op_release_and_savepoint (con_store self)"
    "op_release (con_store (unacknowledged e self)) = op_release (con_store self)"
    "op_rollback_to (con_store (unacknowledged e self)) = op_rollback_to (con_store self)"
    "op_unclaim (con_store (unacknowledged e self)) = op_unclaim (con_store self)"
  by (simp_all add: unacknowledged_def lost_ack_def)

lemma batch_loop_unacknowledged:
  fixes self :: "('tx, 'w, 'z) savepoint_ops_scheme consumer"
  shows "batch_loop (unacknowledged e self) h ps n failed rs tx w = batch_loop self h ps n failed rs tx w"
proof (induction ps arbitrary: n failed rs tx w)
  case (Cons p ps)
  obtain ident c where p: "p = (ident, c)" by (cases p)
  have "settle_fresh (unacknowledged e self) h (n - 1) ident tx w = settle_fresh self h (n - 1) ident tx w"
    by (simp add: settle_fresh_def run_handler_def split: prod.split sum.split)
  then show ?case by (cases c) (simp_all add: p Cons.IH split: prod.split sum.split)
qed simp

lemma process_many_unacknowledged:
  fixes self :: "('tx, 'w, 'z) savepoint_ops_scheme consumer"
  assumes "process_many self ids h w = (Some (Inr rs), w')" and "ids \<noteq> []"
  shows "process_many (unacknowledged e self) ids h w = (Some (Inl e), w')"
proof -
  have "consumer_claim_many (unacknowledged e self) = consumer_claim_many self"
    by (intro ext) (simp add: consumer_claim_many_def)
  with assms show ?thesis
    by (auto simp: process_many_def process_claimed_def batch_loop_unacknowledged Let_def
        split: prod.splits sum.splits option.splits if_splits)
qed

text \<open>C35: an error from \<open>process_many\<close> does not say that nothing was committed. Whenever a batch would return results, the
  same call on the same backend returns the error instead when the acknowledgement of its commit is lost, and
  leaves the same world: the whole batch is committed, with the results the caller never sees.\<close>

theorem process_many_error_after_commit:
  assumes "backend d com st live S" and "con_store self = S"
    and "handler_in_savepoint (db_committed com) (tx_view st) live (tx_savepoint st) (app_effect eff) h"
    and "ids \<noteq> []" and "process_many self ids h w = (Some (Inr rs), w')"
  shows "process_many (unacknowledged e self) ids h w = (Some (Inl e), w') \<and>
    (\<forall>i<length ids. key_of (con_id self) (ids ! i) \<in> seen (db_committed com w') \<longleftrightarrow> (\<exists>out. rs ! i = Inr out)) \<and>
    app (db_committed com w') = fold eff (processed_ids ids rs) (app (db_committed com w))"
proof -
  have "batch_outcome (con_id self) (app_effect eff) ids (db_committed com w) rs (db_committed com w')"
    using savepoints_contract.process_many_atomic [OF backend_contract [OF assms(1)] assms(2,3,5)]
    by (simp add: process_many_post_def)
  note settled = batch_outcome_settles [OF this]
  show ?thesis
    by (intro conjI allI impI settled process_many_unacknowledged [OF assms(5,4)])
qed

lemma process_many_error_after_commit_witness:
  "\<exists>w'. process_many (unacknowledged (Backend (BoxMsg (lit ''connection lost''))) (pg_orders calm)) sample_batch (ref_handler (\<lambda>_. Suc) [msg ''bad'']) recorded_world =
       (Some (Inl (Backend (BoxMsg (lit ''connection lost'')))), w') \<and> key_of orders (msg ''a'') \<in> seen (db_committed ref_com w') \<and>
     app (db_committed ref_com w') = fold (\<lambda>_. Suc) (processed_ids sample_batch sample_results) (app (db_committed ref_com recorded_world))"
proof -
  let ?run = "process_many (pg_orders calm) sample_batch (ref_handler (\<lambda>_. Suc) [msg ''bad'']) recorded_world"
  have "fst ?run = Some (Inr sample_results)" by code_simp
  then have run: "?run = (Some (Inr sample_results), snd ?run)" by (simp add: prod_eq_iff)
  have ids: "sample_batch \<noteq> []" "0 < length sample_batch" "sample_batch ! 0 = msg ''a''" "sample_results ! 0 = Inr (Processed ())"
    by (simp_all add: sample_batch_def sample_results_def)
  note lost = process_many_error_after_commit [OF backend_ref(1) con_store_pg_orders(1) ref_handler_in_savepoint ids(1) run,
    where e = "Backend (BoxMsg (lit ''connection lost''))", unfolded con_store_pg_orders(2)]
  from lost ids(2-4) have "key_of orders (msg ''a'') \<in> seen (db_committed ref_com (snd ?run))" by metis
  with lost show ?thesis by blast
qed

end
