(* ===== verification/Lock_Timeout.thy ===== *)
theory Lock_Timeout
  imports Delivery
begin

text \<open>
  Waiting for a row: the lock timeouts the backends send, what they do to the MySQL session that
  is shared with other code, and which errors they report as contention.
\<close>

subsection \<open>The values sent\<close>

definition nanos :: "duration \<Rightarrow> nat" where
  "nanos t = unat (dur_secs t) * 1000000000 + unat (dur_nanos t)"

lemma ceil_bounds:
  fixes n b :: nat
  assumes "0 < b" and "k = max 1 ((n + (b - 1)) div b)"
  shows "1 \<le> k" and "n \<le> k * b" and "1 < k \<Longrightarrow> (k - 1) * b < n"
proof -
  let ?q = "(n + (b - 1)) div b"
  have split: "n + (b - 1) = ?q * b + (n + (b - 1)) mod b" by simp
  have lt: "(n + (b - 1)) mod b < b" using assms(1) by simp
  show "1 \<le> k" by (simp add: assms(2))
  have "n \<le> ?q * b" using split lt by linarith
  also have "\<dots> \<le> k * b" by (simp add: assms(2))
  finally show "n \<le> k * b" .
  assume "1 < k"
  then have k: "k = ?q" "0 < ?q" by (auto simp: assms(2) max_def split: if_splits)
  have "(k - 1) * b + b = k * b" using \<open>1 < k\<close> by (cases k) auto
  then have "(k - 1) * b + b = ?q * b" by (simp only: k(1))
  then show "(k - 1) * b < n" using split assms(1) k by linarith
qed

text \<open>C31: the PostgreSQL lock timeout is a whole number of milliseconds followed by \<open>ms\<close>. It is
  never zero, which PostgreSQL would read as no timeout at all; it is never shorter than what
  the caller asked for, and above the minimum it exceeds that by less than a millisecond.\<close>

theorem pg_lock_timeout_rounds_up:
  "\<exists>ms. pg_lock_timeout t = show_nat ms @ lit ''ms'' \<and> 1 \<le> ms \<and> nanos t \<le> ms * 1000000 \<and>
     (ms = 1 \<or> (ms - 1) * 1000000 < nanos t)"
proof -
  let ?ms = "max 1 ((nanos t + (1000000 - 1)) div 1000000)"
  have "unat (pg_lock_timeout_ms t) = ?ms"
    by (simp add: pg_lock_timeout_ms_def unat_max unat_div_ceil_nanos nanos_def max.commute)
  then have "pg_lock_timeout t = show_nat ?ms @ lit ''ms''" by (simp add: pg_lock_timeout_def)
  moreover note ceil_bounds [of 1000000 ?ms "nanos t", OF _ refl, simplified]
  ultimately show ?thesis by (intro exI [of _ ?ms]) (auto simp: not_less)
qed

text \<open>C32: the MySQL lock timeout is a whole number of seconds between 1 and MySQL's maximum, so the
  server takes it as it is. Unless it is that maximum, it is not shorter than what the caller
  asked for; above the minimum it exceeds that by less than a second. The \<open>u128\<close> to \<open>u64\<close>
  conversion never shows.\<close>

theorem mysql_lock_timeout_rounds_up:
  "let secs = unat (mysql_lock_timeout t)
   in 1 \<le> secs \<and> secs \<le> 1073741824 \<and> clamp_wait (mysql_lock_timeout t) = mysql_lock_timeout t \<and>
      (secs = 1073741824 \<or> nanos t \<le> secs * 1000000000) \<and>
      (secs = 1 \<or> (secs - 1) * 1000000000 < nanos t)"
proof -
  let ?s = "max 1 ((nanos t + (1000000000 - 1)) div 1000000000)"
  have secs: "unat (mysql_lock_timeout t) = min ?s 1073741824"
    by (simp add: unat_mysql_lock_timeout nanos_def)
  note b = ceil_bounds [of 1000000000 ?s "nanos t", OF _ refl]
  show ?thesis
  proof (cases "?s \<le> 1073741824")
    case True
    with secs have "unat (mysql_lock_timeout t) = ?s" by simp
    with b True show ?thesis by (auto simp: Let_def not_less)
  next
    case False
    with secs have eq: "unat (mysql_lock_timeout t) = 1073741824" by simp
    have "(?s - 1) * 1000000000 < nanos t" using b(3) False by simp
    moreover have "(1073741824 - 1) * 1000000000 \<le> (?s - 1) * 1000000000" using False by (intro mult_right_mono) auto
    ultimately show ?thesis by (simp add: Let_def eq)
  qed
qed

subsection \<open>The lent session variable\<close>

text \<open>C22: a MySQL claim gives the session's timeout back. From a session at rest (nothing saved,
  as after \<open>BEGIN\<close>), a claim that answers leaves all session variables as they were, and no
  claim, whichever of its statements fails, loses the session's own value: it is in
  \<open>innodb_lock_wait_timeout\<close> or saved for the next \<open>BEGIN\<close>.\<close>

theorem mysql_claim_returns_timeout:
  assumes "mysql_driver d com st live" and "live tx w" and "at_rest (txn_vars (st tx))"
    and "mysql_claim d r tx w = (x, tx', w')"
  shows "own_wait (txn_vars (st tx')) = own_wait (txn_vars (st tx)) \<and>
    (\<forall>c. x = Inr c \<longrightarrow> txn_vars (st tx') = txn_vars (st tx))"
  by (rule mysql_driver.mysql_claim_session [OF assms])

definition hasty :: claim_request where
  "hasty = (claim_request_new orders (msg ''m2''))\<lparr>req_lock_timeout := Some \<lparr>dur_secs = 0, dur_nanos = 200000000\<rparr>\<rparr>"

text \<open>In the run below the insert fails; the third statement restores the variable.\<close>

lemma mysql_claim_returns_timeout_witness:
  "\<exists>e tx' w'. mysql_claim (ref_driver (\<lambda>n. if n = 1 then Fail (Database None (Some 1205)) else No_fault)) hasty
       sample_tx recorded_world = (Inl e, tx', w') \<and> e = Contended \<and>
     own_wait (txn_vars (ref_st tx')) = own_wait (txn_vars (ref_st sample_tx)) \<and> own_wait (tx_vars tx') = 50"
proof -
  let ?sv = "\<lambda>n. if n = 1 then Fail (Database None (Some 1205)) else No_fault"
  let ?run = "mysql_claim (ref_driver ?sv) hasty sample_tx recorded_world"
  have rest: "at_rest (txn_vars (ref_st sample_tx))"
    by (simp add: at_rest_def clamp_wait_def sample_tx_def recorded_world_def sample_world_def)
  have "fst ?run = Inl Contended" by code_simp
  then have run: "?run = (Inl Contended, fst (snd ?run), snd (snd ?run))" by (simp add: prod_eq_iff)
  note kept = mysql_claim_returns_timeout [OF ref_mysql.mysql_driver_axioms ref_live_sample rest run, THEN conjunct1]
  have "own_wait (txn_vars (ref_st sample_tx)) = 50"
    by (simp add: own_wait_def sample_tx_def recorded_world_def sample_world_def)
  with kept have "own_wait (tx_vars (fst (snd ?run))) = 50" by simp
  with run kept show ?thesis by blast
qed

text \<open>C33: \<open>BEGIN\<close> repairs what a cancelled claim left behind. A claim cancelled between setting
  its timeout and restoring the session's leaves the timeout in place; the next \<open>BEGIN\<close> on that
  connection brings every session variable back to what it was, and on a session at rest it
  changes nothing.\<close>

theorem mysql_begin_repairs_cancelled_claim:
  assumes "at_rest (txn_vars s)"
    and "sql_post csub now (mysql_SET_LOCK_TIMEOUT_SQL (mysql_lock_timeout t)) s r1 s1"
    and "sql_post csub now mysql_BEGIN_SQL s1 r2 s2"
  shows "innodb_lock_wait_timeout (txn_vars s1) = mysql_lock_timeout t \<and> s2 = s \<and>
    sql_post csub now mysql_BEGIN_SQL s r2 s"
proof -
  have s1: "s1 = s\<lparr>txn_vars := (txn_vars s)\<lparr>txbox_lock_wait_timeout := Some (innodb_lock_wait_timeout (txn_vars s)),
      innodb_lock_wait_timeout := mysql_lock_timeout t\<rparr>\<rparr>"
    using assms(2) by (simp add: mysql_SET_LOCK_TIMEOUT_SQL_def)
  with assms(1,3) have "s2 = s" by (simp add: mysql_BEGIN_SQL_def assign_begin own_wait_def at_rest_def del: assign.simps)
  moreover have "sql_post csub now mysql_BEGIN_SQL s r2 s"
    using assms(1) by (simp add: mysql_BEGIN_SQL_def assign_begin own_wait_def at_rest_def del: assign.simps)
  ultimately show ?thesis by (simp add: s1)
qed

definition waiting :: "nat txn" where
  "waiting = start_txn (w_vars sample_world) \<lparr>inbox_messages = Map.empty, rest = 0\<rparr>"

lemma at_rest_waiting: "at_rest (txn_vars waiting)"
  by (simp add: at_rest_def clamp_wait_def waiting_def sample_world_def)

definition lent :: "duration \<Rightarrow> nat txn \<Rightarrow> nat txn" where
  "lent t s = s\<lparr>txn_vars := (txn_vars s)\<lparr>txbox_lock_wait_timeout := Some (innodb_lock_wait_timeout (txn_vars s)),
      innodb_lock_wait_timeout := mysql_lock_timeout t\<rparr>\<rparr>"

lemma sql_post_lent: "sql_post ref_cutoff 0 (mysql_SET_LOCK_TIMEOUT_SQL (mysql_lock_timeout t)) s r (lent t s)"
  by (simp add: mysql_SET_LOCK_TIMEOUT_SQL_def lent_def)

lemma mysql_begin_repairs_cancelled_claim_witness:
  "sql_post ref_cutoff 0 mysql_BEGIN_SQL (lent \<lparr>dur_secs = 2, dur_nanos = 0\<rparr> waiting) (result_rows 0) waiting \<and>
   innodb_lock_wait_timeout (txn_vars (lent \<lparr>dur_secs = 2, dur_nanos = 0\<rparr> waiting)) =
     mysql_lock_timeout \<lparr>dur_secs = 2, dur_nanos = 0\<rparr>"
proof -
  let ?t = "\<lparr>dur_secs = 2, dur_nanos = 0\<rparr>"
  have "sql_post ref_cutoff 0 mysql_BEGIN_SQL (lent ?t waiting) (result_rows 0) waiting"
    by (simp add: mysql_BEGIN_SQL_def lent_def waiting_def start_txn_def sample_world_def clamp_wait_def)
  with mysql_begin_repairs_cancelled_claim [OF at_rest_waiting sql_post_lent this] show ?thesis by blast
qed

text \<open>C36: a second claim after a cancelled one loses the session's own timeout. If a claim is
  cancelled after it set its timeout and another claim runs in the same transaction, the second
  claim saves the first one's timeout as if it were the session's; its restore, and every
  \<open>BEGIN\<close> after it, puts that timeout in place for good.\<close>

theorem mysql_claim_after_cancel_loses_timeout:
  assumes "at_rest (txn_vars s)"
    and "sql_post csub now (mysql_SET_LOCK_TIMEOUT_SQL (mysql_lock_timeout t)) s r1 s1"
    and "sql_post csub now (mysql_SET_LOCK_TIMEOUT_SQL (mysql_lock_timeout t')) s1 r2 s2"
    and "sql_post csub now mysql_RESTORE_LOCK_TIMEOUT_SQL s2 r3 s3"
    and "sql_post csub now mysql_BEGIN_SQL s3 r4 s4"
  shows "at_rest (txn_vars s4) \<and> innodb_lock_wait_timeout (txn_vars s4) = mysql_lock_timeout t"
proof -
  have "s2 = s\<lparr>txn_vars := (txn_vars s)\<lparr>txbox_lock_wait_timeout := Some (mysql_lock_timeout t),
      innodb_lock_wait_timeout := mysql_lock_timeout t'\<rparr>\<rparr>"
    using assms(2,3) by (simp add: mysql_SET_LOCK_TIMEOUT_SQL_def)
  with assms(4) have "s3 = s\<lparr>txn_vars := (txn_vars s)\<lparr>txbox_lock_wait_timeout := None,
      innodb_lock_wait_timeout := mysql_lock_timeout t\<rparr>\<rparr>"
    by (simp add: mysql_RESTORE_LOCK_TIMEOUT_SQL_def)
  with assms(5) show ?thesis
    by (simp add: mysql_BEGIN_SQL_def at_rest_def)
qed

lemma mysql_claim_after_cancel_loses_timeout_witness:
  "innodb_lock_wait_timeout (txn_vars waiting) = 50 \<and>
   (\<exists>s4 :: nat txn. sql_post ref_cutoff 0 mysql_BEGIN_SQL s4 (result_rows 0) s4 \<and>
     innodb_lock_wait_timeout (txn_vars s4) = mysql_lock_timeout \<lparr>dur_secs = 2, dur_nanos = 0\<rparr>)"
proof -
  let ?t = "\<lparr>dur_secs = 2, dur_nanos = 0\<rparr>"
  let ?s3 = "waiting\<lparr>txn_vars := (txn_vars waiting)\<lparr>txbox_lock_wait_timeout := None,
      innodb_lock_wait_timeout := mysql_lock_timeout ?t\<rparr>\<rparr>"
  have restore: "sql_post ref_cutoff 0 mysql_RESTORE_LOCK_TIMEOUT_SQL (lent ?t (lent ?t waiting)) (result_rows 0) ?s3"
    by (simp add: mysql_RESTORE_LOCK_TIMEOUT_SQL_def lent_def)
  have again: "sql_post ref_cutoff 0 mysql_BEGIN_SQL ?s3 (result_rows 0) ?s3"
    by (simp add: mysql_BEGIN_SQL_def waiting_def start_txn_def sample_world_def)
  have "innodb_lock_wait_timeout (txn_vars waiting) = 50" by (simp add: waiting_def sample_world_def)
  with mysql_claim_after_cancel_loses_timeout [OF at_rest_waiting sql_post_lent sql_post_lent restore again] again
  show ?thesis by blast
qed

subsection \<open>Contention\<close>

text \<open>Which operations can report \<open>Contended\<close>: on the SQL backends the claims, and nothing else.\<close>

definition contends_in_claims :: "('tx, 'w) savepoint_ops \<Rightarrow> bool" where
  "contends_in_claims S \<longleftrightarrow>
     (\<forall>w. fst (op_begin S w) \<noteq> Inl Contended) \<and>
     (\<forall>tx w. fst (op_commit S tx w) \<noteq> Inl Contended \<and> fst (op_rollback S tx w) \<noteq> Inl Contended \<and>
        fst (op_savepoint S tx w) \<noteq> Inl Contended \<and> fst (op_release_and_savepoint S tx w) \<noteq> Inl Contended \<and>
        fst (op_release S tx w) \<noteq> Inl Contended \<and> fst (op_rollback_to S tx w) \<noteq> Inl Contended \<and>
        (\<forall>c m. fst (op_unclaim S c m tx w) \<noteq> Inl Contended))"

lemma sql_not_contended:
  "fst (sql_begin d q w) \<noteq> Inl Contended" "fst (sql_commit d tx w) \<noteq> Inl Contended"
  "fst (sql_rollback d tx w) \<noteq> Inl Contended" "fst (sql_execute d s tx w) \<noteq> Inl Contended"
  by (simp_all add: sql_begin_def sql_commit_def sql_rollback_def sql_execute_def map_err_Inl_iff inbox_error_from_sqlx_def
      split: prod.split sum.split)

lemma backend_contends_in_claims: "backend d com st live S \<Longrightarrow> contends_in_claims S"
  by (auto simp: backend_def contends_in_claims_def sql_not_contended pg_unclaim_def mysql_unclaim_def sqlite_unclaim_def)

lemma contends_in_claimsD:
  assumes "contends_in_claims S"
  shows "op_begin S w \<noteq> (Inl Contended, w')" "op_commit S tx w \<noteq> (Inl Contended, w')"
    "op_rollback S tx w \<noteq> (Inl Contended, w')" "op_savepoint S tx w \<noteq> (Inl Contended, tx', w')"
    "op_release_and_savepoint S tx w \<noteq> (Inl Contended, tx', w')" "op_release S tx w \<noteq> (Inl Contended, tx', w')"
    "op_rollback_to S tx w \<noteq> (Inl Contended, tx', w')" "op_unclaim S c m tx w \<noteq> (Inl Contended, tx', w')"
  using assms unfolding contends_in_claims_def by (metis fst_conv)+

lemma process_contended:
  assumes "contends_in_claims (con_store self)" and "process self m h w = (Inl Contended, w')"
  shows "\<exists>tx w1 tx2 w2. op_begin (con_store self) w = (Inr tx, w1) \<and>
    consumer_claim self m tx w1 = (Inl Contended, tx2, w2) \<and> w' = op_drop (con_store self) tx2 w2"
  using assms(2)
  by (auto simp: process_def process_fresh_def contends_in_claimsD [OF assms(1)] split: prod.splits sum.splits claim.splits)

lemma settle_fresh_not_contended:
  assumes "contends_in_claims (con_store self)"
  shows "settle_fresh self h n m tx w \<noteq> (Inl Contended, tx', w')"
proof -
  have "run_handler self h m tx w \<noteq> (Inl Contended, tx1, w1)" for tx1 w1
    by (auto simp: run_handler_def contends_in_claimsD [OF assms] split: prod.splits sum.splits)
  then show ?thesis
    by (auto simp: settle_fresh_def contends_in_claimsD [OF assms] split: prod.splits sum.splits if_splits)
qed

lemma batch_loop_not_contended:
  assumes "contends_in_claims (con_store self)"
  shows "batch_loop self h ps pending failed rs tx w \<noteq> (Some (Inl Contended), tx', w')"
  using assms
proof (induction self h ps pending failed rs tx w rule: batch_loop.induct)
  case (3 self h m ps pending failed rs tx w)
  obtain x tx1 w1 where x: "settle_fresh self h (pending - 1) m tx w = (x, tx1, w1)" by (metis prod_cases3)
  with settle_fresh_not_contended [OF 3(2), of h "pending - 1" m tx w] have "x \<noteq> Inl Contended" by auto
  with 3 x show ?case by (cases x) auto
qed simp_all

lemma process_many_contended:
  assumes "contends_in_claims (con_store self)" and "process_many self ids h w = (Some (Inl Contended), w')"
  shows "ids \<noteq> [] \<and> (\<exists>tx w1 tx2 w2. op_begin (con_store self) w = (Inr tx, w1) \<and>
    consumer_claim_many self ids tx w1 = (Some (Inl Contended), tx2, w2) \<and> w' = op_drop (con_store self) tx2 w2)"
  using assms(2)
  by (auto simp: process_many_def process_claimed_def Let_def contends_in_claimsD [OF assms(1)]
      batch_loop_not_contended [OF assms(1)] split: prod.splits sum.splits option.splits if_splits)

text \<open>C23: \<open>Contended\<close> can be retried. When \<open>process\<close> or \<open>process_many\<close> answers it, on any of the three backends, the claim was lost before
  a handler ran: nothing is committed, and with any other handlers the call would have ended the same way. No
  other operation reports it, so a failed commit, whose outcome is open, is never taken for contention.\<close>

theorem contended_leaves_no_trace:
  assumes "backend d com st live S" and "con_store self = S"
  shows "(process self m h w = (Inl Contended, w') \<longrightarrow>
      db_committed com w' = db_committed com w \<and> (\<forall>g. process self m g w = (Inl Contended, w'))) \<and>
    (process_many self ids hs w = (Some (Inl Contended), w') \<longrightarrow>
      db_committed com w' = db_committed com w \<and> (\<forall>gs. process_many self ids gs w = (Some (Inl Contended), w')))"
proof (intro conjI impI)
  have only: "contends_in_claims (con_store self)" using backend_contends_in_claims [OF assms(1)] assms(2) by simp
  note contract = backend_claim_contract [OF assms(1)]
  note laws = claim_contract.begin_ok [OF contract] claim_contract.drop_keeps [OF contract]
  {
    assume "process self m h w = (Inl Contended, w')"
    from process_contended [OF only this] obtain tx w1 tx2 w2 where run: "op_begin S w = (Inr tx, w1)"
      "consumer_claim self m tx w1 = (Inl Contended, tx2, w2)" "w' = op_drop S tx2 w2" unfolding assms(2) by blast
    with laws claim_contract.consumer_claim_err [OF contract assms(2)]
    show "db_committed com w' = db_committed com w" by metis
    show "\<forall>g. process self m g w = (Inl Contended, w')" using run assms(2) by (simp add: process_def)
  next
    assume "process_many self ids hs w = (Some (Inl Contended), w')"
    from process_many_contended [OF only this] obtain tx w1 tx2 w2 where run: "ids \<noteq> []" "op_begin S w = (Inr tx, w1)"
      "consumer_claim_many self ids tx w1 = (Some (Inl Contended), tx2, w2)" "w' = op_drop S tx2 w2"
      unfolding assms(2) by blast
    with laws inbox_contract.consumer_claim_many_ok [OF backend_inbox_contract [OF assms(1)] assms(2)]
    show "db_committed com w' = db_committed com w" by metis
    show "\<forall>gs. process_many self ids gs w = (Some (Inl Contended), w')" using run assms(2) by (simp add: process_many_def)
  }
qed

definition lock_lost :: "nat \<Rightarrow> fault" where
  "lock_lost n = (if n = 1 then Fail (Database (Some pg_LOCK_NOT_AVAILABLE) None) else No_fault)"

lemma contended_leaves_no_trace_witness:
  "\<exists>w'. process (pg_orders lock_lost) (msg ''m1'') (ref_handler (\<lambda>_. Suc) [] (msg ''m1'')) sample_world = (Inl Contended, w') \<and>
     db_committed ref_com w' = db_committed ref_com sample_world \<and>
     process_many (pg_orders lock_lost) [msg ''m1''] (ref_handler (\<lambda>_. Suc) []) sample_world = (Some (Inl Contended), w')"
proof -
  let ?h = "ref_handler (\<lambda>_. Suc) []"
  let ?one = "process (pg_orders lock_lost) (msg ''m1'') (?h (msg ''m1'')) sample_world"
  let ?all = "process_many (pg_orders lock_lost) [msg ''m1''] ?h sample_world"
  have "fst ?one = Inl Contended" "fst ?all = Some (Inl Contended)" "snd ?all = snd ?one" by code_simp+
  then have "?one = (Inl Contended, snd ?one)" "?all = (Some (Inl Contended), snd ?one)" by (simp_all add: prod_eq_iff)
  with contended_leaves_no_trace [OF backend_ref(1) con_store_pg_orders(1),
      where h = "?h (msg ''m1'')" and hs = ?h and w = sample_world and m = "msg ''m1''"]
  show ?thesis by blast
qed

end
