(* ===== verification/Kafka_Consumer.thy ===== *)
theory Kafka_Consumer
  imports Delivery
begin

text \<open>
  The consumer loop of \<^verbatim>\<open>src/examples/kafka_consumer.rs\<close> on top of \<open>Consumer::process\<close>. The broker
  (rdkafka) is not part of the repository: what it delivers is the list of messages one run of
  the loop receives, and \<open>commit_message\<close> is a parameter with a state of its own. \<open>acked\<close>
  collects the messages whose offset the loop asked the broker to commit. \<open>store_order\<close> stands
  for the handler closure, which inserts the payload into the application's table. The hourly
  purge task is added in \<open>Kafka_Service\<close>; logging is left out.
\<close>

datatype key_view = No_key | Not_utf8 | Key_str str

record kafka_message =
  km_offset :: nat
  km_key :: key_view
  km_payload :: "nat list option"

datatype exit = Received_all | Process_error inbox_error | Broker_error str

definition message_key :: "kafka_message \<Rightarrow> message_id option" where
  "message_key m =
     (case km_key m of
        Key_str key \<Rightarrow> (case message_try_from key of Inr ident \<Rightarrow> Some ident | Inl _ \<Rightarrow> None)
      | _ \<Rightarrow> None)"

definition payload :: "kafka_message \<Rightarrow> nat list" where
  "payload m = (case km_payload m of Some p \<Rightarrow> p | None \<Rightarrow> [])"

fun consume ::
  "('tx, 'w, 'z) inbox_ops_scheme consumer \<Rightarrow> (nat list \<Rightarrow> (unit, 'tx, 'w) handler) \<Rightarrow>
   (kafka_message \<Rightarrow> 'k \<Rightarrow> (str + unit) \<times> 'k) \<Rightarrow> kafka_message list \<Rightarrow> kafka_message list \<Rightarrow> 'k \<Rightarrow> 'w \<Rightarrow>
   exit \<times> kafka_message list \<times> 'k \<times> 'w" where
  "consume self store_order commit_message [] acked k w = (Received_all, acked, k, w)"
| "consume self store_order commit_message (m # ms) acked k w =
     (case message_key m of
        None \<Rightarrow>
         (case commit_message m k of
            (Inl e, k') \<Rightarrow> (Broker_error e, acked @ [m], k', w)
          | (Inr _, k') \<Rightarrow> consume self store_order commit_message ms (acked @ [m]) k' w)
      | Some ident \<Rightarrow>
         (case process self ident (store_order (payload m)) w of
            (Inl e, w') \<Rightarrow> (Process_error e, acked, k, w')
          | (Inr _, w') \<Rightarrow>
             (case commit_message m k of
                (Inl e, k') \<Rightarrow> (Broker_error e, acked @ [m], k', w')
              | (Inr _, k') \<Rightarrow> consume self store_order commit_message ms (acked @ [m]) k' w')))"

text \<open>The service restarted after each exit; each run receives what the broker delivers then.\<close>

fun consume_runs ::
  "('tx, 'w, 'z) inbox_ops_scheme consumer \<Rightarrow> (nat list \<Rightarrow> (unit, 'tx, 'w) handler) \<Rightarrow>
   (kafka_message \<Rightarrow> 'k \<Rightarrow> (str + unit) \<times> 'k) \<Rightarrow> kafka_message list list \<Rightarrow> kafka_message list \<Rightarrow> 'k \<Rightarrow> 'w \<Rightarrow>
   kafka_message list \<times> 'k \<times> 'w" where
  "consume_runs self store_order commit_message [] acked k w = (acked, k, w)"
| "consume_runs self store_order commit_message (ms # runs) acked k w =
     (case consume self store_order commit_message ms acked k w of
        (_, acked', k', w') \<Rightarrow> consume_runs self store_order commit_message runs acked' k' w')"

subsection \<open>Nothing lost, nothing twice\<close>

text \<open>The offsets in \<open>acked\<close> are safe to have committed: their messages are recorded, or have no
  usable key.\<close>

definition acked_safe :: "consumer_id \<Rightarrow> kafka_message list \<Rightarrow> 'u inbox_state \<Rightarrow> bool" where
  "acked_safe c acked s \<longleftrightarrow>
     (\<forall>m\<in>set acked. case message_key m of None \<Rightarrow> True | Some ident \<Rightarrow> key_of c ident \<in> seen s)"

lemma acked_safe_mono: "acked_safe c acked s \<Longrightarrow> seen s \<subseteq> seen s' \<Longrightarrow> acked_safe c acked s'"
  unfolding acked_safe_def by (metis (mono_tags, lifting) option.case_eq_if subsetD)

lemma acked_safe_append [simp]:
  "acked_safe c (acked @ [m]) s \<longleftrightarrow> acked_safe c acked s \<and>
     (case message_key m of None \<Rightarrow> True | Some ident \<Rightarrow> key_of c ident \<in> seen s)"
  by (auto simp: acked_safe_def)

abbreviation key_id :: "kafka_message \<Rightarrow> message_id" where
  "key_id m \<equiv> the (message_key m)"

definition consumed ::
  "consumer_id \<Rightarrow> (nat list \<Rightarrow> 'u \<Rightarrow> 'u) \<Rightarrow> kafka_message set \<Rightarrow> kafka_message list \<Rightarrow> 'u inbox_state \<Rightarrow> 'u inbox_state \<Rightarrow> bool" where
  "consumed c eff delivered acked s s' \<longleftrightarrow>
     acked_safe c acked s' \<and>
     (\<exists>ys. set ys \<subseteq> {m \<in> delivered. message_key m \<noteq> None} \<and>
        effects_once c key_id (\<lambda>m. eff (payload m)) ys s s')"

lemma consumed_refl: "acked_safe c acked s \<Longrightarrow> consumed c eff delivered acked s s"
  unfolding consumed_def by (intro conjI exI [of _ "[]"]) simp_all

lemma consumed_trans:
  assumes "set ys \<subseteq> {m \<in> D. message_key m \<noteq> None}" and "effects_once c key_id (\<lambda>m. eff (payload m)) ys s s1"
    and "consumed c eff E acked s1 s'" and "D \<union> E \<subseteq> F"
  shows "consumed c eff F acked s s'"
proof -
  obtain zs where zs: "set zs \<subseteq> {m \<in> E. message_key m \<noteq> None}"
    "effects_once c key_id (\<lambda>m. eff (payload m)) zs s1 s'" "acked_safe c acked s'"
    using assms(3) unfolding consumed_def by blast
  moreover have "set (ys @ zs) \<subseteq> {m \<in> F. message_key m \<noteq> None}" using assms(1,4) zs(1) by auto
  ultimately show ?thesis
    unfolding consumed_def using effects_once_append [OF assms(2) zs(2)] by blast
qed

lemma app_effect_comp: "app_effect (\<lambda>m. eff (f m)) m = app_effect eff (f m)"
  by (simp add: fun_eq_iff app_effect_def)

context claim_contract
begin

text \<open>One message with a key: at most its own effect, what was acknowledged stays recorded, and a
  result \<open>Ok\<close> means that it may be acknowledged too.\<close>

lemma process_consumed:
  assumes self: "con_store self = S" and h: "handler_in_tx committed view live (app_effect eff (payload m)) h"
    and key: "message_key m = Some ident" and run: "process self ident h w = (p, w1)"
    and acked: "acked_safe (con_id self) acked (committed w)"
  obtains ys where "set ys \<subseteq> {m' \<in> {m}. message_key m' \<noteq> None}"
    "effects_once (con_id self) key_id (\<lambda>m. eff (payload m)) ys (committed w) (committed w1)"
    "acked_safe (con_id self) acked (committed w1)"
    "\<forall>out. p = Inr out \<longrightarrow> acked_safe (con_id self) (acked @ [m]) (committed w1)"
proof -
  let ?c = "con_id self"
  have "process_post (app_effect (\<lambda>m. eff (payload m)) m) (key_of ?c (key_id m)) (committed w) p (committed w1)"
    using process_atomic [OF self h run] key by (simp add: app_effect_comp)
  from process_post_effect [where ident = key_id, OF this] obtain ys where
    ys: "set ys \<subseteq> {m}" "effects_once ?c key_id (\<lambda>m. eff (payload m)) ys (committed w) (committed w1)"
    and rec: "\<forall>out. p = Inr out \<longrightarrow> key_of ?c ident \<in> seen (committed w1)"
    using key by auto
  have "acked_safe ?c acked (committed w1)"
    using acked effects_once_seen [OF ys(2)] by (rule acked_safe_mono)
  with ys rec key show ?thesis by (intro that) auto
qed

lemma consume_safe:
  assumes self: "con_store self = S"
    and h: "\<And>p. handler_in_tx committed view live (app_effect eff p) (h p)"
    and "consume self h cm ms acked k w = (x, acked', k', w')"
    and "acked_safe (con_id self) acked (committed w)"
  shows "consumed (con_id self) eff (set ms) acked' (committed w) (committed w')"
  using assms(3,4)
proof (induction ms arbitrary: acked k w)
  case Nil
  then show ?case by (auto intro: consumed_refl)
next
  case (Cons m ms)
  let ?c = "con_id self"
  obtain r k1 where ack: "cm m k = (r, k1)" by (metis prod.collapse)
  have acknowledge: "consumed ?c eff (set (m # ms)) acked' (committed w) (committed w')"
    if ys: "set ys \<subseteq> {m' \<in> {m}. message_key m' \<noteq> None}"
      "effects_once ?c key_id (\<lambda>m. eff (payload m)) ys (committed w) (committed w1)"
      and safe: "acked_safe ?c (acked @ [m]) (committed w1)"
      and run: "(x, acked', k', w') = (case r of Inl e \<Rightarrow> (Broker_error e, acked @ [m], k1, w1)
        | Inr u \<Rightarrow> consume self h cm ms (acked @ [m]) k1 w1)" for ys w1
  proof (cases r)
    case (Inl e)
    with run consumed_trans [OF ys consumed_refl [OF safe], of "{}"] show ?thesis by auto
  next
    case (Inr u)
    with run have "consume self h cm ms (acked @ [m]) k1 w1 = (x, acked', k', w')" by simp
    from consumed_trans [OF ys Cons.IH [OF this safe], of "set (m # ms)"] show ?thesis by auto
  qed
  show ?case
  proof (cases "message_key m")
    case None
    show ?thesis
      by (rule acknowledge [of "[]" w]) (use Cons.prems None ack in \<open>auto split: sum.splits\<close>)
  next
    case (Some ident)
    obtain p w1 where p: "process self ident (h (payload m)) w = (p, w1)" by (metis prod.collapse)
    obtain ys where ys: "set ys \<subseteq> {m' \<in> {m}. message_key m' \<noteq> None}"
      "effects_once ?c key_id (\<lambda>m. eff (payload m)) ys (committed w) (committed w1)"
      "acked_safe ?c acked (committed w1)"
      "\<forall>out. p = Inr out \<longrightarrow> acked_safe ?c (acked @ [m]) (committed w1)"
      by (rule process_consumed [OF self h Some p Cons.prems(2)])
    show ?thesis
    proof (cases p)
      case (Inl e)
      with Cons.prems(1) Some p have "acked' = acked" "w' = w1" by auto
      with consumed_trans [OF ys(1,2) consumed_refl [OF ys(3)], of "{}"] show ?thesis by simp
    next
      case (Inr out)
      have "acked_safe ?c (acked @ [m]) (committed w1)" using ys(4) Inr by simp
      then show ?thesis
        by (rule acknowledge [OF ys(1,2)]) (use Cons.prems(1) Some ack p Inr in \<open>simp split: sum.splits\<close>)
    qed
  qed
qed

lemma consume_runs_safe:
  assumes self: "con_store self = S"
    and h: "\<And>p. handler_in_tx committed view live (app_effect eff p) (h p)"
    and "consume_runs self h cm runs acked k w = (acked', k', w')"
    and "acked_safe (con_id self) acked (committed w)"
  shows "consumed (con_id self) eff (\<Union> (set ` set runs)) acked' (committed w) (committed w')"
  using assms(3,4)
proof (induction runs arbitrary: acked k w)
  case Nil
  then show ?case by (auto intro: consumed_refl)
next
  case (Cons ms runs)
  obtain x acked1 k1 w1 where one: "consume self h cm ms acked k w = (x, acked1, k1, w1)"
    by (metis prod.collapse)
  have rest: "consume_runs self h cm runs acked1 k1 w1 = (acked', k', w')"
    using Cons.prems(1) one by simp
  obtain ys where ys: "set ys \<subseteq> {m \<in> set ms. message_key m \<noteq> None}"
    "effects_once (con_id self) key_id (\<lambda>m. eff (payload m)) ys (committed w) (committed w1)"
    and safe: "acked_safe (con_id self) acked1 (committed w1)"
    using consume_safe [OF self h one Cons.prems(2)] unfolding consumed_def by blast
  from consumed_trans [OF ys Cons.IH [OF rest safe], of "\<Union> (set ` set (ms # runs))"] show ?case by simp
qed

end

text \<open>C13: the Kafka consumer loses nothing and stores no order twice. Over any number of runs of the
  loop, each ended by whatever error and followed by redeliveries, every message whose offset
  was committed is recorded in the inbox or has no usable key, and the application's data have
  changed by the payloads of some of the delivered messages, no two of them with the same key.\<close>

theorem kafka_consumer_safe:
  assumes "backend d com st live S" and "con_store self = S"
    and "\<And>p. handler_in_tx (db_committed com) (tx_view st) live (app_effect eff p) (store_order p)"
    and "consume_runs self store_order commit_message runs [] k w = (acked, k', w')"
  shows "consumed (con_id self) eff (\<Union> (set ` set runs)) acked (db_committed com w) (db_committed com w')"
  by (rule claim_contract.consume_runs_safe [OF backend_claim_contract [OF assms(1)] assms(2-4)])
    (simp add: acked_safe_def)

text \<open>Three messages, one without a key; the database fails at its fifth step, during the second
  message, and everything is delivered again.\<close>

definition store_order :: "nat list \<Rightarrow> (unit, nat list list ref_tx, nat list list ref_world) handler" where
  "store_order p = ref_handler (\<lambda>_. Cons p) [] (msg ''-'')"

definition sample_messages :: "kafka_message list" where
  "sample_messages =
     [\<lparr>km_offset = 0, km_key = Key_str (lit ''a''), km_payload = Some [1]\<rparr>,
      \<lparr>km_offset = 1, km_key = No_key, km_payload = Some [2]\<rparr>,
      \<lparr>km_offset = 2, km_key = Key_str (lit ''b''), km_payload = Some [3]\<rparr>]"

definition empty_world :: "nat list list ref_world" where
  "empty_world = \<lparr>w_data = ([], []), w_vars = w_vars sample_world, w_step = 0, w_next = 0\<rparr>"

lemma kafka_consumer_safe_witness:
  "\<exists>acked k' w'. consume_runs (pg_orders (\<lambda>n. if n = 4 then Fail (OtherSqlx (lit ''down'')) else No_fault)) store_order
       (\<lambda>m k. (Inr (), k)) [sample_messages, sample_messages] [] () empty_world = (acked, k', w') \<and>
     snd (w_data w') = [[3], [1]] \<and>
     consumed orders Cons (set sample_messages) acked (db_committed ref_com empty_world) (db_committed ref_com w')"
proof -
  let ?sv = "\<lambda>n. if n = 4 then Fail (OtherSqlx (lit ''down'')) else No_fault"
  let ?run = "consume_runs (pg_orders ?sv) store_order (\<lambda>m k. (Inr (), k)) [sample_messages, sample_messages] [] () empty_world"
  have h: "handler_in_tx (db_committed ref_com) (tx_view ref_st) ref_live (app_effect Cons p) (store_order p)" for p
    using ref_handler_in_tx [of "\<lambda>_. Cons p" "msg ''-''" "[]"]
    by (simp add: handler_in_tx_def app_effect_def store_order_def)
  have data: "snd (w_data (snd (snd ?run))) = [[3], [1]]" by code_simp
  have run: "?run = (fst ?run, fst (snd ?run), snd (snd ?run))" by (simp only: prod.collapse)
  have "\<Union> (set ` set [sample_messages, sample_messages]) = set sample_messages" by simp
  note safe = kafka_consumer_safe [OF backend_ref(1) con_store_pg_orders(1) h run,
    unfolded con_store_pg_orders(2) this]
  from run data safe show ?thesis by blast
qed

end
