(* ===== verification/Purge.thy ===== *)
theory Purge
  imports Delivery
begin

text \<open>
  \<open>purge\<close>: the loop ends, it counts what it removed, it removes nothing before its cutoff, and when it reports a
  count nothing old is left. SQLite computes one cutoff at the start, so its \<open>purge\<close> is settled here; PostgreSQL and
  MySQL compute it in each statement from the server's clock, and theory \<open>Purge_Age\<close> bounds it.
\<close>

text \<open>What a purge with cutoff \<open>co\<close> has done to the database when it returns \<open>r\<close>.\<close>

definition purge_post ::
  "(int \<Rightarrow> cutoff \<Rightarrow> int option) \<Rightarrow> cutoff \<Rightarrow> 'u database \<Rightarrow> inbox_error + u64 \<Rightarrow> 'u database \<Rightarrow> bool" where
  "purge_post csub co db r db' \<longleftrightarrow>
     rest db' = rest db \<and> purged_rows (csub) co (inbox_messages db) (inbox_messages db') \<and>
     (case r of
        Inl _ \<Rightarrow> True
      | Inr n \<Rightarrow>
          n = of_nat (card (dom (inbox_messages db) - dom (inbox_messages db'))) \<and>
          (\<exists>now. old_keys (csub now co) (inbox_messages db') = {}))"

context sql_driver
begin

lemma purge_loop_post:
  assumes "built_policy p"
  shows "\<exists>r w'. purge_loop d (Delete_oldest co (unat (batch_size p))) (batch_size p) 0 w = Some (r, w') \<and>
    purge_post (drv_cutoff d) co (com w) r (com w')"
proof -
  obtain r w' where "purge_loop d (Delete_oldest co (unat (batch_size p))) (batch_size p) 0 w = Some (r, w')"
    "rest (com w') = rest (com w)"
    "purged_rows (drv_cutoff d) co (inbox_messages (com w)) (inbox_messages (com w'))"
    "\<forall>n. r = Inr n \<longrightarrow>
       n = 0 + of_nat (card (dom (inbox_messages (com w)) - dom (inbox_messages (com w')))) \<and>
       (\<exists>now. old_keys (drv_cutoff d now co) (inbox_messages (com w')) = {})"
    using purge_loop_total [OF built_policy_batch_pos [OF assms], of co 0 w] by blast
  then show ?thesis
    by (intro exI [of _ r] exI [of _ w']) (simp add: purge_post_def split: sum.split)
qed

end

definition old_world :: "nat ref_world" where
  "old_world = sample_world
     \<lparr>w_data := ([((lit ''o'', lit ''a''), \<lparr>processed_at = 5, claim_token = None\<rparr>),
                  ((lit ''o'', lit ''b''), \<lparr>processed_at = 14, claim_token = None\<rparr>),
                  ((lit ''o'', lit ''c''), \<lparr>processed_at = 2, claim_token = None\<rparr>)], 7),
      w_step := 20\<rparr>"

definition small_policy :: retention_policy where
  "small_policy = with_batch_size 0 (retention_new \<lparr>dur_secs = 0, dur_nanos = 10000\<rparr>)"

lemma built_small_policy: "built_policy small_policy"
  unfolding small_policy_def by (intro built_policy.intros)

text \<open>C27: \<open>SqliteInbox::purge\<close>. An age chrono cannot represent is reported as a backend error and
  removes nothing; an age whose cutoff chrono cannot represent makes the subtraction panic;
  otherwise the purge returns and is correct for the one cutoff computed at its start.\<close>

theorem sqlite_purge_correct:
  assumes "sql_driver d com st live" and "built_policy p" and "drv_utc_now d w = (now, w1)"
  shows "case drv_from_std d (max_age p) of
      Inl e \<Rightarrow> sqlite_purge d p w = Some (Inl (Backend (BoxMsg e)), w1) \<and> com w1 = com w
    | Inr age \<Rightarrow>
       (case drv_time_sub d now age of
          None \<Rightarrow> sqlite_purge d p w = None
        | Some lim \<Rightarrow> \<exists>r w'. sqlite_purge d p w = Some (r, w') \<and> purge_post (drv_cutoff d) (Before lim) (com w) r (com w'))"
proof -
  have w1: "com w1 = com w" using sql_driver.utc_now_keeps [OF assms(1,3)] by blast
  have loop: "\<exists>r w'. purge_loop d (Delete_oldest (Before lim) (unat (batch_size p))) (batch_size p) 0 w1 = Some (r, w') \<and>
      purge_post (drv_cutoff d) (Before lim) (com w) r (com w')" for lim
    using sql_driver.purge_loop_post [OF assms(1,2), of "Before lim" w1] by (simp only: w1)
  show ?thesis
    by (simp add: sqlite_purge_def sqlite_sql_defs assms(3) w1 loop split: sum.split option.split)
qed

lemma sqlite_purge_correct_witness:
  "\<exists>w'. sqlite_purge (ref_driver calm) small_policy old_world = Some (Inr 2, w') \<and>
     purge_post ref_cutoff (Before 10) (ref_com old_world) (Inr 2) (ref_com w')"
proof -
  have "map_option fst (sqlite_purge (ref_driver calm) small_policy old_world) = Some (Inr 2)" by code_simp
  moreover have age: "ref_from_std (max_age small_policy) = Inr 10" by code_simp
  have "drv_utc_now (ref_driver calm) old_world = (20, old_world)" by (simp add: old_world_def)
  from sqlite_purge_correct [OF ref.sql_driver_axioms built_small_policy this]
  have "\<exists>r w'. sqlite_purge (ref_driver calm) small_policy old_world = Some (r, w') \<and>
      purge_post ref_cutoff (Before 10) (ref_com old_world) r (ref_com w')"
    unfolding ref_driver_simps age by (simp add: ref_time_sub_def)
  ultimately show ?thesis by auto
qed

text \<open>Why \<open>with_batch_size\<close> raises 0 to 1. With a batch size of 0 the purge loop never returns
  a count, on any driver: no delete is ever smaller than the batch, so only an error ends it.\<close>

theorem purge_needs_positive_batch:
  "purge_loop d q 0 acc w \<noteq> Some (Inr n, w')"
proof
  assume "purge_loop d q 0 acc w = Some (Inr n, w')"
  moreover have "b = 0 \<longrightarrow> isl (fst rw)" if "purge_loop d q b acc w = Some rw" for b rw
    by (rule purge_loop.raw_induct [where P = "\<lambda>d q b a w rw. b = 0 \<longrightarrow> isl (fst rw)", OF _ that])
      (auto split: prod.splits sum.splits if_splits)
  ultimately show False by fastforce
qed

end
