(* ===== verification/Retention_Window.thy ===== *)
theory Retention_Window
  imports Purge
begin

text \<open>
  Purging and redelivery. A purged record no longer protects its message, so \<open>RetentionPolicy\<close>
  asks that \<open>max_age\<close> exceed the broker's redelivery window. Here deliveries and purges follow each other in
  any order, time passes with every step, and that advice is shown to be enough: as long as all
  deliveries of a message fall into a window that a purge respects, the message takes effect at most
  once. Beyond the window it can take effect again, and a run shows it.

  \<open>clock w\<close> is the clock that stamps the rows. \<open>since t tx w\<close> says that the transaction is in progress and began
  at \<open>t\<close> or later: \<open>now()\<close> is the start of the transaction on PostgreSQL and the time of the statement on
  MySQL, in both cases not before \<open>t\<close>. On SQLite the clock is the caller's \<open>Utc::now\<close>.
\<close>

subsection \<open>A store with a clock\<close>

text \<open>From \<open>w\<close> to \<open>w'\<close> only rows are lost, and only those that are older than \<open>keep\<close> at the end.\<close>

definition spares_window :: "('w \<Rightarrow> 'u database) \<Rightarrow> ('w \<Rightarrow> int) \<Rightarrow> int \<Rightarrow> 'w \<Rightarrow> 'w \<Rightarrow> bool" where
  "spares_window com clock keep w w' \<longleftrightarrow> rest (com w') = rest (com w) \<and> clock w \<le> clock w' \<and>
     (\<forall>k row. inbox_messages (com w) k = Some row \<longrightarrow>
        inbox_messages (com w') k = Some row \<or> processed_at row + keep < clock w')"

lemma spares_window_trans:
  "spares_window com clock keep w1 w2 \<Longrightarrow> spares_window com clock keep w2 w3 \<Longrightarrow> spares_window com clock keep w1 w3"
  unfolding spares_window_def by (metis order.trans order.strict_trans2)

text \<open>A claim stamps its row with a time not before the transaction began; a purge with policy \<open>p\<close> removes
  only rows that are older than \<open>keep\<close> when it ends. Time does not run backwards.\<close>

locale timed_store =
  fixes S :: "('tx, 'w, 'z) inbox_ops_scheme"
    and com :: "'w \<Rightarrow> 'u database" and st :: "'tx \<Rightarrow> 'u txn"
    and since :: "int \<Rightarrow> 'tx \<Rightarrow> 'w \<Rightarrow> bool" and clock :: "'w \<Rightarrow> int"
    and p :: retention_policy and keep :: int
  assumes timed_begin: "op_begin S w = (Inr tx, w') \<Longrightarrow>
      since (clock w) tx w' \<and> com w' = com w \<and> txn_db (st tx) = com w \<and> clock w \<le> clock w'"
    and timed_begin_err: "op_begin S w = (Inl e, w') \<Longrightarrow> com w' = com w \<and> clock w \<le> clock w'"
    and timed_claim: "since t tx w \<Longrightarrow> op_claim S r tx w = (Inr c, tx', w') \<Longrightarrow>
      since t tx' w' \<and> com w' = com w \<and> clock w \<le> clock w' \<and>
      c = (if table (st tx) (req_key r) = None then Fresh else Duplicate) \<and>
      (\<exists>row. t \<le> processed_at row \<and>
         txn_db (st tx') = (txn_db (st tx))\<lparr>inbox_messages := insert_new (req_key r) row (table (st tx))\<rparr>)"
    and timed_claim_err: "since t tx w \<Longrightarrow> op_claim S r tx w = (Inl e, tx', w') \<Longrightarrow>
      com w' = com w \<and> clock w \<le> clock w'"
    and timed_commit: "since t tx w \<Longrightarrow> op_commit S tx w = (x, w') \<Longrightarrow>
      (com w' = com w \<or> com w' = txn_db (st tx)) \<and> clock w \<le> clock w'"
    and timed_rollback: "op_rollback S tx w = (x, w') \<Longrightarrow> com w' = com w \<and> clock w \<le> clock w'"
    and timed_drop: "com (op_drop S tx w) = com w \<and> clock w \<le> clock (op_drop S tx w)"
    and timed_purge: "op_purge S p w = Some (res, w') \<Longrightarrow> spares_window com clock keep w w'"

text \<open>A handler that leaves the inbox table alone and applies \<open>eff\<close> to the rest.\<close>

definition timed_handler ::
  "('w \<Rightarrow> 'u database) \<Rightarrow> ('tx \<Rightarrow> 'u txn) \<Rightarrow> (int \<Rightarrow> 'tx \<Rightarrow> 'w \<Rightarrow> bool) \<Rightarrow> ('w \<Rightarrow> int) \<Rightarrow> ('u \<Rightarrow> 'u) \<Rightarrow>
   ('t, 'tx, 'w) handler \<Rightarrow> bool" where
  "timed_handler com st since clock eff h \<longleftrightarrow>
     (\<forall>t tx w r tx' w'. since t tx w \<and> h tx w = (r, tx', w') \<longrightarrow>
        com w' = com w \<and> clock w \<le> clock w' \<and>
        (\<forall>v. r = Inr v \<longrightarrow> since t tx' w' \<and>
           txn_db (st tx') = (txn_db (st tx))\<lparr>rest := eff (rest (txn_db (st tx)))\<rparr>))"

lemma timed_handlerD:
  assumes "timed_handler com st since clock eff h" and "since t tx w" and "h tx w = (r, tx', w')"
  shows "com w' = com w" and "clock w \<le> clock w'" and "r = Inr v \<Longrightarrow> since t tx' w'"
    and "r = Inr v \<Longrightarrow> txn_db (st tx') = (txn_db (st tx))\<lparr>rest := eff (rest (txn_db (st tx)))\<rparr>"
  using assms(1) [unfolded timed_handler_def, rule_format, OF conjI [OF assms(2,3)]] by simp_all

subsection \<open>Histories\<close>

datatype 'x event = Deliver 'x | Purge

text \<open>A history is a list of deliveries and purges. It returns the deliveries with the time each began. (A
  purge that did not return would end it: \<open>None\<close>.)\<close>

fun history ::
  "('tx, 'w, 'z) inbox_ops_scheme consumer \<Rightarrow> retention_policy \<Rightarrow> ('w \<Rightarrow> int) \<Rightarrow> ('x \<Rightarrow> message_id) \<Rightarrow>
   ('x \<Rightarrow> ('t, 'tx, 'w) handler) \<Rightarrow> 'x event list \<Rightarrow> 'w \<Rightarrow> (('x \<times> int) list \<times> 'w) option" where
  "history self p clock ident h [] w = Some ([], w)"
| "history self p clock ident h (Deliver x # es) w =
     (case process self (ident x) (h x) w of (_, w1) \<Rightarrow>
        map_option (\<lambda>(ds, w'). ((x, clock w) # ds, w')) (history self p clock ident h es w1))"
| "history self p clock ident h (Purge # es) w =
     (case op_purge (con_store self) p w of
        None \<Rightarrow> None
      | Some (_, w1) \<Rightarrow> history self p clock ident h es w1)"

text \<open>Deliveries of the same message are at most \<open>keep\<close> apart.\<close>

definition same_window :: "('x \<Rightarrow> message_id) \<Rightarrow> int \<Rightarrow> ('x \<times> int) list \<Rightarrow> bool" where
  "same_window ident keep = sorted_wrt (\<lambda>(x, t) (y, u). ident x = ident y \<longrightarrow> u \<le> t + keep)"

text \<open>What protects the deliveries that took effect: their records, as long as the window lasts.\<close>

definition guarded :: "consumer_id \<Rightarrow> ('x \<Rightarrow> message_id) \<Rightarrow> int \<Rightarrow> ('x \<times> int) list \<Rightarrow> 'u database \<Rightarrow> int \<Rightarrow> bool" where
  "guarded c ident keep ys db now \<longleftrightarrow>
     (\<forall>(y, t)\<in>set ys. (\<exists>row. inbox_messages db (key_of c (ident y)) = Some row \<and> t \<le> processed_at row) \<or> t + keep < now)"

lemma guarded_insert:
  assumes "guarded c ident keep ys db now" and "now \<le> now'" and "inbox_messages db (key_of c (ident x)) = None"
    and "inbox_messages db' = (inbox_messages db)(key_of c (ident x) \<mapsto> row)" and "t \<le> processed_at row"
  shows "guarded c ident keep (ys @ [(x, t)]) db' now'"
  unfolding guarded_def
proof (clarify, goal_cases)
  case (1 y u)
  show ?case
  proof (cases "(y, u) \<in> set ys")
    case True
    with assms(1) have "(\<exists>row. inbox_messages db (key_of c (ident y)) = Some row \<and> u \<le> processed_at row) \<or> u + keep < now"
      unfolding guarded_def by blast
    then show ?thesis
    proof
      assume "\<exists>row. inbox_messages db (key_of c (ident y)) = Some row \<and> u \<le> processed_at row"
      moreover from this have "ident y \<noteq> ident x" using assms(3) by auto
      ultimately show ?thesis using assms(4) by simp
    qed (use 1(2) assms(2) in linarith)
  next
    case False
    with 1(1) have "y = x" "u = t" by auto
    with assms(4,5) show ?thesis by simp
  qed
qed

context timed_store
begin

lemma process_fresh_timed:
  assumes self: "con_store self = S" and h: "timed_handler com st since clock eff h"
    and tx: "since t tx w" "txn_db (st tx) = db" and run: "process_fresh self h tx w = (r, w')"
  shows "clock w \<le> clock w' \<and> (com w' = com w \<or> com w' = db\<lparr>rest := eff (rest db)\<rparr>)"
proof -
  obtain z tx1 w1 where z: "h tx w = (z, tx1, w1)" by (metis prod.collapse)
  note handled = timed_handlerD [OF h tx(1) z]
  show ?thesis
  proof (cases z)
    case (Inl e)
    obtain q w2 where q: "op_rollback S tx1 w1 = (q, w2)" by (metis prod.collapse)
    with z Inl run self have "w' = w2" by (simp add: process_fresh_def)
    with timed_rollback [OF q] handled(1,2) show ?thesis by simp
  next
    case (Inr v)
    obtain q w2 where q: "op_commit S tx1 w1 = (q, w2)" by (metis prod.collapse)
    with z Inr run self have "w' = w2" by (auto simp: process_fresh_def split: sum.splits)
    with timed_commit [OF handled(3) [OF Inr] q] handled(1,2) handled(4) [OF Inr] tx(2) show ?thesis by auto
  qed
qed

lemma process_timed:
  assumes self: "con_store self = S" and h: "timed_handler com st since clock eff h"
    and run: "process self m h w = (r, w')" and k: "k = key_of (con_id self) m"
  shows "clock w \<le> clock w' \<and> (com w' = com w \<or>
    inbox_messages (com w) k = None \<and> (\<exists>row. clock w \<le> processed_at row \<and>
      com w' = (com w)\<lparr>inbox_messages := (inbox_messages (com w))(k \<mapsto> row), rest := eff (rest (com w))\<rparr>))"
proof -
  let ?r = "(claim_request_new (con_id self) m)\<lparr>req_lock_timeout := con_lock_timeout self\<rparr>"
  obtain x w1 where b: "op_begin S w = (x, w1)" by (metis prod.collapse)
  show ?thesis
  proof (cases x)
    case (Inl e)
    with b run self timed_begin_err show ?thesis by (simp add: process_def)
  next
    case (Inr tx)
    note begun = timed_begin [OF b [unfolded Inr]]
    obtain y tx2 w2 where c: "op_claim S ?r tx w1 = (y, tx2, w2)" by (metis prod.collapse)
    have res: "process self m h w = (case y of
        Inl e \<Rightarrow> (Inl e, op_drop S tx2 w2)
      | Inr Duplicate \<Rightarrow> (case op_rollback S tx2 w2 of (Inl e, w3) \<Rightarrow> (Inl e, w3) | (Inr _, w3) \<Rightarrow> (Inr DuplicateOutcome, w3))
      | Inr Fresh \<Rightarrow> process_fresh self h tx2 w2)"
      using b c Inr self by (simp add: process_def consumer_claim_def split: sum.split claim.split)
    show ?thesis
    proof (cases y)
      case (Inl e)
      from timed_claim_err [OF conjunct1 [OF begun] c [unfolded Inl]] begun timed_drop [of tx2 w2] res run Inl
      show ?thesis by auto
    next
      case (Inr a)
      note claimed = timed_claim [OF conjunct1 [OF begun] c [unfolded Inr], unfolded claim_request_new_def, simplified]
      have w2: "com w2 = com w" "clock w \<le> clock w2" using claimed begun by auto
      show ?thesis
      proof (cases a)
        case Duplicate
        with res run Inr w2 timed_rollback show ?thesis by (fastforce split: prod.splits sum.splits)
      next
        case Fresh
        obtain row where row: "clock w \<le> processed_at row" "inbox_messages (com w) k = None"
          "txn_db (st tx2) = (com w)\<lparr>inbox_messages := (inbox_messages (com w))(k \<mapsto> row)\<rparr>"
          using claimed begun Fresh k by (auto simp: insert_new_def split: if_splits)
        have "process_fresh self h tx2 w2 = (r, w')" using res run Inr Fresh by simp
        from process_fresh_timed [OF self h conjunct1 [OF claimed] row(3) this] w2 row(1,2) show ?thesis by auto
      qed
    qed
  qed
qed

lemma guarded_purge:
  assumes "guarded c ident keep ys (com w) (clock w)" and "op_purge S p w = Some (x, w')"
  shows "guarded c ident keep ys (com w') (clock w')"
  unfolding guarded_def
proof (clarify, goal_cases)
  case (1 y t)
  note purged = timed_purge [OF assms(2), unfolded spares_window_def]
  have "(\<exists>row. inbox_messages (com w) (key_of c (ident y)) = Some row \<and> t \<le> processed_at row) \<or> t + keep < clock w"
    using assms(1) 1(1) unfolding guarded_def by blast
  then show ?case
  proof
    assume "\<exists>row. inbox_messages (com w) (key_of c (ident y)) = Some row \<and> t \<le> processed_at row"
    then obtain row where row: "inbox_messages (com w) (key_of c (ident y)) = Some row" "t \<le> processed_at row" by blast
    with purged have "inbox_messages (com w') (key_of c (ident y)) = Some row \<or> processed_at row + keep < clock w'" by blast
    with row(2) 1(2) show ?thesis by force
  qed (use purged 1(2) in linarith)
qed

text \<open>\<open>ys\<close> are the deliveries that took effect so far. A delivery of one of their messages falls into its
  window, so the record is still there and the delivery is a duplicate.\<close>

lemma guarded_deliver:
  assumes self: "con_store self = S" and h: "timed_handler com st since clock eff h"
    and run: "process self (ident x) h w = (r, w1)" and g: "guarded (con_id self) ident keep ys (com w) (clock w)"
    and later: "\<And>y t. (y, t) \<in> set ys \<Longrightarrow> ident y = ident x \<Longrightarrow> clock w \<le> t + keep"
  shows "com w1 = com w \<and> guarded (con_id self) ident keep ys (com w1) (clock w1) \<or>
    (\<forall>(y, t)\<in>set ys. ident y \<noteq> ident x) \<and> rest (com w1) = eff (rest (com w)) \<and>
    guarded (con_id self) ident keep (ys @ [(x, clock w)]) (com w1) (clock w1)"
proof -
  let ?k = "key_of (con_id self) (ident x)"
  note step = process_timed [OF self h run refl]
  show ?thesis
  proof (cases "com w1 = com w")
    case True
    with g step show ?thesis by (fastforce simp: guarded_def)
  next
    case False
    with step obtain row where new: "inbox_messages (com w) ?k = None" and row: "clock w \<le> processed_at row"
      and w1: "com w1 = (com w)\<lparr>inbox_messages := (inbox_messages (com w))(?k \<mapsto> row), rest := eff (rest (com w))\<rparr>"
      by blast
    have "ident y \<noteq> ident x" if "(y, t) \<in> set ys" for y t
      using g that later [OF that] new by (fastforce simp: guarded_def)
    moreover have "guarded (con_id self) ident keep (ys @ [(x, clock w)]) (com w1) (clock w1)"
      using g step row new by (intro guarded_insert [where db = "com w"]) (auto simp: w1)
    ultimately show ?thesis by (auto simp: w1)
  qed
qed

lemma history_once:
  assumes self: "con_store self = S" and h: "\<And>x. timed_handler com st since clock (eff x) (h x)"
  shows "history self p clock ident h es w = Some (ds, w') \<Longrightarrow> guarded (con_id self) ident keep ys (com w) (clock w) \<Longrightarrow>
    same_window ident keep (ys @ ds) \<Longrightarrow> distinct (map (\<lambda>d. ident (fst d)) ys) \<Longrightarrow>
    \<exists>zs. set zs \<subseteq> set ds \<and> distinct (map (\<lambda>d. ident (fst d)) (ys @ zs)) \<and>
      rest (com w') = fold eff (map fst zs) (rest (com w))"
proof (induction es arbitrary: w ds ys)
  case Nil
  then show ?case by (intro exI [of _ "[]"]) simp
next
  case (Cons e es)
  show ?case
  proof (cases e)
    case Purge
    with Cons.prems(1) self obtain x w1 where w1: "op_purge S p w = Some (x, w1)"
      "history self p clock ident h es w1 = Some (ds, w')"
      by (auto split: option.splits)
    from Cons.IH [OF w1(2) guarded_purge [OF Cons.prems(2) w1(1)] Cons.prems(3,4)] timed_purge [OF w1(1)]
    show ?thesis by (simp add: spares_window_def)
  next
    case (Deliver x)
    obtain r w1 where r: "process self (ident x) (h x) w = (r, w1)" by (metis prod.collapse)
    with Cons.prems(1) Deliver obtain ds1 where ds: "ds = (x, clock w) # ds1"
      and tail: "history self p clock ident h es w1 = Some (ds1, w')"
      by (auto split: option.splits)
    have later: "clock w \<le> t + keep" if "(y, t) \<in> set ys" "ident y = ident x" for y t
      using Cons.prems(3) that by (auto simp: same_window_def ds sorted_wrt_append)
    have "com w1 = com w \<and> guarded (con_id self) ident keep ys (com w1) (clock w1) \<or>
      (\<forall>(y, t)\<in>set ys. ident y \<noteq> ident x) \<and> rest (com w1) = eff x (rest (com w)) \<and>
      guarded (con_id self) ident keep (ys @ [(x, clock w)]) (com w1) (clock w1)"
      by (rule guarded_deliver [OF self h r Cons.prems(2)]) (rule later)
    then show ?thesis
    proof (elim disjE conjE)
      assume same: "com w1 = com w" and g: "guarded (con_id self) ident keep ys (com w1) (clock w1)"
      have "same_window ident keep (ys @ ds1)"
        using Cons.prems(3) by (auto simp: same_window_def ds sorted_wrt_append)
      from Cons.IH [OF tail g this Cons.prems(4)] same show ?thesis by (auto simp: ds)
    next
      assume fresh: "\<forall>(y, t)\<in>set ys. ident y \<noteq> ident x" and w1: "rest (com w1) = eff x (rest (com w))"
        and g: "guarded (con_id self) ident keep (ys @ [(x, clock w)]) (com w1) (clock w1)"
      have "same_window ident keep ((ys @ [(x, clock w)]) @ ds1)" using Cons.prems(3) by (simp add: ds)
      moreover have "distinct (map (\<lambda>d. ident (fst d)) (ys @ [(x, clock w)]))"
        using Cons.prems(4) fresh by force
      ultimately obtain zs where "set zs \<subseteq> set ds1" "distinct (map (\<lambda>d. ident (fst d)) ((ys @ [(x, clock w)]) @ zs))"
        "rest (com w') = fold eff (map fst zs) (rest (com w1))"
        using Cons.IH [OF tail g] by blast
      then show ?thesis by (intro exI [of _ "(x, clock w) # zs"]) (auto simp: ds w1)
    qed
  qed
qed

end

subsection \<open>The backends\<close>

text \<open>What the drivers add to \<open>sql_driver\<close>: a clock that does not run backwards, statements that see a time
  between the start of their transaction and now.\<close>

locale timed_driver = sql_driver d com st live
  for d :: "('tx, 'w) driver" and com :: "'w \<Rightarrow> 'u database" and st :: "'tx \<Rightarrow> 'u txn"
    and live :: "'tx \<Rightarrow> 'w \<Rightarrow> bool" +
  fixes since :: "int \<Rightarrow> 'tx \<Rightarrow> 'w \<Rightarrow> bool" and clock :: "'w \<Rightarrow> int"
  assumes since_live: "since t tx w \<Longrightarrow> live tx w"
    and begin_since: "drv_begin d qo w = (Inr tx, w') \<Longrightarrow> since (clock w) tx w'"
    and exec_since: "since t tx w \<Longrightarrow> drv_exec d q tx w = (Inr r, tx', w') \<Longrightarrow>
      since t tx' w' \<and> (\<exists>now\<ge>t. sql_post (drv_cutoff d) now q (st tx) r (st tx'))"
    and begin_clock: "drv_begin d qo w = (x, w') \<Longrightarrow> clock w \<le> clock w'"
    and commit_clock: "drv_commit d tx w = (y, w') \<Longrightarrow> clock w \<le> clock w'"
    and rollback_clock: "drv_rollback d tx w = (y, w') \<Longrightarrow> clock w \<le> clock w'"
    and drop_clock: "clock w \<le> clock (drv_drop d tx w)"
    and exec_clock: "drv_exec d q tx w = (z, tx', w') \<Longrightarrow> clock w \<le> clock w'"
    and pool_clock: "drv_pool d q w = (z, w') \<Longrightarrow> clock w \<le> clock w' \<and>
      (com w' = com w \<or> (\<exists>now v r s'. now \<le> clock w' \<and>
         sql_post (drv_cutoff d) now q (start_txn v (com w)) r s' \<and> com w' = txn_db s'))"
begin

text \<open>A statement of a claim other than the insert: no data change.\<close>

lemma exec_setting:
  assumes "since t tx w" and "drv_exec d q tx w = (Inr r, tx', w')"
    and "\<And>now r s'. sql_post (drv_cutoff d) now q (st tx) r s' \<Longrightarrow> txn_db s' = txn_db (st tx)"
  shows "since t tx' w' \<and> txn_db (st tx') = txn_db (st tx) \<and> com w' = com w \<and> clock w \<le> clock w'"
  using exec_since [OF assms(1,2)] exec_ok [OF disjI1 [OF since_live [OF assms(1)]] assms(2)] exec_clock [OF assms(2)]
    assms(3) by blast

lemma exec_insert_timed:
  assumes "since t tx w" and "oc \<noteq> Update_same"
    and "drv_exec d (Insert_row (consumer_str c) (message_str m) te oc) tx w = (Inr r, tx', w')"
    and "\<And>now. t \<le> now \<Longrightarrow> t \<le> time_of now te"
  shows "since t tx' w' \<and> com w' = com w \<and> clock w \<le> clock w' \<and>
    claim_of_affected (rows_affected r) = (if table (st tx) (key_of c m) = None then Fresh else Duplicate) \<and>
    (\<exists>row. t \<le> processed_at row \<and>
       txn_db (st tx') = (txn_db (st tx))\<lparr>inbox_messages := insert_new (key_of c m) row (table (st tx))\<rparr>)"
proof -
  obtain now where now: "t \<le> now"
    "sql_post (drv_cutoff d) now (Insert_row (consumer_str c) (message_str m) te oc) (st tx) r (st tx')"
    "since t tx' w'"
    using exec_since [OF assms(1,3)] by blast
  moreover have "com w' = com w" "clock w \<le> clock w'"
    using exec_ok [OF disjI1 [OF since_live [OF assms(1)]] assms(3)] exec_clock [OF assms(3)] by blast+
  ultimately show ?thesis
    using assms(2) assms(4) [OF now(1)] by (auto simp: claim_of_affected_def key_of_def on_table_def
        intro!: exI [of _ "\<lparr>processed_at = time_of now te, claim_token = None\<rparr>"])
qed

lemma exec_err_timed:
  assumes "since t tx w" and "drv_exec d q tx w = (Inl e, tx', w')"
  shows "com w' = com w \<and> clock w \<le> clock w'"
  using exec_err [OF disjI1 [OF since_live [OF assms(1)]] assms(2)] exec_clock [OF assms(2)] by blast

lemma tx_ops_timed:
  "sql_begin d q w = (Inr tx, w') \<Longrightarrow>
    since (clock w) tx w' \<and> com w' = com w \<and> txn_db (st tx) = com w \<and> clock w \<le> clock w'"
  "sql_begin d q w = (Inl e, w') \<Longrightarrow> com w' = com w \<and> clock w \<le> clock w'"
  "since t tx w \<Longrightarrow> sql_commit d tx w = (x, w') \<Longrightarrow> (com w' = com w \<or> com w' = txn_db (st tx)) \<and> clock w \<le> clock w'"
  "sql_rollback d tx w = (x, w') \<Longrightarrow> com w' = com w \<and> clock w \<le> clock w'"
  "com (drv_drop d tx w) = com w \<and> clock w \<le> clock (drv_drop d tx w)"
proof -
  show "sql_begin d q w = (Inr tx, w') \<Longrightarrow>
      since (clock w) tx w' \<and> com w' = com w \<and> txn_db (st tx) = com w \<and> clock w \<le> clock w'"
    using begin_ok [of q w tx w'] begin_since [of q w tx w'] begin_clock [of q w _ w']
    by (auto simp: sql_begin_def split: prod.splits)
  show "sql_begin d q w = (Inl e, w') \<Longrightarrow> com w' = com w \<and> clock w \<le> clock w'"
    using begin_err [of q w _ w'] begin_clock [of q w _ w']
    by (auto simp: sql_begin_def map_err_Inl_iff split: prod.splits)
  show "since t tx w \<Longrightarrow> sql_commit d tx w = (x, w') \<Longrightarrow>
      (com w' = com w \<or> com w' = txn_db (st tx)) \<and> clock w \<le> clock w'"
    using commit_ok [of tx w w'] commit_err [of tx w _ w'] commit_clock [of tx w _ w'] since_live [of t tx w]
    by (cases x) (auto simp: sql_commit_def map_err_Inl_iff split: prod.splits if_splits)
  show "sql_rollback d tx w = (x, w') \<Longrightarrow> com w' = com w \<and> clock w \<le> clock w'"
    using rollback_keeps [of tx w _ w'] rollback_clock [of tx w _ w'] by (auto simp: sql_rollback_def split: prod.splits)
  show "com (drv_drop d tx w) = com w \<and> clock w \<le> clock (drv_drop d tx w)"
    using drop_keeps drop_clock by blast
qed

text \<open>The purge loop removes only what is older than \<open>keep\<close> when it ends, if each statement's cutoff is \<open>keep\<close> in
  the past when the statement ends.\<close>

lemma purge_loop_timed:
  assumes cutoff: "\<And>now lim v. drv_cutoff d now co = Some lim \<Longrightarrow> now \<le> clock v \<Longrightarrow> clock w \<le> clock v \<Longrightarrow>
      lim + keep \<le> clock v"
    and "purge_loop d (Delete_oldest co n) batch acc w = Some (x, w')"
  shows "spares_window com clock keep w w'"
proof -
  define start where "start = clock w"
  let ?T = "\<lambda>w1 w2. start \<le> clock w1 \<longrightarrow> spares_window com clock keep w1 w2"
  have "?T w (snd (x, w'))"
  proof (rule purge_loop_trans [OF _ _ assms(2)])
    show "?T w1 w2" if run: "drv_pool d (Delete_oldest co n) w1 = (y, w2)" for w1 y w2
    proof
      assume "start \<le> clock w1"
      with pool_clock [OF run] have clock: "clock w1 \<le> clock w2" "clock w \<le> clock w2" by (simp_all add: start_def)
      moreover have "processed_at row + keep < clock w2"
        if "K \<subseteq> old_keys (drv_cutoff d now co) (inbox_messages (com w1))" "now \<le> clock w2" "k \<in> K"
          "inbox_messages (com w1) k = Some row" for now K k row
        using that cutoff [OF _ that(2) clock(2)] by (force simp: old_keys_def)
      ultimately show "spares_window com clock keep w1 w2"
        using pool_clock [OF run] by (auto simp: spares_window_def oldest_def restrict_map_def)
    qed
    show "?T w1 w3" if T: "?T w1 w2" "?T w2 w3" for w1 w2 w3
    proof
      assume "start \<le> clock w1"
      with T(1) have one: "spares_window com clock keep w1 w2" by blast
      with \<open>start \<le> clock w1\<close> have "start \<le> clock w2" by (simp add: spares_window_def)
      with T(2) one show "spares_window com clock keep w1 w3" by (blast intro: spares_window_trans)
    qed
  qed
  then show ?thesis by (simp add: start_def)
qed

lemma pg_set_timed:
  assumes "since t tx w" and "pg_set_lock_timeout d lt tx w = (x, tx', w')"
  shows "com w' = com w \<and> clock w \<le> clock w' \<and>
    (\<forall>u. x = Inr u \<longrightarrow> since t tx' w' \<and> txn_db (st tx') = txn_db (st tx))"
proof (cases lt)
  case (Some a)
  let ?q = "pg_SET_LOCK_TIMEOUT_SQL (pg_lock_timeout a)"
  obtain y tx1 w1 where y: "drv_exec d ?q tx w = (y, tx1, w1)" by (metis prod.collapse)
  have eq: "tx' = tx1" "w' = w1" "x = (case y of Inl e \<Rightarrow> Inl e | Inr _ \<Rightarrow> Inr ())"
    using assms(2) Some y by (auto simp: pg_set_lock_timeout_def split: sum.splits)
  show ?thesis
  proof (cases y)
    case (Inl e)
    with exec_err_timed [OF assms(1) y [unfolded Inl]] eq show ?thesis by simp
  next
    case (Inr r)
    with exec_setting [OF assms(1) y [unfolded Inr]] eq show ?thesis by (simp add: pg_sql_defs)
  qed
qed (use assms in \<open>simp add: pg_set_lock_timeout_def\<close>)

lemma pg_claim_timed:
  assumes t: "since t tx w" and run: "pg_claim d r tx w = (x, tx', w')"
  shows "com w' = com w \<and> clock w \<le> clock w' \<and> (\<forall>c. x = Inr c \<longrightarrow> since t tx' w' \<and>
      c = (if table (st tx) (req_key r) = None then Fresh else Duplicate) \<and>
      (\<exists>row. t \<le> processed_at row \<and>
         txn_db (st tx') = (txn_db (st tx))\<lparr>inbox_messages := insert_new (req_key r) row (table (st tx))\<rparr>))"
proof -
  obtain y tx1 w1 where y: "pg_set_lock_timeout d (req_lock_timeout r) tx w = (y, tx1, w1)" by (metis prod.collapse)
  note lent = pg_set_timed [OF t y]
  show ?thesis
  proof (cases y)
    case (Inl e)
    with y run lent show ?thesis by (auto simp: pg_claim_def)
  next
    case (Inr u)
    let ?q = "Insert_row (consumer_str (req_consumer r)) (message_str (req_id r)) Server_now Do_nothing"
    have t1: "since t tx1 w1" and db: "txn_db (st tx1) = txn_db (st tx)" using lent Inr by simp_all
    obtain z tx2 w2 where z: "drv_exec d ?q tx1 w1 = (z, tx2, w2)" by (metis prod.collapse)
    show ?thesis
    proof (cases z)
      case (Inl e)
      with exec_err_timed [OF t1 z [unfolded Inl]] y z \<open>y = Inr u\<close> run lent show ?thesis
        by (auto simp: pg_claim_def pg_sql_defs)
    next
      case (Inr v)
      have "Do_nothing \<noteq> Update_same" by simp
      from exec_insert_timed [OF t1 this z [unfolded Inr]] y z Inr \<open>y = Inr u\<close> run lent db show ?thesis
        by (auto simp: pg_claim_def pg_sql_defs)
    qed
  qed
qed

lemma pg_timed_store:
  assumes "\<And>now lim. drv_cutoff d now (Now_minus_secs (max_age p)) = Some lim \<Longrightarrow> lim + keep \<le> now"
  shows "timed_store (pg_store d) com st since clock p keep"
proof (unfold_locales, unfold pg_store_simps, goal_cases)
  case (3 t tx w r c tx' w')
  from pg_claim_timed [OF this] show ?case by simp
next
  case (4 t tx w r e tx' w')
  from pg_claim_timed [OF this] show ?case by simp
next
  case (8 w res w')
  then show ?case unfolding pg_purge_def pg_sql_defs using purge_loop_timed assms order.trans by blast
qed (rule tx_ops_timed; assumption)+

end

text \<open>MySQL sets and restores its session variable around the claim, whether the claim succeeded or not.\<close>

locale timed_mysql_driver = timed_driver d com st live since clock + mysql_driver d com st live
  for d :: "('tx, 'w) driver" and com :: "'w \<Rightarrow> 'u database" and st :: "'tx \<Rightarrow> 'u txn"
    and live :: "'tx \<Rightarrow> 'w \<Rightarrow> bool" and since :: "int \<Rightarrow> 'tx \<Rightarrow> 'w \<Rightarrow> bool" and clock :: "'w \<Rightarrow> int"
begin

lemma mysql_lend_timed:
  "mysql_set_lock_timeout d lt tx w = (x, tx', w') \<Longrightarrow> com w' = com w \<and> clock w \<le> clock w'"
  "mysql_restore_lock_timeout d lt tx w = (x, tx', w') \<Longrightarrow> com w' = com w \<and> clock w \<le> clock w'"
proof -
  have vars: "clock w \<le> clock w1"
    if "drv_exec d q tx w = (y, tx1, w1)" for q y tx1 w1 using exec_clock [OF that] .
  show "mysql_set_lock_timeout d lt tx w = (x, tx', w') \<Longrightarrow> com w' = com w \<and> clock w \<le> clock w'"
    using mysql_timeout_com(1) [of lt tx w x tx' w']
    by (auto simp: mysql_set_lock_timeout_def dest!: vars split: option.splits prod.splits sum.splits)
  show "mysql_restore_lock_timeout d lt tx w = (x, tx', w') \<Longrightarrow> com w' = com w \<and> clock w \<le> clock w'"
    using mysql_timeout_com(2) [of lt tx w x tx' w']
    by (auto simp: mysql_restore_lock_timeout_def dest!: vars split: option.splits prod.splits sum.splits)
qed

lemma mysql_lend_since:
  assumes "since t tx w"
  shows "mysql_set_lock_timeout d lt tx w = (Inr u, tx', w') \<Longrightarrow> since t tx' w' \<and> txn_db (st tx') = txn_db (st tx)"
    and "mysql_restore_lock_timeout d lt tx w = (Inr u, tx', w') \<Longrightarrow> since t tx' w' \<and> txn_db (st tx') = txn_db (st tx)"
proof -
  have vars: "since t tx' w' \<and> txn_db (st tx') = txn_db (st tx)"
    if run: "drv_exec d (Set_vars as) tx w = (Inr r, tx', w')" for as r
  proof -
    have "txn_db s' = txn_db (st tx)" if "sql_post (drv_cutoff d) now (Set_vars as) (st tx) r s'" for now r s'
      using that by (simp split: option.splits)
    then have "since t tx' w' \<and> txn_db (st tx') = txn_db (st tx) \<and> com w' = com w \<and> clock w \<le> clock w'"
      by (rule exec_setting [OF assms run])
    then show ?thesis by blast
  qed
  show "mysql_set_lock_timeout d lt tx w = (Inr u, tx', w') \<Longrightarrow> since t tx' w' \<and> txn_db (st tx') = txn_db (st tx)"
    using assms vars by (auto simp: mysql_set_lock_timeout_def mysql_var_defs split: option.splits prod.splits sum.splits)
  show "mysql_restore_lock_timeout d lt tx w = (Inr u, tx', w') \<Longrightarrow> since t tx' w' \<and> txn_db (st tx') = txn_db (st tx)"
    using assms vars by (auto simp: mysql_restore_lock_timeout_def mysql_var_defs split: option.splits prod.splits sum.splits)
qed

lemma mysql_claim_timed:
  assumes t: "since t tx w" and run: "mysql_claim d r tx w = (x, tx', w')"
  shows "com w' = com w \<and> clock w \<le> clock w' \<and> (\<forall>c. x = Inr c \<longrightarrow> since t tx' w' \<and>
      c = (if table (st tx) (req_key r) = None then Fresh else Duplicate) \<and>
      (\<exists>row. t \<le> processed_at row \<and>
         txn_db (st tx') = (txn_db (st tx))\<lparr>inbox_messages := insert_new (req_key r) row (table (st tx))\<rparr>))"
proof -
  obtain y tx1 w1 where y: "mysql_set_lock_timeout d (req_lock_timeout r) tx w = (y, tx1, w1)" by (metis prod.collapse)
  note lent = mysql_lend_timed(1) [OF y]
  show ?thesis
  proof (cases y)
    case (Inl e)
    with y run lent show ?thesis by (auto simp: mysql_claim_def)
  next
    case (Inr u)
    let ?q = "Insert_row (consumer_str (req_consumer r)) (message_str (req_id r)) Server_now Ignore_row"
    have t1: "since t tx1 w1" and db: "txn_db (st tx1) = txn_db (st tx)"
      using mysql_lend_since(1) [OF t] y Inr by blast+
    obtain z tx2 w2 where z: "drv_exec d ?q tx1 w1 = (z, tx2, w2)" by (metis prod.collapse)
    obtain v tx3 w3 where v: "mysql_restore_lock_timeout d (req_lock_timeout r) tx2 w2 = (v, tx3, w3)"
      by (metis prod.collapse)
    note restored = mysql_lend_timed(2) [OF v]
    have res: "mysql_claim d r tx w = (case z of Inl e \<Rightarrow> Inl (mysql_claim_error e) | Inr a \<Rightarrow>
        (case v of Inl e \<Rightarrow> Inl (inbox_error_from_sqlx e) | Inr _ \<Rightarrow> Inr (claim_of_affected (rows_affected a))), tx3, w3)"
      using y Inr z v by (simp add: mysql_claim_def mysql_sql_defs split: sum.splits)
    show ?thesis
    proof (cases z)
      case (Inl e)
      with exec_err_timed [OF t1 z [unfolded Inl]] res run lent restored show ?thesis by auto
    next
      case (Inr a)
      have "Ignore_row \<noteq> Update_same" by simp
      note ins = exec_insert_timed [OF t1 this z [unfolded Inr], simplified]
      have "since t tx3 w3 \<and> txn_db (st tx3) = txn_db (st tx2)" if "v = Inr b" for b
        using mysql_lend_since(2) [OF conjunct1 [OF ins]] v that by blast
      with ins res Inr run lent restored db show ?thesis by (cases v) auto
    qed
  qed
qed

lemma mysql_timed_store:
  assumes "\<And>now lim. drv_cutoff d now (Now_minus_micros (u64_or_max (as_micros (max_age p)))) = Some lim \<Longrightarrow>
      lim + keep \<le> now"
  shows "timed_store (mysql_store d) com st since clock p keep"
proof (unfold_locales, unfold mysql_store_simps, goal_cases)
  case (3 t tx w r c tx' w')
  from mysql_claim_timed [OF this] show ?case by simp
next
  case (4 t tx w r e tx' w')
  from mysql_claim_timed [OF this] show ?case by simp
next
  case (8 w res w')
  then show ?case unfolding mysql_purge_def mysql_sql_defs Let_def using purge_loop_timed assms order.trans by blast
qed (rule tx_ops_timed; assumption)+

end

text \<open>SQLite stamps rows and computes the cutoff with the caller's clock.\<close>

locale timed_sqlite_driver = timed_driver d com st live since clock
  for d :: "('tx, 'w) driver" and com :: "'w \<Rightarrow> 'u database" and st :: "'tx \<Rightarrow> 'u txn"
    and live :: "'tx \<Rightarrow> 'w \<Rightarrow> bool" and since :: "int \<Rightarrow> 'tx \<Rightarrow> 'w \<Rightarrow> bool" and clock :: "'w \<Rightarrow> int" +
  assumes since_clock: "since t tx w \<Longrightarrow> t \<le> clock w"
    and utc_clock: "drv_utc_now d w = (now, w') \<Longrightarrow> clock w \<le> now \<and> now \<le> clock w'"
    and utc_since: "drv_utc_now d w = (now, w') \<Longrightarrow> since t tx w \<Longrightarrow> since t tx w'"
    and cutoff_before: "drv_cutoff d now (Before lim) = Some lim"
begin

lemma sqlite_claim_timed:
  assumes t: "since t tx w" and run: "sqlite_claim d r tx w = (x, tx', w')"
  shows "com w' = com w \<and> clock w \<le> clock w' \<and> (\<forall>c. x = Inr c \<longrightarrow> since t tx' w' \<and>
      c = (if table (st tx) (req_key r) = None then Fresh else Duplicate) \<and>
      (\<exists>row. t \<le> processed_at row \<and>
         txn_db (st tx') = (txn_db (st tx))\<lparr>inbox_messages := insert_new (req_key r) row (table (st tx))\<rparr>))"
proof -
  obtain now w1 where now: "drv_utc_now d w = (now, w1)" by (metis prod.collapse)
  have t1: "since t tx w1" and late: "t \<le> now" and w1: "clock w \<le> clock w1" "com w1 = com w"
    using utc_since [OF now t] utc_clock [OF now] since_clock [OF t] utc_now_keeps [OF now] by auto
  let ?q = "Insert_row (consumer_str (req_consumer r)) (message_str (req_id r)) (At now) Do_nothing"
  obtain z tx2 w2 where z: "drv_exec d ?q tx w1 = (z, tx2, w2)" by (metis prod.collapse)
  show ?thesis
  proof (cases z)
    case (Inl e)
    with exec_err_timed [OF t1 z [unfolded Inl]] now z run w1 show ?thesis
      by (auto simp: sqlite_claim_def sqlite_sql_defs)
  next
    case (Inr v)
    have "Do_nothing \<noteq> Update_same" by simp
    from exec_insert_timed [OF t1 this z [unfolded Inr]] late now z Inr run w1 show ?thesis
      by (auto simp: sqlite_claim_def sqlite_sql_defs)
  qed
qed

lemma sqlite_purge_timed:
  assumes keep: "\<And>age now lim. drv_from_std d (max_age p) = Inr age \<Longrightarrow> drv_time_sub d now age = Some lim \<Longrightarrow>
      lim + keep \<le> now"
    and run: "sqlite_purge d p w = Some (x, w')"
  shows "spares_window com clock keep w w'"
proof -
  obtain now w1 where now: "drv_utc_now d w = (now, w1)" by (metis prod.collapse)
  have w1: "clock w \<le> clock w1" "now \<le> clock w1" "com w1 = com w"
    using utc_clock [OF now] utc_now_keeps [OF now] by auto
  show ?thesis
  proof (cases "drv_from_std d (max_age p)")
    case (Inl e)
    with run now w1 show ?thesis by (simp add: sqlite_purge_def spares_window_def)
  next
    case (Inr age)
    with run now obtain lim where lim: "drv_time_sub d now age = Some lim"
      and loop: "purge_loop d (Delete_oldest (Before lim) (unat (batch_size p))) (batch_size p) 0 w1 = Some (x, w')"
      by (auto simp: sqlite_purge_def sqlite_sql_defs split: option.splits)
    have "spares_window com clock keep w1 w'"
      by (rule purge_loop_timed [OF _ loop]) (use keep [OF Inr lim] w1(2) in \<open>simp add: cutoff_before\<close>)
    with w1 show ?thesis by (auto simp: spares_window_def)
  qed
qed

lemma sqlite_timed_store:
  assumes "\<And>age now lim. drv_from_std d (max_age p) = Inr age \<Longrightarrow> drv_time_sub d now age = Some lim \<Longrightarrow>
      lim + keep \<le> now"
  shows "timed_store (sqlite_store d) com st since clock p keep"
proof (unfold_locales, unfold sqlite_store_simps, goal_cases)
  case (3 t tx w r c tx' w')
  from sqlite_claim_timed [OF this] show ?case by simp
next
  case (4 t tx w r e tx' w')
  from sqlite_claim_timed [OF this] show ?case by simp
next
  case (8 w res w')
  show ?case by (rule sqlite_purge_timed [OF assms 8])
qed (rule tx_ops_timed; assumption)+

end

subsection \<open>The reference database\<close>

definition ref_since :: "int \<Rightarrow> 'u ref_tx \<Rightarrow> 'u ref_world \<Rightarrow> bool" where
  "ref_since t tx w \<longleftrightarrow> ref_live tx w \<and> t \<le> int (w_step w)"

definition ref_clock :: "'u ref_world \<Rightarrow> int" where
  "ref_clock w = int (w_step w)"

lemma tick_clock [simp]: "w_step w \<le> w_step (tick p w)" "ref_clock w \<le> ref_clock (tick p w)"
  by (simp_all add: ref_clock_def)

lemmas ref_clock_simps = ref_clock_def tick_def

lemma ref_exec_clock: "ref_exec sv q tx w = (x, tx', w') \<Longrightarrow> ref_clock w \<le> ref_clock w'"
  by (auto simp: ref_exec_def Let_def split: fault.splits if_splits option.splits)

lemma ref_pool_clock: "ref_pool sv q w = (x, w') \<Longrightarrow> ref_clock w \<le> ref_clock w'"
  by (auto simp: ref_pool_def Let_def ref_clock_simps split: fault.splits option.splits)

interpretation ref_timed: timed_driver "ref_driver sv" ref_com ref_st ref_live ref_since ref_clock for sv
proof (unfold_locales, goal_cases)
  case (1 t tx w)
  then show ?case by (simp add: ref_since_def)
next
  case (2 qo w tx w')
  have "ref_live tx w'" using 2 ref_begin_ok(1) by fastforce
  moreover have "w' = tick (w_data w) w"
    using 2 by (auto simp: ref_begin_def Let_def split: fault.splits option.splits stmt.splits)
  ultimately show ?case by (simp add: ref_since_def ref_clock_def)
next
  case (3 t tx w q r tx' w')
  have run: "ref_live tx w \<or> q = Rollback_to []" "ref_exec sv q tx w = (Inr r, tx', w')" and t: "t \<le> int (w_step w)"
    using 3 by (simp_all add: ref_since_def)
  have "w_step w \<le> w_step w'" using ref_exec_clock [OF run(2)] by (simp add: ref_clock_def)
  with ref_exec_ok [OF run] t show ?case by (auto simp: ref_since_def)
next
  case (4 qo w x w')
  then show ?case by (auto simp: ref_begin_def Let_def split: fault.splits option.splits stmt.splits)
next
  case (5 tx w y w')
  then show ?case by (auto simp: ref_commit_def Let_def ref_clock_simps split: fault.splits if_splits)
next
  case (6 tx w y w')
  then show ?case by (auto simp: ref_rollback_def Let_def ref_clock_simps split: fault.splits if_splits)
next
  case (7 w tx)
  show ?case unfolding ref_clock_def of_nat_le_iff by (simp add: ref_drop_def ref_clock_simps)
next
  case (8 q tx w z tx' w')
  then show ?case by (auto dest: ref_exec_clock)
next
  case (9 q w z w')
  then have run: "ref_pool sv q w = (z, w')" by simp
  have "int (w_step w) \<le> ref_clock w'" using ref_pool_clock [OF run] by (simp add: ref_clock_def)
  with ref_pool_clock [OF run] ref_pool_post [OF run] show ?case unfolding ref_driver_simps by blast
qed

interpretation ref_timed_mysql: timed_mysql_driver "ref_driver sv" ref_com ref_st ref_live ref_since ref_clock for sv ..

interpretation ref_timed_sqlite: timed_sqlite_driver "ref_driver sv" ref_com ref_st ref_live ref_since ref_clock for sv
  by unfold_locales (auto simp: ref_since_def ref_clock_def)

lemma ref_cutoff_keep:
  "ref_cutoff now (Now_minus_secs (max_age small_policy)) = Some lim \<Longrightarrow> lim + 10 \<le> now"
  "ref_cutoff now (Now_minus_micros (u64_or_max (as_micros (max_age small_policy)))) = Some lim \<Longrightarrow> lim + 10 \<le> now"
  "ref_from_std (max_age small_policy) = Inr age \<Longrightarrow> ref_time_sub now age = Some lim \<Longrightarrow> lim + 10 \<le> now"
proof -
  have age: "as_micros (max_age small_policy) = 10" "u64_or_max 10 = 10" by code_simp+
  show "ref_cutoff now (Now_minus_secs (max_age small_policy)) = Some lim \<Longrightarrow> lim + 10 \<le> now"
    and "ref_cutoff now (Now_minus_micros (u64_or_max (as_micros (max_age small_policy)))) = Some lim \<Longrightarrow> lim + 10 \<le> now"
    by (simp_all add: age)
  show "ref_from_std (max_age small_policy) = Inr age \<Longrightarrow> ref_time_sub now age = Some lim \<Longrightarrow> lim + 10 \<le> now"
    by (auto simp: ref_from_std_def ref_time_sub_def age split: if_splits)
qed

interpretation ref_pg_window: timed_store "pg_store (ref_driver sv)" ref_com ref_st ref_since ref_clock small_policy 10 for sv
  by (rule ref_timed.pg_timed_store) (simp add: ref_cutoff_keep(1))

interpretation ref_mysql_window: timed_store "mysql_store (ref_driver sv)" ref_com ref_st ref_since ref_clock small_policy 10 for sv
  by (rule ref_timed_mysql.mysql_timed_store) (simp add: ref_cutoff_keep(2))

interpretation ref_sqlite_window: timed_store "sqlite_store (ref_driver sv)" ref_com ref_st ref_since ref_clock small_policy 10 for sv
  by (rule ref_timed_sqlite.sqlite_timed_store) (simp add: ref_cutoff_keep(3))

lemma ref_handler_timed: "timed_handler ref_com ref_st ref_since ref_clock (eff m) (ref_handler eff bad m)"
  by (auto simp: timed_handler_def ref_handler_def ref_since_def ref_live_def db_of_def split: if_splits)

subsection \<open>The retention window\<close>

text \<open>The backends with their clocks; \<open>keep\<close> is what the server's or chrono's arithmetic subtracts at least for
  the policy's \<open>max_age\<close>.\<close>

definition window_backend ::
  "('tx, 'w) driver \<Rightarrow> ('w \<Rightarrow> 'u database) \<Rightarrow> ('tx \<Rightarrow> 'u txn) \<Rightarrow> ('tx \<Rightarrow> 'w \<Rightarrow> bool) \<Rightarrow> (int \<Rightarrow> 'tx \<Rightarrow> 'w \<Rightarrow> bool) \<Rightarrow>
   ('w \<Rightarrow> int) \<Rightarrow> retention_policy \<Rightarrow> int \<Rightarrow> ('tx, 'w) savepoint_ops \<Rightarrow> bool" where
  "window_backend d com st live since clock p keep S \<longleftrightarrow>
     S = pg_store d \<and> timed_driver d com st live since clock \<and>
       (\<forall>now lim. drv_cutoff d now (Now_minus_secs (max_age p)) = Some lim \<longrightarrow> lim + keep \<le> now) \<or>
     S = mysql_store d \<and> timed_mysql_driver d com st live since clock \<and>
       (\<forall>now lim. drv_cutoff d now (Now_minus_micros (u64_or_max (as_micros (max_age p)))) = Some lim \<longrightarrow> lim + keep \<le> now) \<or>
     S = sqlite_store d \<and> timed_sqlite_driver d com st live since clock \<and>
       (\<forall>age now lim. drv_from_std d (max_age p) = Inr age \<longrightarrow> drv_time_sub d now age = Some lim \<longrightarrow> lim + keep \<le> now)"

lemma window_backend_timed: "window_backend d com st live since clock p keep S \<Longrightarrow> timed_store S com st since clock p keep"
  unfolding window_backend_def
  by (elim disjE conjE; simp only:; erule timed_driver.pg_timed_store timed_mysql_driver.mysql_timed_store
      timed_sqlite_driver.sqlite_timed_store; simp)

lemma window_backend_ref [simp]:
  "window_backend (ref_driver sv) ref_com ref_st ref_live ref_since ref_clock small_policy 10 (pg_store (ref_driver sv))"
  "window_backend (ref_driver sv) ref_com ref_st ref_live ref_since ref_clock small_policy 10 (mysql_store (ref_driver sv))"
  "window_backend (ref_driver sv) ref_com ref_st ref_live ref_since ref_clock small_policy 10 (sqlite_store (ref_driver sv))"
  by (simp_all add: window_backend_def ref_timed.timed_driver_axioms ref_timed_mysql.timed_mysql_driver_axioms
      ref_timed_sqlite.timed_sqlite_driver_axioms
      ref_cutoff_keep del: ref_cutoff.simps)

text \<open>C2: purging is safe when \<open>max_age\<close> covers the redelivery window. In any history of deliveries and purges on
  PostgreSQL, MySQL or SQLite, failures included, in which the deliveries of each message lie no further apart than
  what a purge keeps (\<open>keep\<close>, at most \<open>max_age\<close>), every message takes effect at most once: the application's data
  are changed by the effects of some of the deliveries, no two of them of the same message.\<close>

theorem purge_respects_window:
  assumes "window_backend d com st live since clock p keep S"
    and "con_store self = S" and "\<And>x. timed_handler com st since clock (eff x) (h x)"
    and "history self p clock ident h es w = Some (ds, w')" and "same_window ident keep ds"
  shows "\<exists>ys. set ys \<subseteq> set ds \<and> distinct (map (\<lambda>d. ident (fst d)) ys) \<and>
    rest (com w') = fold eff (map fst ys) (rest (com w))"
proof -
  from timed_store.history_once [OF window_backend_timed [OF assms(1)] assms(2-4), of "[]"] assms(5) show ?thesis
    by (simp add: guarded_def)
qed

text \<open>Redelivered at once, and again after a purge that is too early to touch the record.\<close>

lemma purge_respects_window_witness:
  "\<exists>ds w'. history (pg_orders calm) small_policy ref_clock msg (\<lambda>x. ref_handler (\<lambda>_. Suc) [] (msg x))
       [Deliver ''m1'', Purge, Deliver ''m1''] sample_world = Some (ds, w') \<and>
     (\<exists>ys. set ys \<subseteq> set ds \<and> distinct (map (\<lambda>d. msg (fst d)) ys) \<and>
        rest (ref_com w') = fold (\<lambda>_. Suc) (map fst ys) (rest (ref_com sample_world))) \<and> rest (ref_com w') = 1"
proof -
  let ?run = "history (pg_orders calm) small_policy ref_clock msg (\<lambda>x. ref_handler (\<lambda>_. Suc) [] (msg x))
       [Deliver ''m1'', Purge, Deliver ''m1''] sample_world"
  have "map_option (\<lambda>(ds, w'). (ds, rest (ref_com w'))) ?run = Some ([(''m1'', 0), (''m1'', 4)], 1)" by code_simp
  then obtain w' where run: "?run = Some ([(''m1'', 0), (''m1'', 4)], w')" "rest (ref_com w') = 1" by auto
  have "same_window msg 10 [(''m1'', 0), (''m1'', 4)]" by (simp add: same_window_def)
  from purge_respects_window [OF window_backend_ref(1) con_store_pg_orders(1) ref_handler_timed run(1) this] run
  show ?thesis by auto
qed

text \<open>Beyond the window a message can take effect twice: a message is processed, other work passes the time,
  a purge removes the record, and the redelivery is processed again. The purge does what it should; this is
  why \<open>max_age\<close> must exceed the redelivery window.\<close>

theorem redelivery_after_purge_is_processed_again:
  "\<exists>ds w'. history (pg_orders calm) small_policy ref_clock msg (\<lambda>x. ref_handler (\<lambda>_. Suc) [] (msg x))
       [Deliver ''m1'', Deliver ''m2'', Deliver ''m3'', Deliver ''m4'', Purge, Deliver ''m1''] sample_world = Some (ds, w') \<and>
     rest (ref_com w') = 5 \<and> \<not> same_window msg 10 ds"
proof -
  let ?run = "history (pg_orders calm) small_policy ref_clock msg (\<lambda>x. ref_handler (\<lambda>_. Suc) [] (msg x))
       [Deliver ''m1'', Deliver ''m2'', Deliver ''m3'', Deliver ''m4'', Purge, Deliver ''m1''] sample_world"
  let ?ds = "[(''m1'', 0), (''m2'', 3), (''m3'', 6), (''m4'', 9), (''m1'', 14)]"
  have "map_option (\<lambda>(ds, w'). (ds, rest (ref_com w'))) ?run = Some (?ds, 5)" by code_simp
  moreover have "\<not> same_window msg 10 ?ds" by (simp add: same_window_def msg_def)
  ultimately show ?thesis by (auto simp del: history.simps)
qed

end
