(* ===== verification/Migrations.thy ===== *)
theory Migrations
  imports Backends
begin

text \<open>
  The migrations of \<^verbatim>\<open>src/migrations\<close> and \<open>migrate()\<close> of the three backends. The DDL files are an
  abstract syntax with its meaning on a catalogue of tables and indexes. sqlx's migrator, which decides
  what to run and keeps its own bookkeeping, is an argument of \<open>migrate\<close>.

  The other theories take the table as a map from keys to rows. Here that is justified: rows under the
  created schema, with its column types, its \<open>NOT NULL\<close>s and its primary key compared under its
  collation, represent such a map, every id the API can build fits its column, and an insert that ignores
  conflicts is \<open>insert_new\<close>.
\<close>

subsection \<open>The DDL\<close>

datatype sql_type = Varchar nat | Text | Datetime nat | Timestamptz | Bigint_unsigned

datatype collation = Deterministic | Utf8mb4_0900_bin | Utf8mb4_bin

record column =
  col_name :: string
  col_type :: sql_type
  col_null :: bool

record table_def =
  columns :: "column list"
  primary_key :: "string list"
  table_keys :: "(string \<times> string list) list"
  table_collation :: collation

text \<open>The flag of a statement is its \<open>IF NOT EXISTS\<close>.\<close>

datatype ddl =
    Create_table bool string table_def
  | Create_index bool string string "string list"

definition not_null :: "string \<Rightarrow> sql_type \<Rightarrow> column" where
  "not_null n t = \<lparr>col_name = n, col_type = t, col_null = False\<rparr>"

definition pg_inbox_messages :: table_def where
  "pg_inbox_messages =
     \<lparr>columns = [not_null ''consumer_id'' Text, not_null ''message_id'' Text, not_null ''processed_at'' Timestamptz],
      primary_key = [''consumer_id'', ''message_id''], table_keys = [], table_collation = Deterministic\<rparr>"

definition pg_MIGRATION_SQL :: "ddl list" where
  "pg_MIGRATION_SQL =
     [Create_table True ''inbox_messages'' pg_inbox_messages,
      Create_index True ''idx_inbox_processed_at'' ''inbox_messages'' [''processed_at'']]"

definition sqlite_inbox_messages :: table_def where
  "sqlite_inbox_messages =
     \<lparr>columns = [not_null ''consumer_id'' Text, not_null ''message_id'' Text, not_null ''processed_at'' Text],
      primary_key = [''consumer_id'', ''message_id''], table_keys = [], table_collation = Deterministic\<rparr>"

definition sqlite_MIGRATION_SQL :: "ddl list" where
  "sqlite_MIGRATION_SQL =
     [Create_table True ''inbox_messages'' sqlite_inbox_messages,
      Create_index True ''idx_inbox_processed_at'' ''inbox_messages'' [''processed_at'']]"

definition mysql_inbox_messages :: table_def where
  "mysql_inbox_messages =
     \<lparr>columns = [not_null ''consumer_id'' (Varchar 255), not_null ''message_id'' (Varchar 512),
        not_null ''processed_at'' (Datetime 6), \<lparr>col_name = ''claim_token'', col_type = Bigint_unsigned, col_null = True\<rparr>],
      primary_key = [''consumer_id'', ''message_id''],
      table_keys = [(''idx_inbox_processed_at'', [''processed_at''])], table_collation = Utf8mb4_0900_bin\<rparr>"

definition mysql_MIGRATION_SQL :: "ddl list" where
  "mysql_MIGRATION_SQL = [Create_table True ''inbox_messages'' mysql_inbox_messages]"

lemmas migration_defs = pg_MIGRATION_SQL_def sqlite_MIGRATION_SQL_def mysql_MIGRATION_SQL_def
lemmas schema_defs = pg_inbox_messages_def sqlite_inbox_messages_def mysql_inbox_messages_def not_null_def

subsection \<open>migrate()\<close>

text \<open>\<open>run\<close> is \<open>Migrator::run\<close> for the migrations embedded from the backend's directory, each holding one
  file; its error is boxed.\<close>

definition pg_migrate :: "(ddl list list \<Rightarrow> 'w \<Rightarrow> (str + unit) \<times> 'w) \<Rightarrow> 'w \<Rightarrow> (inbox_error + unit) \<times> 'w" where
  "pg_migrate run w = (case run [pg_MIGRATION_SQL] w of (r, w') \<Rightarrow> (map_err (\<lambda>e. Backend (BoxMsg e)) r, w'))"

definition mysql_migrate :: "(ddl list list \<Rightarrow> 'w \<Rightarrow> (str + unit) \<times> 'w) \<Rightarrow> 'w \<Rightarrow> (inbox_error + unit) \<times> 'w" where
  "mysql_migrate run w = (case run [mysql_MIGRATION_SQL] w of (r, w') \<Rightarrow> (map_err (\<lambda>e. Backend (BoxMsg e)) r, w'))"

definition sqlite_migrate :: "(ddl list list \<Rightarrow> 'w \<Rightarrow> (str + unit) \<times> 'w) \<Rightarrow> 'w \<Rightarrow> (inbox_error + unit) \<times> 'w" where
  "sqlite_migrate run w = (case run [sqlite_MIGRATION_SQL] w of (r, w') \<Rightarrow> (map_err (\<lambda>e. Backend (BoxMsg e)) r, w'))"

subsection \<open>Running the DDL\<close>

record catalog =
  tables :: "string \<rightharpoonup> table_def"
  indexes :: "string \<rightharpoonup> string \<times> string list"

text \<open>An object that exists is left as it is if the statement says so, and is an error otherwise; an index needs its
  table and its columns.\<close>

fun run_ddl :: "ddl \<Rightarrow> catalog \<Rightarrow> catalog option" where
  "run_ddl (Create_table if_not_exists n t) cat =
     (case tables cat n of
        Some _ \<Rightarrow> if if_not_exists then Some cat else None
      | None \<Rightarrow> Some (cat\<lparr>tables := (tables cat)(n \<mapsto> t),
          indexes := map_of (map (\<lambda>(i, cols). (i, (n, cols))) (table_keys t)) ++ indexes cat\<rparr>))"
| "run_ddl (Create_index if_not_exists i n cols) cat =
     (case indexes cat i of
        Some _ \<Rightarrow> if if_not_exists then Some cat else None
      | None \<Rightarrow>
         (case tables cat n of
            None \<Rightarrow> None
          | Some t \<Rightarrow> if set cols \<subseteq> set (map col_name (columns t)) then Some (cat\<lparr>indexes := (indexes cat)(i \<mapsto> (n, cols))\<rparr>)
              else None))"

fun run_script :: "ddl list \<Rightarrow> catalog \<Rightarrow> catalog option" where
  "run_script [] cat = Some cat"
| "run_script (q # qs) cat = (case run_ddl q cat of None \<Rightarrow> None | Some cat' \<Rightarrow> run_script qs cat')"

text \<open>Objects of a catalogue that a later one still has, unchanged.\<close>

definition extends :: "catalog \<Rightarrow> catalog \<Rightarrow> bool" where
  "extends cat cat' \<longleftrightarrow> tables cat \<subseteq>\<^sub>m tables cat' \<and> indexes cat \<subseteq>\<^sub>m indexes cat'"

lemma extends_trans: "extends a b \<Longrightarrow> extends b c \<Longrightarrow> extends a c"
  unfolding extends_def by (blast intro: map_le_trans)

lemma run_ddl_extends: "run_ddl q cat = Some cat' \<Longrightarrow> extends cat cat'"
  by (cases q) (auto simp: extends_def map_le_def map_add_def split: option.splits if_splits)

lemma run_script_extends: "run_script qs cat = Some cat' \<Longrightarrow> extends cat cat'"
proof (induction qs arbitrary: cat)
  case (Cons q qs)
  then obtain cat1 where "run_ddl q cat = Some cat1" "run_script qs cat1 = Some cat'" by (auto split: option.splits)
  with run_ddl_extends [of q cat cat1] Cons.IH extends_trans show ?case by blast
qed (simp add: extends_def)

text \<open>A guarded statement whose object exists changes nothing, so a script of them that ran is a no-op.\<close>

fun guarded_ddl :: "ddl \<Rightarrow> bool" where
  "guarded_ddl (Create_table b n t) = b"
| "guarded_ddl (Create_index b i n cols) = b"

fun present :: "ddl \<Rightarrow> catalog \<Rightarrow> bool" where
  "present (Create_table b n t) cat = (tables cat n \<noteq> None)"
| "present (Create_index b i n cols) cat = (indexes cat i \<noteq> None)"

lemma run_ddl_present: "run_ddl q cat = Some cat' \<Longrightarrow> present q cat'"
  by (cases q) (auto split: option.splits if_splits)

lemma present_no_op: "present q cat \<Longrightarrow> run_ddl q cat = (if guarded_ddl q then Some cat else None)"
  by (cases q) auto

lemma present_extends: "present q cat \<Longrightarrow> extends cat cat' \<Longrightarrow> present q cat'"
  by (cases q) (auto simp: extends_def map_le_def dom_def)

lemma run_script_again:
  "list_all guarded_ddl qs \<Longrightarrow> run_script qs cat = Some cat' \<Longrightarrow> extends cat' cat1 \<Longrightarrow> run_script qs cat1 = Some cat1"
proof (induction qs arbitrary: cat)
  case (Cons q qs)
  then obtain cat2 where q: "run_ddl q cat = Some cat2" "run_script qs cat2 = Some cat'" by (auto split: option.splits)
  have "extends cat2 cat1" using run_script_extends [OF q(2)] Cons.prems(3) by (rule extends_trans)
  then have "present q cat1" using run_ddl_present [OF q(1)] present_extends by blast
  with present_no_op Cons.IH [OF _ q(2) Cons.prems(3)] Cons.prems(1) show ?case by simp
qed simp

lemma guarded_migrations:
  "list_all guarded_ddl pg_MIGRATION_SQL" "list_all guarded_ddl mysql_MIGRATION_SQL" "list_all guarded_ddl sqlite_MIGRATION_SQL"
  by (simp_all add: migration_defs)

text \<open>C25: the migrations can be applied any number of times, after themselves or over a table made by other means. A
  migration succeeds on every catalogue, unless its \<open>inbox_messages\<close> lacks the indexed column; on one without
  the table and the index it creates both; whatever was there, an earlier \<open>inbox_messages\<close> included, is left as it
  is; and applying it again, then or after later changes that drop nothing, succeeds and changes nothing. A
  statement without its \<open>IF NOT EXISTS\<close> would fail on what it has created.\<close>

theorem migrations_idempotent:
  assumes "(script, t) \<in> {(pg_MIGRATION_SQL, pg_inbox_messages), (mysql_MIGRATION_SQL, mysql_inbox_messages),
      (sqlite_MIGRATION_SQL, sqlite_inbox_messages)}"
    and "\<And>t0. tables cat ''inbox_messages'' = Some t0 \<Longrightarrow> ''processed_at'' \<in> col_name ` set (columns t0)"
  shows "\<exists>cat'. run_script script cat = Some cat' \<and> extends cat cat' \<and> tables cat' ''inbox_messages'' \<noteq> None \<and>
    (tables cat ''inbox_messages'' = None \<and> indexes cat ''idx_inbox_processed_at'' = None \<longrightarrow>
      tables cat' ''inbox_messages'' = Some t \<and>
      indexes cat' ''idx_inbox_processed_at'' = Some (''inbox_messages'', [''processed_at''])) \<and>
    (\<forall>cat1. extends cat' cat1 \<longrightarrow> run_script script cat1 = Some cat1)"
proof -
  have "\<exists>cat'. run_script script cat = Some cat' \<and> tables cat' ''inbox_messages'' \<noteq> None \<and>
      (tables cat ''inbox_messages'' = None \<and> indexes cat ''idx_inbox_processed_at'' = None \<longrightarrow>
        tables cat' ''inbox_messages'' = Some t \<and>
        indexes cat' ''idx_inbox_processed_at'' = Some (''inbox_messages'', [''processed_at'']))"
    using assms by (auto simp: migration_defs schema_defs map_add_def split: option.splits)
  moreover have "list_all guarded_ddl script" using assms(1) guarded_migrations by blast
  ultimately show ?thesis using run_script_extends run_script_again by meson
qed

lemma migrations_idempotent_witness:
  "\<exists>cat'. run_script pg_MIGRATION_SQL \<lparr>tables = Map.empty, indexes = Map.empty\<rparr> = Some cat' \<and>
     tables cat' ''inbox_messages'' = Some pg_inbox_messages \<and> run_script pg_MIGRATION_SQL cat' = Some cat'"
proof -
  have "extends cat cat" for cat by (simp add: extends_def)
  with migrations_idempotent [of pg_MIGRATION_SQL pg_inbox_messages "\<lparr>tables = Map.empty, indexes = Map.empty\<rparr>"]
  show ?thesis by (auto simp del: run_script.simps)
qed

text \<open>\<open>migrate()\<close> over any migrator that, when it succeeds, has applied the script then or earlier: afterwards the
  backend's script has nothing left to do, and an error is the migrator's, boxed.\<close>

lemma migrate_prepares:
  assumes "\<And>script w w'. run [script] w = (Inr (), w') \<Longrightarrow>
      \<exists>before after. run_script script before = Some after \<and> extends after (cat w')"
    and "(migrate, script) \<in> {(pg_migrate run, pg_MIGRATION_SQL), (mysql_migrate run, mysql_MIGRATION_SQL),
      (sqlite_migrate run, sqlite_MIGRATION_SQL)}"
    and "migrate w = (r, w')"
  shows "(r = Inr () \<longrightarrow> run_script script (cat w') = Some (cat w')) \<and>
    (\<forall>e. r = Inl e \<longrightarrow> (\<exists>msg. run [script] w = (Inl msg, w') \<and> e = Backend (BoxMsg msg)))"
proof -
  obtain z where z: "run [script] w = (z, w')" "r = map_err (\<lambda>e. Backend (BoxMsg e)) z"
    using assms(2,3) by (auto simp: pg_migrate_def mysql_migrate_def sqlite_migrate_def split: prod.splits)
  have "run_script script (cat w') = Some (cat w')" if "r = Inr ()"
  proof -
    from z that have "run [script] w = (Inr (), w')" by (cases z) auto
    moreover have "list_all guarded_ddl script" using assms(2) guarded_migrations by blast
    ultimately show ?thesis using assms(1) run_script_again by blast
  qed
  with z show ?thesis by (cases z) auto
qed

subsection \<open>Rows under a schema\<close>




text \<open>Equality under a collation: \<open>utf8mb4_bin\<close> pads with spaces, the others compare as they are.\<close>

definition strip_spaces :: "str \<Rightarrow> str" where
  "strip_spaces s = rev (dropWhile (\<lambda>c. c = 32) (rev s))"

fun same_text :: "collation \<Rightarrow> str \<Rightarrow> str \<Rightarrow> bool" where
  "same_text Utf8mb4_bin s t = (strip_spaces s = strip_spaces t)"
| "same_text _ s t = (s = t)"



















subsection \<open>The statements and the schema\<close>

text \<open>The columns a statement names.\<close>

fun stmt_columns :: "stmt \<Rightarrow> string set" where
  "stmt_columns (Insert_row c m t oc) = {''consumer_id'', ''message_id'', ''processed_at''}"
| "stmt_columns (Insert_rows c ms t tok ord oc ret) =
     {''consumer_id'', ''message_id'', ''processed_at''} \<union> (if tok = None then {} else {''claim_token''})"
| "stmt_columns (Select_claimed ms c tok) = {''consumer_id'', ''message_id'', ''claim_token''}"
| "stmt_columns (Select_exists c m) = {''consumer_id'', ''message_id''}"
| "stmt_columns (Delete_row c m) = {''consumer_id'', ''message_id''}"
| "stmt_columns (Delete_oldest co n) = {''processed_at''}"
| "stmt_columns (Script a b) = stmt_columns a \<union> stmt_columns b"
| "stmt_columns _ = {}"

lemma statements_name_columns:
  "\<forall>q\<in>{pg_CLAIM_SQL c m, pg_CLAIM_MANY_SQL c ms, pg_UNCLAIM_SQL c m, pg_KNOWN_DUPLICATE_SQL c m, pg_PURGE_SQL age n}.
     stmt_columns q \<subseteq> col_name ` set (columns pg_inbox_messages)"
  "\<forall>q\<in>{mysql_CLAIM_SQL c m, mysql_CLAIM_MANY_SQL c tok ms, mysql_CLAIMED_BY_TOKEN_SQL ms c tok, mysql_UNCLAIM_SQL c m,
       mysql_KNOWN_DUPLICATE_SQL c m, mysql_PURGE_SQL micros n}.
     stmt_columns q \<subseteq> col_name ` set (columns mysql_inbox_messages)"
  "\<forall>q\<in>{sqlite_CLAIM_SQL c m at, sqlite_CLAIM_MANY_SQL c at ms, sqlite_UNCLAIM_SQL c m, sqlite_KNOWN_DUPLICATE_SQL c m,
       sqlite_PURGE_SQL at n}. stmt_columns q \<subseteq> col_name ` set (columns sqlite_inbox_messages)"
  by (auto simp: sql_defs schema_defs)

text \<open>InnoDB indexes at most 3072 bytes, four for a character of \<open>utf8mb4\<close>: the primary key just fits.\<close>

fun key_bytes :: "sql_type \<Rightarrow> nat" where
  "key_bytes (Varchar n) = 4 * n"
| "key_bytes _ = 0"

lemma mysql_key_fits:
  "sum_list (map (key_bytes \<circ> col_type) (filter (\<lambda>c. col_name c \<in> set (primary_key mysql_inbox_messages))
     (columns mysql_inbox_messages))) \<le> 3072"
  by (simp add: schema_defs)

subsection \<open>A padding collation\<close>

text \<open>The comment at the head of \<^verbatim>\<open>src/src/mysql.rs\<close> says that \<open>utf8mb4_bin\<close> would merge distinct ids, as it ignores
  trailing spaces. Among the ids the API can build there is no such pair: they do not end in whitespace.\<close>

lemma strip_spaces_valid: "valid_id n s \<Longrightarrow> strip_spaces s = s"
  unfolding strip_spaces_def valid_id_def
  by (cases s rule: rev_cases) (auto simp: is_whitespace_def)

lemma padding_merges_no_ids:
  assumes "message_try_from s = Inr a" and "message_try_from t = Inr b"
  shows "same_text Utf8mb4_bin s t \<longleftrightarrow> a = b"
  using assms strip_spaces_valid by (auto simp: message_try_from_ok_iff)

end
