(* ===== verification/Kafka_Service.thy ===== *)
theory Kafka_Service
  imports Kafka_Consumer Retention_Window Migrations
begin

text \<open>
  The whole example \<^verbatim>\<open>src/examples/kafka_consumer.rs\<close>: \<open>main\<close> with its set-up, the receive loop and the purge
  task it spawns. The broker and the ticker decide what comes next, a message, an error or a tick; the purge
  task ends with the process when the loop returns an error. The environment, sqlx's connection and
  migrator and rdkafka's client are arguments.
\<close>

definition purge_policy :: retention_policy where
  "purge_policy = retention_new \<lparr>dur_secs = 7 * 24 * 60 * 60, dur_nanos = 0\<rparr>"

text \<open>One tick of the purge task: the result is logged, whatever it is.\<close>

definition purge_tick :: "('tx, 'w, 'z) inbox_ops_scheme \<Rightarrow> 'w \<Rightarrow> 'w option" where
  "purge_tick purge_inbox w = map_option snd (op_purge purge_inbox purge_policy w)"

datatype input = Received kafka_message | Recv_error str | Tick

text \<open>Each message is handled by the loop body (\<open>consume\<close> on one message). \<open>log\<close> notes the messages with a
  usable key and when they were received.\<close>

fun service ::
  "('tx, 'w, 'z) inbox_ops_scheme consumer \<Rightarrow> (nat list \<Rightarrow> (unit, 'tx, 'w) handler) \<Rightarrow>
   (kafka_message \<Rightarrow> 'k \<Rightarrow> (str + unit) \<times> 'k) \<Rightarrow> ('w \<Rightarrow> int) \<Rightarrow> input list \<Rightarrow> kafka_message list \<Rightarrow>
   (kafka_message \<times> int) list \<Rightarrow> 'k \<Rightarrow> 'w \<Rightarrow>
   (exit \<times> kafka_message list \<times> (kafka_message \<times> int) list \<times> 'k \<times> 'w) option" where
  "service self order_handler commit_message clock [] acked log k w = Some (Received_all, acked, log, k, w)"
| "service self order_handler commit_message clock (Tick # ins) acked log k w =
     (case purge_tick (con_store self) w of
        None \<Rightarrow> None
      | Some w' \<Rightarrow> service self order_handler commit_message clock ins acked log k w')"
| "service self order_handler commit_message clock (Recv_error e # ins) acked log k w =
     Some (Broker_error e, acked, log, k, w)"
| "service self order_handler commit_message clock (Received m # ins) acked log k w =
     (let log' = (if message_key m = None then log else log @ [(m, clock w)])
      in case consume self order_handler commit_message [m] acked k w of
           (Received_all, acked', k', w') \<Rightarrow> service self order_handler commit_message clock ins acked' log' k' w'
         | (x, acked', k', w') \<Rightarrow> Some (x, acked', log', k', w'))"

lemma built_purge_policy: "built_policy purge_policy"
  unfolding purge_policy_def by (rule built_policy.intros)

lemma consume_world:
  "consume self h cm [m] acked k w = (x, acked', k', w') \<Longrightarrow>
    w' = (case message_key m of None \<Rightarrow> w | Some ident \<Rightarrow> snd (process self ident (h (payload m)) w))"
  by (auto split: option.splits prod.splits sum.splits)

text \<open>The service does to the database what a history of deliveries and purges does.\<close>

lemma service_history:
  assumes "\<And>w. op_purge (con_store self) purge_policy w \<noteq> None"
  shows "\<exists>x acked' ds k' w' es. service self h cm clock ins acked log k w = Some (x, acked', log @ ds, k', w') \<and>
    history self purge_policy clock key_id (\<lambda>m. h (payload m)) es w = Some (ds, w')"
proof (induction ins arbitrary: acked log k w)
  case Nil
  show ?case by (intro exI [of _ Received_all] exI [of _ acked] exI [of _ "[]"] exI [of _ k] exI [of _ w]) simp
next
  case (Cons i ins)
  show ?case
  proof (cases i)
    case Tick
    obtain r w1 where w1: "op_purge (con_store self) purge_policy w = Some (r, w1)" using assms [of w] by auto
    from Cons.IH [of acked log k w1] obtain x acked' ds k' w' es where
      "service self h cm clock ins acked log k w1 = Some (x, acked', log @ ds, k', w')"
      "history self purge_policy clock key_id (\<lambda>m. h (payload m)) es w1 = Some (ds, w')" by blast
    moreover from this w1 have "history self purge_policy clock key_id (\<lambda>m. h (payload m)) (Purge # es) w = Some (ds, w')"
      by simp
    ultimately show ?thesis using Tick w1
      by (intro exI [of _ x] exI [of _ acked'] exI [of _ ds] exI [of _ k'] exI [of _ w'] exI [of _ "Purge # es"])
        (simp add: purge_tick_def)
  next
    case (Recv_error e)
    then show ?thesis
      by (intro exI [of _ "Broker_error e"] exI [of _ acked] exI [of _ "[]"] exI [of _ k] exI [of _ w]) simp
  next
    case (Received m)
    obtain y acked1 k1 w1 where y: "consume self h cm [m] acked k w = (y, acked1, k1, w1)" by (metis prod_cases4)
    let ?ds = "if message_key m = None then [] else [(m, clock w)]"
    let ?es = "if message_key m = None then [] else [Deliver m]"
    have step: "history self purge_policy clock key_id (\<lambda>m. h (payload m)) (?es @ es) w = Some (?ds @ ds, w')"
      if "history self purge_policy clock key_id (\<lambda>m. h (payload m)) es w1 = Some (ds, w')" for es ds w'
      using that consume_world [OF y] by (cases "message_key m") (auto split: prod.splits)
    show ?thesis
    proof (cases "y = Received_all")
      case True
      from Cons.IH [of acked1 "log @ ?ds" k1 w1] obtain x acked' ds k' w' es where
        "service self h cm clock ins acked1 (log @ ?ds) k1 w1 = Some (x, acked', (log @ ?ds) @ ds, k', w')"
        "history self purge_policy clock key_id (\<lambda>m. h (payload m)) es w1 = Some (ds, w')" by blast
      with True Received y step [of es ds w'] show ?thesis
        by (intro exI [of _ x] exI [of _ acked'] exI [of _ "?ds @ ds"] exI [of _ k'] exI [of _ w'] exI [of _ "?es @ es"])
          (cases "message_key m"; simp del: consume.simps history.simps)
    next
      case False
      with Received y step [of "[]" "[]" w1] show ?thesis
        by (intro exI [of _ y] exI [of _ acked1] exI [of _ ?ds] exI [of _ k1] exI [of _ w1] exI [of _ ?es])
          (cases y; simp del: consume.simps)
    qed
  qed
qed

text \<open>The service, purge task included, keeps running until the loop exits, and stores no order twice
  as long as the messages of a key are received within the window its policy keeps: the orders stored
  are the payloads of some of the received messages, no two with the same key.\<close>

lemma service_once:
  assumes "window_backend d com st live since clock purge_policy keep (pg_store d)" and "con_store self = pg_store d"
    and "\<And>p. timed_handler com st since clock (eff p) (order_handler p)"
  shows "\<exists>x acked' ds k' w'. service self order_handler commit_message clock ins acked [] k w = Some (x, acked', ds, k', w') \<and>
    (same_window key_id keep ds \<longrightarrow>
      (\<exists>ys. set ys \<subseteq> set ds \<and> distinct (map (\<lambda>d. key_id (fst d)) ys) \<and>
         rest (com w') = fold (\<lambda>m. eff (payload m)) (map fst ys) (rest (com w))))"
proof -
  have timed: "timed_store (pg_store d) com st since clock purge_policy keep"
    using window_backend_timed [OF assms(1)] .
  have "sql_driver d com st live"
    using assms(1) by (auto simp: window_backend_def timed_driver_def timed_mysql_driver_def timed_sqlite_driver_def)
  then have "op_purge (con_store self) purge_policy w \<noteq> None" for w
    using sql_driver.purge_loop_post [OF _ built_purge_policy, of d com st live _ w]
    unfolding assms(2) pg_store_simps pg_purge_def pg_sql_defs by (metis option.distinct(1))
  from service_history [OF this, of order_handler commit_message clock ins acked "[]" k w]
  obtain x acked' ds k' w' es where
    run: "service self order_handler commit_message clock ins acked [] k w = Some (x, acked', ds, k', w')"
    and hist: "history self purge_policy clock key_id (\<lambda>m. order_handler (payload m)) es w = Some (ds, w')" by auto
  have "\<exists>ys. set ys \<subseteq> set ds \<and> distinct (map (\<lambda>d. key_id (fst d)) ys) \<and>
      rest (com w') = fold (\<lambda>m. eff (payload m)) (map fst ys) (rest (com w))" if "same_window key_id keep ds"
    using timed_store.history_once [OF timed assms(2) assms(3) hist, of "[]"] that by (simp add: guarded_def)
  with run show ?thesis by blast
qed

subsection \<open>main\<close>

text \<open>Every \<open>?\<close> of the set-up is an exit of \<open>main\<close>; \<open>Ran\<close> is the loop, which a broker or a store error ends, or which has handled
  all it received so far.\<close>

datatype main_exit =
    No_database_url
  | Connect_failed str
  | Migrate_failed inbox_error
  | Bad_consumer invalid_id
  | Kafka_failed str
  | Ran exit

definition kafka_settings :: "(string \<times> string) list" where
  "kafka_settings =
     [(''bootstrap.servers'', ''localhost:9092''), (''group.id'', ''orders-billing''), (''enable.auto.commit'', ''false'')]"

definition kafka_main ::
  "(string \<Rightarrow> str option) \<Rightarrow> (nat \<Rightarrow> str \<Rightarrow> 'w \<Rightarrow> (str + ('tx, 'w) driver) \<times> 'w) \<Rightarrow>
   (('tx, 'w) driver \<Rightarrow> ddl list list \<Rightarrow> 'w \<Rightarrow> (str + unit) \<times> 'w) \<Rightarrow>
   ((string \<times> string) list \<Rightarrow> 'k \<Rightarrow> (str + unit) \<times> 'k) \<Rightarrow> (string list \<Rightarrow> 'k \<Rightarrow> (str + unit) \<times> 'k) \<Rightarrow>
   (nat list \<Rightarrow> (unit, 'tx, 'w) handler) \<Rightarrow> (kafka_message \<Rightarrow> 'k \<Rightarrow> (str + unit) \<times> 'k) \<Rightarrow> ('w \<Rightarrow> int) \<Rightarrow>
   input list \<Rightarrow> 'k \<Rightarrow> 'w \<Rightarrow>
   (main_exit \<times> kafka_message list \<times> (kafka_message \<times> int) list \<times> 'k \<times> 'w) option" where
  "kafka_main env connect run create subscribe order_handler commit_message clock ins k w =
     (case env ''DATABASE_URL'' of
        None \<Rightarrow> Some (No_database_url, [], [], k, w)
      | Some url \<Rightarrow>
         (case connect 8 url w of
            (Inl e, w1) \<Rightarrow> Some (Connect_failed e, [], [], k, w1)
          | (Inr pool, w1) \<Rightarrow>
             (let inbox = pg_store pool
              in case pg_migrate (run pool) w1 of
                   (Inl e, w2) \<Rightarrow> Some (Migrate_failed e, [], [], k, w2)
                 | (Inr _, w2) \<Rightarrow>
                    (case consumer_try_from (lit ''orders-billing'') of
                       Inl e \<Rightarrow> Some (Bad_consumer e, [], [], k, w2)
                     | Inr c \<Rightarrow>
                        (let orders = inbox_consumer inbox c
                         in case create kafka_settings k of
                              (Inl e, k1) \<Rightarrow> Some (Kafka_failed e, [], [], k1, w2)
                            | (Inr _, k1) \<Rightarrow>
                               (case subscribe [''orders.created''] k1 of
                                  (Inl e, k2) \<Rightarrow> Some (Kafka_failed e, [], [], k2, w2)
                                | (Inr _, k2) \<Rightarrow>
                                    map_option (apfst Ran)
                                      (service orders order_handler commit_message clock ins [] [] k2 w2)))))))"

lemma orders_billing_id: "consumer_try_from (lit ''orders-billing'') = Inr (ConsumerId (lit ''orders-billing''))"
  by code_simp

text \<open>\<open>main\<close> exits during the set-up, or hands over to the service on a connected pool.\<close>

lemma kafka_main_cases:
  assumes connect: "\<And>url w r w'. connect 8 url w = (r, w') \<Longrightarrow> rest (com w') = rest (com w) \<and> (\<forall>d. r = Inr d \<longrightarrow> ok d)"
    and migrator: "\<And>d ms w r w'. run d ms w = (r, w') \<Longrightarrow> rest (com w') = rest (com w)"
    and "main = kafka_main env connect run create subscribe order_handler commit_message clock ins k w"
  shows "(\<exists>x k' w'. main = Some (x, [], [], k', w') \<and> rest (com w') = rest (com w) \<and>
      (\<forall>e. x \<noteq> Bad_consumer e) \<and> (\<forall>y. x \<noteq> Ran y)) \<or>
    (\<exists>d k' w'. main = map_option (apfst Ran) (service (inbox_consumer (pg_store d) (ConsumerId (lit ''orders-billing'')))
        order_handler commit_message clock ins [] [] k' w') \<and> rest (com w') = rest (com w) \<and> ok d)"
proof (cases "env ''DATABASE_URL''")
  case None
  then show ?thesis unfolding assms(3) by (simp add: kafka_main_def)
next
  case (Some url)
  obtain r w1 where w1: "connect 8 url w = (r, w1)" by (metis surj_pair)
  show ?thesis
  proof (cases r)
    case (Inl e)
    with Some w1 connect [OF w1] show ?thesis unfolding assms(3) by (simp add: kafka_main_def)
  next
    case (Inr pool)
    obtain q w2 where w2: "pg_migrate (run pool) w1 = (q, w2)" by (metis surj_pair)
    then have "rest (com w2) = rest (com w)"
      using migrator [of pool "[pg_MIGRATION_SQL]" w1] connect [OF w1] by (auto simp: pg_migrate_def split: prod.splits)
    with Some w1 w2 Inr connect [OF w1] show ?thesis
      unfolding assms(3) kafka_main_def orders_billing_id
      by (simp add: Let_def del: service.simps split: sum.splits prod.splits) blast
  qed
qed

text \<open>C14: \<open>main\<close> of the example. Its consumer id is valid. If the set-up fails, nothing is acknowledged and no data
  is changed. Otherwise the service, purge task included, runs until the loop exits, and stores no order twice as long
  as the messages of a key are received within the window its policy keeps: the orders stored are the payloads
  of some of the received messages, no two with the same key. Relied on: connecting and migrating leave the
  application's data alone, and a connected pool behaves as the timed driver contract says.\<close>

theorem kafka_main_once:
  assumes connect: "\<And>url w r w'. connect 8 url w = (r, w') \<Longrightarrow> rest (com w') = rest (com w) \<and>
      (\<forall>d. r = Inr d \<longrightarrow> window_backend d com st live since clock purge_policy keep (pg_store d))"
    and migrator: "\<And>d ms w r w'. run d ms w = (r, w') \<Longrightarrow> rest (com w') = rest (com w)"
    and handler: "\<And>p. timed_handler com st since clock (eff p) (order_handler p)"
  shows "\<exists>x acked ds k' w'. kafka_main env connect run create subscribe order_handler commit_message clock ins k w =
      Some (x, acked, ds, k', w') \<and>
    (\<forall>e. x \<noteq> Bad_consumer e) \<and>
    ((\<forall>y. x \<noteq> Ran y) \<longrightarrow> acked = [] \<and> ds = [] \<and> rest (com w') = rest (com w)) \<and>
    (same_window key_id keep ds \<longrightarrow>
      (\<exists>ys. set ys \<subseteq> set ds \<and> distinct (map (\<lambda>d. key_id (fst d)) ys) \<and>
         rest (com w') = fold (\<lambda>m. eff (payload m)) (map fst ys) (rest (com w))))"
proof -
  let ?main = "kafka_main env connect run create subscribe order_handler commit_message clock ins k w"
  let ?ok = "\<lambda>d. window_backend d com st live since clock purge_policy keep (pg_store d)"
  show ?thesis
  proof (rule disjE [OF kafka_main_cases [where ok = ?ok and main = ?main and connect = connect and run = run and com = com]])
    show "rest (com w1) = rest (com w0) \<and> (\<forall>d. r = Inr d \<longrightarrow> ?ok d)" if "connect 8 url w0 = (r, w1)" for url w0 r w1
      by (rule connect [OF that])
    show "rest (com w1) = rest (com w0)" if "run d ms w0 = (r, w1)" for d ms w0 r w1
      by (rule migrator [OF that])
  next
    assume "\<exists>x k' w'. ?main = Some (x, [], [], k', w') \<and> rest (com w') = rest (com w) \<and>
      (\<forall>e. x \<noteq> Bad_consumer e) \<and> (\<forall>y. x \<noteq> Ran y)"
    then obtain x k' w' where "?main = Some (x, [], [], k', w')" "rest (com w') = rest (com w)" "\<forall>e. x \<noteq> Bad_consumer e"
      by blast
    then show ?thesis
      by (intro exI [of _ x] exI [of _ "[]"] exI [of _ k'] exI [of _ w']) (auto intro!: exI [of _ "[]"])
  next
    let ?c = "\<lambda>d. inbox_consumer (pg_store d) (ConsumerId (lit ''orders-billing''))"
    assume "\<exists>d k' w'. ?main = map_option (apfst Ran) (service (?c d) order_handler commit_message clock ins [] [] k' w') \<and>
      rest (com w') = rest (com w) \<and> ?ok d"
    then obtain d k2 w2 where main: "?main = map_option (apfst Ran) (service (?c d) order_handler commit_message clock ins [] [] k2 w2)"
      and rest: "rest (com w2) = rest (com w)" and ok: "?ok d" by blast
    have "con_store (?c d) = pg_store d" by (simp add: inbox_consumer_def consumer_new_def)
    from service_once [where order_handler = order_handler and eff = eff and commit_message = commit_message and ins = ins and acked = "[]" and k = k2 and w = w2,
        OF ok this handler]
    obtain x acked ds k' w' where x: "service (?c d) order_handler commit_message clock ins [] [] k2 w2 = Some (x, acked, ds, k', w')"
      and once: "same_window key_id keep ds \<longrightarrow> (\<exists>ys. set ys \<subseteq> set ds \<and> distinct (map (\<lambda>d. key_id (fst d)) ys) \<and>
        rest (com w') = fold (\<lambda>m. eff (payload m)) (map fst ys) (rest (com w)))" unfolding rest by blast
    from main x have "?main = Some (Ran x, acked, ds, k', w')" by simp
    with once show ?thesis
      by (intro exI [of _ "Ran x"] exI [of _ acked] exI [of _ ds] exI [of _ k'] exI [of _ w']) simp
  qed simp
qed

lemma window_backend_week:
  "window_backend (ref_driver sv) ref_com ref_st ref_live ref_since ref_clock purge_policy 604800000000 (pg_store (ref_driver sv))"
proof -
  have age: "as_micros (max_age purge_policy) = 604800000000" by code_simp
  show ?thesis by (simp add: window_backend_def ref_timed.timed_driver_axioms age)
qed

text \<open>A message, a tick, the message again, one without a key, an error of the broker.\<close>

lemma kafka_main_once_witness:
  "\<exists>x acked ds k' w'. kafka_main (\<lambda>_. Some (lit ''postgres://'')) (\<lambda>_ _ w. (Inr (ref_driver calm), w)) (\<lambda>_ _ w. (Inr (), w))
       (\<lambda>_ k. (Inr (), k)) (\<lambda>_ k. (Inr (), k)) store_order (\<lambda>m k. (Inr (), k)) ref_clock
       [Received (hd sample_messages), Tick, Received (hd sample_messages), Received (sample_messages ! 1),
        Recv_error (lit ''gone'')] () empty_world =
       Some (x, acked, ds, k', w') \<and> rest (ref_com w') = [[1]] \<and>
     (\<exists>ys. set ys \<subseteq> set ds \<and> distinct (map (\<lambda>d. key_id (fst d)) ys) \<and>
        rest (ref_com w') = fold (\<lambda>m. Cons (payload m)) (map fst ys) (rest (ref_com empty_world)))"
proof -
  let ?ins = "[Received (hd sample_messages), Tick, Received (hd sample_messages), Received (sample_messages ! 1),
    Recv_error (lit ''gone'')]"
  let ?main = "kafka_main (\<lambda>_. Some (lit ''postgres://'')) (\<lambda>_ _ w. (Inr (ref_driver calm), w)) (\<lambda>_ _ w. (Inr (), w))
    (\<lambda>_ k. (Inr (), k)) (\<lambda>_ k. (Inr (), k)) store_order (\<lambda>m k. (Inr (), k)) ref_clock ?ins () empty_world"
  have h: "timed_handler ref_com ref_st ref_since ref_clock (Cons p) (store_order p)" for p
    unfolding store_order_def using ref_handler_timed [of "\<lambda>_. Cons p" "msg ''-''" "[]"] by simp
  have "\<exists>x acked ds k' w'. ?main = Some (x, acked, ds, k', w') \<and> (\<forall>e. x \<noteq> Bad_consumer e) \<and>
    ((\<forall>y. x \<noteq> Ran y) \<longrightarrow> acked = [] \<and> ds = [] \<and> rest (ref_com w') = rest (ref_com empty_world)) \<and>
    (same_window key_id 604800000000 ds \<longrightarrow> (\<exists>ys. set ys \<subseteq> set ds \<and> distinct (map (\<lambda>d. key_id (fst d)) ys) \<and>
      rest (ref_com w') = fold (\<lambda>m. Cons (payload m)) (map fst ys) (rest (ref_com empty_world))))"
    by (rule kafka_main_once [where st = ref_st and live = ref_live and since = ref_since])
      (use window_backend_week [of calm] h in auto)
  then obtain x acked ds k' w' where run: "?main = Some (x, acked, ds, k', w')"
    and once: "same_window key_id 604800000000 ds \<Longrightarrow> \<exists>ys. set ys \<subseteq> set ds \<and> distinct (map (\<lambda>d. key_id (fst d)) ys) \<and>
      rest (ref_com w') = fold (\<lambda>m. Cons (payload m)) (map fst ys) (rest (ref_com empty_world))"
    by blast
  have "map_option (\<lambda>(x, acked, ds, k', w'). (map snd ds, rest (ref_com w'))) ?main = Some ([0, 4], [[1]])" by code_simp
  with run have ds: "map snd ds = [0, 4]" and w': "rest (ref_com w') = [[1]]" by auto
  from ds have "same_window key_id 604800000000 ds" by (auto simp: same_window_def map_eq_Cons_conv)
  with run once w' show ?thesis by (intro exI [of _ x] exI [of _ acked] exI [of _ ds] exI [of _ k'] exI [of _ w']) simp
qed

end
