(* ===== verification/Purge_Age.thy ===== *)
theory Purge_Age
  imports Retention_Window
begin

text \<open>
  \<open>purge\<close> of PostgreSQL and MySQL. Each of its statements computes the cutoff from the server's clock, so what is
  removed and what is left is stated against that clock: nothing younger than \<open>max_age\<close> when the purge
  ends is removed, and nothing that was older when it started is left. The servers' date
  arithmetic is a hypothesis: PostgreSQL gets \<open>max_age\<close> as a float of seconds, which may be off by \<open>err\<close>
  microseconds; MySQL subtracts whole microseconds, and has no date (\<open>NULL\<close>) where the result is out of its range.
\<close>

subsection \<open>What a purge does, by the clock\<close>

definition purge_aged ::
  "('w \<Rightarrow> 'u database) \<Rightarrow> ('w \<Rightarrow> int) \<Rightarrow> int \<Rightarrow> int \<Rightarrow> int set \<Rightarrow> 'w \<Rightarrow> inbox_error + u64 \<Rightarrow> 'w \<Rightarrow> bool" where
  "purge_aged com clock keep stay null w r w' \<longleftrightarrow>
     rest (com w') = rest (com w) \<and>
     (\<forall>k. inbox_messages (com w') k = inbox_messages (com w) k \<or>
        (inbox_messages (com w') k = None \<and>
         (\<exists>row. inbox_messages (com w) k = Some row \<and> processed_at row + keep < clock w'))) \<and>
     (case r of
        Inl _ \<Rightarrow> True
      | Inr n \<Rightarrow>
          n = of_nat (card (dom (inbox_messages (com w)) - dom (inbox_messages (com w')))) \<and>
          ((\<exists>t\<in>null. clock w \<le> t \<and> t \<le> clock w') \<or>
           (\<forall>k row. inbox_messages (com w') k = Some row \<longrightarrow> clock w \<le> processed_at row + stay)))"

text \<open>What is relied on beside \<open>timed_driver\<close>: a statement run on the pool sees a time between its start and its end.\<close>

locale punctual_driver = timed_driver d com st live since clock
  for d :: "('tx, 'w) driver" and com :: "'w \<Rightarrow> 'u database" and st :: "'tx \<Rightarrow> 'u txn"
    and live :: "'tx \<Rightarrow> 'w \<Rightarrow> bool" and since :: "int \<Rightarrow> 'tx \<Rightarrow> 'w \<Rightarrow> bool" and clock :: "'w \<Rightarrow> int" +
  assumes pool_now: "drv_pool d q w = (Inr r, w') \<Longrightarrow> \<exists>now v s'. clock w \<le> now \<and> now \<le> clock w' \<and>
      sql_post (drv_cutoff d) now q (start_txn v (com w)) r s' \<and> com w' = txn_db s'"
begin

text \<open>A delete whose batch was not full leaves nothing before its cutoff.\<close>

lemma pool_delete_rest:
  fixes batch :: u32
  assumes "drv_pool d (Delete_oldest co (unat batch)) w = (Inr y, w')" and "rows_affected y < ucast batch"
  shows "\<exists>now. clock w \<le> now \<and> now \<le> clock w' \<and> old_keys (drv_cutoff d now co) (inbox_messages (com w')) = {}"
proof -
  obtain now v s' where now: "clock w \<le> now" "now \<le> clock w'"
    and post: "sql_post (drv_cutoff d) now (Delete_oldest co (unat batch)) (start_txn v (com w)) y s'" "com w' = txn_db s'"
    using pool_now [OF assms(1)] by blast
  from post obtain K where K: "oldest (drv_cutoff d now co) (unat batch) (inbox_messages (com w)) K"
    and w': "inbox_messages (com w') = inbox_messages (com w) |` (- K)" and n: "unat (rows_affected y) = card K"
    by auto
  have "card K < unat batch" using assms(2) n by (simp add: word_less_nat_alt unat_ucast_widen)
  from delete_oldest_step(4) [where csub = "drv_cutoff d" and now = now and co = co, OF finite_table K this] w' now show ?thesis by auto
qed

lemma purge_loop_aged:
  assumes p: "built_policy p"
    and keep: "\<And>now lim. drv_cutoff d now co = Some lim \<Longrightarrow> lim + keep \<le> now"
    and stay: "\<And>now lim. drv_cutoff d now co = Some lim \<Longrightarrow> now \<le> lim + stay"
  shows "\<exists>r w'. purge_loop d (Delete_oldest co (unat (batch_size p))) (batch_size p) 0 w = Some (r, w') \<and>
    purge_aged com clock keep stay {t. drv_cutoff d t co = None} w r w'"
proof -
  let ?q = "Delete_oldest co (unat (batch_size p))"
  obtain r w' where run: "purge_loop d ?q (batch_size p) 0 w = Some (r, w')"
    and post: "purge_post (drv_cutoff d) co (com w) r (com w')" using purge_loop_post [OF p, of co w] by blast
  have "spares_window com clock keep w w'"
    by (rule purge_loop_timed [OF _ run]) (use keep in fastforce)
  then have kept: "inbox_messages (com w') k = inbox_messages (com w) k \<or> (inbox_messages (com w') k = None \<and>
      (\<exists>row. inbox_messages (com w) k = Some row \<and> processed_at row + keep < clock w'))" for k
    using post unfolding spares_window_def purge_post_def purged_rows_def by (metis option.exhaust)
  have left: "(\<exists>t\<in>{t. drv_cutoff d t co = None}. clock w \<le> t \<and> t \<le> clock w') \<or>
      (\<forall>k row. inbox_messages (com w') k = Some row \<longrightarrow> clock w \<le> processed_at row + stay)" if n: "r = Inr n" for n
  proof -
    have "\<exists>w1 y. clock w \<le> clock w1 \<and> drv_pool d ?q w1 = (Inr y, w') \<and> rows_affected y < ucast (batch_size p)"
    proof (rule purge_loop_last [where T = "\<lambda>w w'. clock w \<le> clock w'"])
      show "purge_loop d ?q (batch_size p) 0 w = Some (Inr n, w')" using run n by simp
    qed (use pool_clock in auto)
    then obtain w1 y where w1: "clock w \<le> clock w1" "drv_pool d ?q w1 = (Inr y, w')" "rows_affected y < ucast (batch_size p)"
      by blast
    from pool_delete_rest [OF w1(2,3)] obtain now where now: "clock w1 \<le> now" "now \<le> clock w'"
      "old_keys (drv_cutoff d now co) (inbox_messages (com w')) = {}" by blast
    show ?thesis
    proof (cases "drv_cutoff d now co")
      case (Some lim)
      have "lim \<le> processed_at row" if "inbox_messages (com w') k = Some row" for k row
        using now(3) that Some unfolding old_keys_def by (metis (mono_tags, lifting) empty_Collect_eq linorder_not_le)
      then have "clock w \<le> processed_at row + stay" if "inbox_messages (com w') k = Some row" for k row
        using stay [OF Some] now(1) w1(1) that by fastforce
      then show ?thesis by blast
    qed (use now w1(1) in auto)
  qed
  have "purge_aged com clock keep stay {t. drv_cutoff d t co = None} w r w'"
  proof (cases r)
    case (Inl e)
    then show ?thesis using kept post unfolding purge_aged_def purge_post_def by simp
  next
    case (Inr n)
    then show ?thesis using kept post left [OF Inr] unfolding purge_aged_def purge_post_def Inr sum.case by blast
  qed
  with run show ?thesis by blast
qed

end

interpretation ref_punctual: punctual_driver "ref_driver sv" ref_com ref_st ref_live ref_since ref_clock for sv
proof (unfold_locales, goal_cases)
  case (1 q w r w')
  then have run: "ref_pool sv q w = (Inr r, w')" by simp
  have "ref_clock w \<le> int (w_step w)" "int (w_step w) \<le> ref_clock w'"
    using ref_pool_clock [OF run] by (simp_all add: ref_clock_def)
  with ref_pool_post [OF run] show ?case unfolding ref_driver_simps by auto
qed

subsection \<open>The two backends\<close>

text \<open>C19: \<open>PgInbox::purge\<close> always returns, for every policy the API can build. Only rows of the inbox table go, and
  only rows older than \<open>max_age\<close> when it ends; when it returns a count, the count is the number of rows
  removed, and no row is left that was older than \<open>max_age\<close> when it started. After an error, too, only old rows
  are gone. Ages are by the server's clock, up to its rounding \<open>err\<close> of the seconds it is sent.\<close>

theorem pg_purge_correct:
  assumes "punctual_driver d com st live since clock" and "built_policy p"
    and dates: "\<And>age t. \<exists>lim. drv_cutoff d t (Now_minus_secs age) = Some lim \<and> \<bar>t - uint (as_micros age) - lim\<bar> \<le> err"
  shows "\<exists>r w'. pg_purge d p w = Some (r, w') \<and>
    purge_aged com clock (uint (as_micros (max_age p)) - err) (uint (as_micros (max_age p)) + err) {} w r w'"
proof -
  let ?co = "Now_minus_secs (max_age p)" and ?age = "uint (as_micros (max_age p))"
  have some: "drv_cutoff d t ?co \<noteq> None" for t using dates [of t "max_age p"] by auto
  have "lim + (?age - err) \<le> t \<and> t \<le> lim + (?age + err)" if "drv_cutoff d t ?co = Some lim" for t lim
    using dates [of t "max_age p"] that by auto
  with punctual_driver.purge_loop_aged [OF assms(1,2), of ?co "?age - err" "?age + err" w] some show ?thesis
    unfolding pg_purge_def pg_sql_defs by simp
qed

lemma pg_purge_correct_witness:
  "\<exists>w'. pg_purge (ref_driver calm) small_policy old_world = Some (Inr 2, w') \<and>
     purge_aged ref_com ref_clock 10 10 {} old_world (Inr 2) w'"
proof -
  have run: "map_option fst (pg_purge (ref_driver calm) small_policy old_world) = Some (Inr 2)" by code_simp
  have age: "uint (as_micros (max_age small_policy)) = 10" by code_simp
  have "\<exists>r w'. pg_purge (ref_driver calm) small_policy old_world = Some (r, w') \<and>
      purge_aged ref_com ref_clock (uint (as_micros (max_age small_policy)) - 0) (uint (as_micros (max_age small_policy)) + 0)
        {} old_world r w'"
    by (rule pg_purge_correct [OF ref_punctual.punctual_driver_axioms built_small_policy]) simp
  with run show ?thesis unfolding age by auto
qed

text \<open>C26: \<open>MySqlInbox::purge\<close> always returns and is correct in the same sense, to the microsecond: its age is \<open>max_age\<close> in whole
  microseconds, or \<open>u64::MAX\<close> microseconds when that does not fit. Where the server has no date that far in the
  past the cutoff is \<open>NULL\<close>, and rows may be left.\<close>

theorem mysql_purge_correct:
  assumes "punctual_driver d com st live since clock" and "built_policy p"
    and dates: "\<And>n t lim. drv_cutoff d t (Now_minus_micros n) = Some lim \<Longrightarrow> lim = t - uint n"
  shows "\<exists>r w' age. mysql_purge d p w = Some (r, w') \<and>
    unat age = min (unat (dur_secs (max_age p)) * 1000000 + unat (dur_nanos (max_age p)) div 1000) (2 ^ 64 - 1) \<and>
    purge_aged com clock (uint age) (uint age) {t. drv_cutoff d t (Now_minus_micros age) = None} w r w'"
proof -
  let ?age = "u64_or_max (as_micros (max_age p))"
  have "unat ?age = min (unat (dur_secs (max_age p)) * 1000000 + unat (dur_nanos (max_age p)) div 1000) (2 ^ 64 - 1)"
    by (simp add: unat_u64_or_max unat_as_micros)
  moreover have "lim + uint ?age \<le> t \<and> t \<le> lim + uint ?age" if "drv_cutoff d t (Now_minus_micros ?age) = Some lim" for t lim
    using dates [OF that] by simp
  ultimately show ?thesis
    using punctual_driver.purge_loop_aged [OF assms(1,2), of "Now_minus_micros ?age" "uint ?age" "uint ?age" w]
    unfolding mysql_purge_def mysql_sql_defs Let_def by blast
qed

lemma mysql_purge_correct_witness:
  "\<exists>w' (age :: u64). mysql_purge (ref_driver calm) small_policy old_world = Some (Inr 2, w') \<and> unat age = 10 \<and>
     purge_aged ref_com ref_clock (uint age) (uint age) {} old_world (Inr 2) w'"
proof -
  have "map_option fst (mysql_purge (ref_driver calm) small_policy old_world) = Some (Inr 2)" by code_simp
  moreover have "min (unat (dur_secs (max_age small_policy)) * 1000000 + unat (dur_nanos (max_age small_policy)) div 1000) (2 ^ 64 - 1) = 10"
    by (simp add: small_policy_def with_batch_size_def retention_new_def)
  moreover have "\<exists>r w' age. mysql_purge (ref_driver calm) small_policy old_world = Some (r, w') \<and>
      unat age = min (unat (dur_secs (max_age small_policy)) * 1000000 + unat (dur_nanos (max_age small_policy)) div 1000) (2 ^ 64 - 1) \<and>
      purge_aged ref_com ref_clock (uint age) (uint age) {t. drv_cutoff (ref_driver calm :: (nat ref_tx, nat ref_world) driver) t (Now_minus_micros age) = None} old_world r w'"
    by (rule mysql_purge_correct [OF ref_punctual.punctual_driver_axioms built_small_policy]) simp
  ultimately show ?thesis by auto
qed

end
