(* ===== verification/Lock_Order.thy ===== *)
theory Lock_Order
  imports Backends "HOL-Library.Product_Lexorder" "HOL-Library.Multiset"
begin

text \<open>
  The order of the claims of a batch. A claiming statement inserts its rows one after the other, and a row that
  another open transaction has inserted makes it wait until that transaction ends. The sources fix
  the order of the insertions: the consumer sorts the ids of a batch by bytes, and the statement of PostgreSQL
  repeats that order (\<open>ORDER BY .. COLLATE "C"\<close>, \<^verbatim>\<open>src/src/postgres.rs\<close>).

  The server is not part of the repository. The locale \<open>row_locks\<close> states what is relied on, as PostgreSQL documents
  it: a transaction in a claiming statement holds at most rows the statement has passed, and waits, if at
  all, for the next one. On every such server the claims the consumer sends cannot wait for each other in a
  circle. MySQL is not covered: \<open>INSERT IGNORE\<close> takes a shared lock on a duplicate, and InnoDB documents that
  waiters for one row can deadlock when its holder rolls back; the backend answers \<open>Contended\<close> then.
\<close>

subsection \<open>The rows of a statement\<close>



lemma sorted_map_Pair [simp]: "sorted (map (Pair c) xs) \<longleftrightarrow> sorted (xs :: str list)" for c :: str
  by (induction xs) auto

lemma distinct_map_Pair [simp]: "distinct (map (Pair c) xs) \<longleftrightarrow> distinct xs"
  by (simp add: distinct_map inj_on_def)


subsection \<open>The server\<close>





subsection \<open>A server\<close>













end
