(* ===== verification/Interference.thy ===== *)
theory Interference
  imports Backends "HOL-Library.Sublist"
begin

text \<open>
  \<open>process\<close> beside other sessions. The contracts of \<open>Store\<close> describe a session that is alone; here other sessions commit
  at any moment, during every statement of a call. What is observed of the server is the log of its commits:
  who committed, the keys recorded, the application's writes. A transaction has keys and writes of its own that
  nobody sees before its commit.

  The servers are not part of the repository. The locale \<open>shared_driver\<close> states what is relied on: an insert that
  ignores conflicts reports one row when the key is new, and from then on nobody else commits that key while the
  transaction is open (the primary key); it reports none when the key is the transaction's own or
  committed; a commit adds the transaction's keys and writes to the log together. Statements, commits and
  connections can fail as before. No purge runs.
\<close>

subsection \<open>The log of commits\<close>

type_synonym 'x commit = "nat \<times> key set \<times> 'x list"

definition recorded_in :: "'x commit list \<Rightarrow> key set" where
  "recorded_in l = (\<Union>(i, K, ys)\<in>set l. K)"

lemma recorded_in_simps [simp]:
  "recorded_in [] = {}" "recorded_in (c # l) = fst (snd c) \<union> recorded_in l" "recorded_in (l @ l') = recorded_in l \<union> recorded_in l'"
  by (auto simp: recorded_in_def split: prod.splits)

text \<open>Commits of others than session \<open>me\<close>, and a log that has grown by them only.\<close>

definition foreign :: "nat \<Rightarrow> 'x commit list \<Rightarrow> bool" where
  "foreign me l \<longleftrightarrow> (\<forall>c\<in>set l. fst c \<noteq> me)"

definition grown :: "nat \<Rightarrow> 'x commit list \<Rightarrow> 'x commit list \<Rightarrow> bool" where
  "grown me l l' \<longleftrightarrow> (\<exists>others. l' = l @ others \<and> foreign me others)"

text \<open>A log to which the session itself has added the commit \<open>c\<close>, among commits of others that do not touch its keys.\<close>

definition grown_by :: "nat \<Rightarrow> 'x commit \<Rightarrow> 'x commit list \<Rightarrow> 'x commit list \<Rightarrow> bool" where
  "grown_by me c l l' \<longleftrightarrow> (\<exists>o1 o2. l' = l @ o1 @ [c] @ o2 \<and> foreign me o1 \<and> foreign me o2 \<and>
     fst (snd c) \<inter> recorded_in (l @ o1) = {})"

lemma grown_refl [simp]: "grown me l l"
  by (simp add: grown_def foreign_def)

lemma grown_trans: "grown me l l' \<Longrightarrow> grown me l' l'' \<Longrightarrow> grown me l l''"
  by (fastforce simp: grown_def foreign_def)

lemma grown_recorded: "grown me l l' \<Longrightarrow> recorded_in l \<subseteq> recorded_in l'"
  by (auto simp: grown_def)

lemma grown_by_after:
  assumes "grown me l l'" and "grown_by me c l' l''"
  shows "grown_by me c l l''"
proof -
  obtain others o1 o2 where "l' = l @ others" "foreign me others" "l'' = l' @ o1 @ [c] @ o2" "foreign me o1" "foreign me o2"
    "fst (snd c) \<inter> recorded_in (l' @ o1) = {}" using assms unfolding grown_def grown_by_def by blast
  then show ?thesis unfolding grown_by_def
    by (intro exI [of _ "others @ o1"] exI [of _ o2]) (auto simp: foreign_def)
qed

subsection \<open>A shared store\<close>

locale shared_store =
  fixes S :: "('tx, 'w, 'z) inbox_ops_scheme" and me :: nat
    and log :: "'w \<Rightarrow> 'x commit list" and own :: "'tx \<Rightarrow> key set" and writes :: "'tx \<Rightarrow> 'x list"
    and live :: "'tx \<Rightarrow> 'w \<Rightarrow> bool"
  assumes sh_begin: "op_begin S w = (Inr tx, w') \<Longrightarrow> live tx w' \<and> own tx = {} \<and> writes tx = [] \<and> grown me (log w) (log w')"
    and sh_begin_err: "op_begin S w = (Inl e, w') \<Longrightarrow> grown me (log w) (log w')"
    and sh_fresh: "live tx w \<Longrightarrow> op_claim S r tx w = (Inr Fresh, tx', w') \<Longrightarrow>
      live tx' w' \<and> own tx' = insert (req_key r) (own tx) \<and> writes tx' = writes tx"
    and sh_duplicate: "live tx w \<Longrightarrow> op_claim S r tx w = (Inr Duplicate, tx', w') \<Longrightarrow>
      req_key r \<in> own tx \<union> recorded_in (log w')"
    and sh_claim: "live tx w \<Longrightarrow> op_claim S r tx w = (x, tx', w') \<Longrightarrow> grown me (log w) (log w')"
    and sh_commit_ok: "live tx w \<Longrightarrow> op_commit S tx w = (Inr (), w') \<Longrightarrow>
      grown_by me (me, own tx, writes tx) (log w) (log w')"
    and sh_commit_err: "live tx w \<Longrightarrow> op_commit S tx w = (Inl e, w') \<Longrightarrow> (\<forall>h. e \<noteq> Handler h) \<and>
      (grown me (log w) (log w') \<or> grown_by me (me, own tx, writes tx) (log w) (log w'))"
    and sh_rollback: "op_rollback S tx w = (y, w') \<Longrightarrow> grown me (log w) (log w')"
    and sh_drop: "grown me (log w) (log (op_drop S tx w))"

text \<open>A handler that claims nothing itself, writes \<open>ys\<close> when it succeeds, and succeeds only with its transaction usable.\<close>

definition shared_handler ::
  "nat \<Rightarrow> ('w \<Rightarrow> 'x commit list) \<Rightarrow> ('tx \<Rightarrow> key set) \<Rightarrow> ('tx \<Rightarrow> 'x list) \<Rightarrow> ('tx \<Rightarrow> 'w \<Rightarrow> bool) \<Rightarrow> 'x list \<Rightarrow>
   ('t, 'tx, 'w) handler \<Rightarrow> bool" where
  "shared_handler me log own writes live ys h \<longleftrightarrow>
     (\<forall>tx w r tx' w'. live tx w \<longrightarrow> h tx w = (r, tx', w') \<longrightarrow> grown me (log w) (log w') \<and>
        (\<forall>v. r = Inr v \<longrightarrow> live tx' w' \<and> own tx' = own tx \<and> writes tx' = writes tx @ ys))"

text \<open>What a call has done to the log, by its result.\<close>

definition process_shared :: "nat \<Rightarrow> key \<Rightarrow> 'x list \<Rightarrow> 'x commit list \<Rightarrow> inbox_error + 't outcome \<Rightarrow> 'x commit list \<Rightarrow> bool" where
  "process_shared me k ys l r l' \<longleftrightarrow>
     (case r of
        Inr (Processed v) \<Rightarrow> grown_by me (me, {k}, ys) l l'
      | Inr DuplicateOutcome \<Rightarrow> grown me l l' \<and> k \<in> recorded_in l'
      | Inl (Handler e) \<Rightarrow> grown me l l'
      | Inl e \<Rightarrow> grown me l l' \<or> grown_by me (me, {k}, ys) l l')"

lemma process_sharedI:
  "grown me l l' \<Longrightarrow> process_shared me k ys l (Inl e) l'"
  "grown_by me (me, {k}, ys) l l' \<Longrightarrow> (\<And>h. e \<noteq> Handler h) \<Longrightarrow> process_shared me k ys l (Inl e) l'"
  by (auto simp: process_shared_def split: inbox_error.split)

context shared_store
begin

lemma process_fresh_shared:
  assumes "con_store self = S" and h: "shared_handler me log own writes live ys h"
    and tx: "live tx w" "own tx = {k}" "writes tx = []" and l: "grown me l (log w)"
    and run: "process_fresh self h tx w = (r, w')"
  shows "process_shared me k ys l r (log w')"
proof -
  obtain x tx1 w1 where x: "h tx w = (x, tx1, w1)" by (metis prod_cases3)
  with h tx(1) have l1: "grown me l (log w1)" using l grown_trans by (metis shared_handler_def)
  show ?thesis
  proof (cases x)
    case (Inl e)
    obtain y w2 where y: "op_rollback S tx1 w1 = (y, w2)" by (metis surj_pair)
    from x Inl y run assms(1) have "r = Inl (Handler e)" "w' = w2" by (simp_all add: process_fresh_def)
    then show ?thesis using process_sharedI(1) [OF grown_trans [OF l1 sh_rollback [OF y]]] by simp
  next
    case (Inr v)
    with h tx x have tx1: "live tx1 w1" "own tx1 = {k}" "writes tx1 = ys" unfolding shared_handler_def by fastforce+
    obtain y w2 where y: "op_commit S tx1 w1 = (y, w2)" by (metis surj_pair)
    show ?thesis
    proof (cases y)
      case (Inl e)
      with x \<open>x = Inr v\<close> y run assms(1) have r: "r = Inl e" "w' = w2" by (simp_all add: process_fresh_def)
      note err = sh_commit_err [OF tx1(1) y [unfolded Inl], unfolded tx1]
      from err [THEN conjunct2] show ?thesis unfolding r
      proof
        assume "grown me (log w1) (log w2)"
        then show "process_shared me k ys l (Inl e) (log w2)" using process_sharedI(1) grown_trans [OF l1] by blast
      next
        assume "grown_by me (me, {k}, ys) (log w1) (log w2)"
        then show "process_shared me k ys l (Inl e) (log w2)"
          using process_sharedI(2) grown_by_after [OF l1] err [THEN conjunct1] by blast
      qed
    next
      case (Inr u)
      with sh_commit_ok [OF tx1(1), of w2] y tx1 l1 grown_by_after
      have "grown_by me (me, {k}, ys) l (log w2)" by (simp add: case_unit_Unity) 
      with x \<open>x = Inr v\<close> y Inr run assms(1) show ?thesis by (auto simp: process_fresh_def process_shared_def)
    qed
  qed
qed

lemma process_interleaved:
  assumes self: "con_store self = S" and h: "shared_handler me log own writes live ys h"
    and run: "process self m h w = (r, w')"
  shows "process_shared me (key_of (con_id self) m) ys (log w) r (log w')"
proof -
  let ?k = "key_of (con_id self) m"
  obtain x w1 where x: "op_begin S w = (x, w1)" by (metis surj_pair)
  show ?thesis
  proof (cases x)
    case (Inl e)
    with x run self sh_begin_err show ?thesis by (auto simp: process_def intro: process_sharedI)
  next
    case (Inr tx)
    note tx = sh_begin [OF x [unfolded Inr]]
    obtain y tx2 w2 where y: "consumer_claim self m tx w1 = (y, tx2, w2)" by (metis prod_cases3)
    then have claim: "op_claim S ((claim_request_new (con_id self) m)\<lparr>req_lock_timeout := con_lock_timeout self\<rparr>) tx w1 = (y, tx2, w2)"
      by (simp add: consumer_claim_def self)
    have l2: "grown me (log w) (log w2)" using sh_claim [OF _ claim] tx grown_trans by blast
    consider e where "y = Inl e" | "y = Inr Duplicate" | "y = Inr Fresh" by (metis claim.exhaust sum.exhaust)
    then show ?thesis
    proof cases
      case 1
      with x Inr y run self have "r = Inl e" "w' = op_drop S tx2 w2" by (simp_all add: process_def)
      then show ?thesis using process_sharedI(1) [OF grown_trans [OF l2 sh_drop]] by simp
    next
      case 2
      then have k: "?k \<in> recorded_in (log w2)" using sh_duplicate [OF _ claim [unfolded 2]] tx by simp
      obtain z w3 where z: "op_rollback S tx2 w2 = (z, w3)" by (metis surj_pair)
      have "grown me (log w2) (log w3)" using sh_rollback [OF z] .
      with k l2 have "grown me (log w) (log w3)" "?k \<in> recorded_in (log w3)"
        using grown_trans grown_recorded by blast+
      with x Inr y 2 z run self show ?thesis
        by (cases z) (auto simp: process_def process_shared_def split: inbox_error.split)
    next
      case 3
      with sh_fresh [OF _ claim [unfolded 3]] tx have "live tx2 w2" "own tx2 = {?k}" "writes tx2 = []" by simp_all
      moreover have "process_fresh self h tx2 w2 = (r, w')" using x Inr y 3 run self by (simp add: process_def)
      ultimately show ?thesis using process_fresh_shared [OF self h _ _ _ l2] by blast
    qed
  qed
qed

end

subsection \<open>A shared server\<close>

text \<open>The statements that only set the lock timeout.\<close>

fun only_sets :: "stmt \<Rightarrow> bool" where
  "only_sets (Set_local_lock_timeout t) = True"
| "only_sets (Set_vars as) = True"
| "only_sets q = False"

lemma only_sets_timeouts [simp]:
  "only_sets (pg_SET_LOCK_TIMEOUT_SQL v)" "only_sets (mysql_SET_LOCK_TIMEOUT_SQL n)" "only_sets mysql_RESTORE_LOCK_TIMEOUT_SQL"
  by (simp_all add: pg_SET_LOCK_TIMEOUT_SQL_def mysql_var_defs)

locale shared_driver =
  fixes d :: "('tx, 'w) driver" and me :: nat
    and log :: "'w \<Rightarrow> 'x commit list" and own :: "'tx \<Rightarrow> key set" and writes :: "'tx \<Rightarrow> 'x list"
    and live :: "'tx \<Rightarrow> 'w \<Rightarrow> bool"
  assumes sd_begin: "drv_begin d qo w = (Inr tx, w') \<Longrightarrow> live tx w' \<and> own tx = {} \<and> writes tx = [] \<and> grown me (log w) (log w')"
    and sd_begin_err: "drv_begin d qo w = (Inl e, w') \<Longrightarrow> grown me (log w) (log w')"
    and sd_insert: "live tx w \<Longrightarrow> oc \<noteq> Update_same \<Longrightarrow> drv_exec d (Insert_row c m t oc) tx w = (Inr r, tx', w') \<Longrightarrow>
      live tx' w' \<and> writes tx' = writes tx \<and>
      (rows_affected r = 1 \<and> own tx' = insert (c, m) (own tx) \<or>
       rows_affected r = 0 \<and> own tx' = own tx \<and> (c, m) \<in> own tx \<union> recorded_in (log w'))"
    and sd_set: "live tx w \<Longrightarrow> only_sets q \<Longrightarrow> drv_exec d q tx w = (Inr r, tx', w') \<Longrightarrow>
      live tx' w' \<and> own tx' = own tx \<and> writes tx' = writes tx"
    and sd_exec: "drv_exec d q tx w = (z, tx', w') \<Longrightarrow> grown me (log w) (log w')"
    and sd_commit_ok: "live tx w \<Longrightarrow> drv_commit d tx w = (Inr (), w') \<Longrightarrow>
      grown_by me (me, own tx, writes tx) (log w) (log w')"
    and sd_commit_err: "live tx w \<Longrightarrow> drv_commit d tx w = (Inl e, w') \<Longrightarrow>
      grown me (log w) (log w') \<or> grown_by me (me, own tx, writes tx) (log w) (log w')"
    and sd_rollback: "drv_rollback d tx w = (y, w') \<Longrightarrow> grown me (log w) (log w')"
    and sd_drop: "grown me (log w) (log (drv_drop d tx w))"
    and sd_utc_now: "drv_utc_now d w = (now, w') \<Longrightarrow> grown me (log w) (log w') \<and> (live tx w \<longrightarrow> live tx w')"
begin

text \<open>What every claim of the three backends does.\<close>

definition claim_shared :: "claim_request \<Rightarrow> 'tx \<Rightarrow> 'w \<Rightarrow> (inbox_error + claim) \<times> 'tx \<times> 'w \<Rightarrow> bool" where
  "claim_shared r tx w res \<longleftrightarrow> (case res of (x, tx', w') \<Rightarrow> grown me (log w) (log w') \<and>
     (x = Inr Fresh \<longrightarrow> live tx' w' \<and> own tx' = insert (req_key r) (own tx) \<and> writes tx' = writes tx) \<and>
     (x = Inr Duplicate \<longrightarrow> req_key r \<in> own tx \<union> recorded_in (log w')))"

lemma set_shared:
  assumes "live tx w" and "only_sets q" and "drv_exec d q tx w = (x, tx', w')"
  shows "grown me (log w) (log w') \<and> (\<forall>r. x = Inr r \<longrightarrow> live tx' w' \<and> own tx' = own tx \<and> writes tx' = writes tx)"
  using sd_set [OF assms(1,2)] sd_exec assms(3) by blast

lemma insert_shared:
  assumes "live tx w" and "oc \<noteq> Update_same"
    and "drv_exec d (Insert_row (consumer_str (req_consumer r)) (message_str (req_id r)) t oc) tx w = (Inr y, tx', w')"
  shows "claim_shared r tx w (Inr (claim_of_affected (rows_affected y)), tx', w')"
    and "live tx' w'" and "writes tx' = writes tx" and "claim_of_affected (rows_affected y) = Duplicate \<Longrightarrow> own tx' = own tx"
    and "claim_of_affected (rows_affected y) = Fresh \<Longrightarrow> own tx' = insert (req_key r) (own tx)"
proof -
  have "(consumer_str (req_consumer r), message_str (req_id r)) = req_key r" by (simp add: key_of_def)
  note ins = sd_insert [OF assms, unfolded this]
  from ins have "rows_affected y = 1 \<or> rows_affected y = 0" by blast
  then show "claim_shared r tx w (Inr (claim_of_affected (rows_affected y)), tx', w')"
    "claim_of_affected (rows_affected y) = Duplicate \<Longrightarrow> own tx' = own tx"
    "claim_of_affected (rows_affected y) = Fresh \<Longrightarrow> own tx' = insert (req_key r) (own tx)"
    using ins sd_exec [OF assms(3)] by (elim disjE; simp add: claim_shared_def claim_of_affected_def)+
  from ins show "live tx' w'" "writes tx' = writes tx" by simp_all
qed

lemma claim_sharedI: "grown me (log w) (log w') \<Longrightarrow> claim_shared r tx w (Inl e, tx', w')"
  by (simp add: claim_shared_def)

lemma claim_shared_after:
  assumes "grown me (log w) (log w1)" and "own tx1 = own tx" "writes tx1 = writes tx" and "claim_shared r tx1 w1 res"
  shows "claim_shared r tx w res"
proof -
  obtain x tx' w' where res: "res = (x, tx', w')" by (metis prod_cases3)
  with assms(4) grown_trans [OF assms(1)] have "grown me (log w) (log w')" by (simp add: claim_shared_def)
  with assms(2-) res show ?thesis by (simp add: claim_shared_def)
qed

lemma pg_claim_shared:
  assumes "live tx w"
  shows "claim_shared r tx w (pg_claim d r tx w)"
proof -
  obtain x tx1 w1 where x: "pg_set_lock_timeout d (req_lock_timeout r) tx w = (x, tx1, w1)" by (metis prod_cases3)
  have set: "grown me (log w) (log w1) \<and> (\<forall>u. x = Inr u \<longrightarrow> live tx1 w1 \<and> own tx1 = own tx \<and> writes tx1 = writes tx)"
    using x assms set_shared [OF assms, of "pg_SET_LOCK_TIMEOUT_SQL (pg_lock_timeout (the (req_lock_timeout r)))"]
    by (auto simp: pg_set_lock_timeout_def split: option.splits prod.splits sum.splits)
  show ?thesis
  proof (cases x)
    case (Inl e)
    with x set show ?thesis by (simp add: pg_claim_def claim_sharedI)
  next
    case (Inr u)
    let ?q = "pg_CLAIM_SQL (consumer_str (req_consumer r)) (message_str (req_id r))"
    obtain y tx2 w2 where y: "drv_exec d ?q tx1 w1 = (y, tx2, w2)" by (metis prod_cases3)
    have "claim_shared r tx1 w1 (case y of Inl e \<Rightarrow> (Inl (pg_claim_error e), tx2, w2)
        | Inr q \<Rightarrow> (Inr (claim_of_affected (rows_affected q)), tx2, w2))"
      using insert_shared(1) [of tx1 w1 Do_nothing r Server_now _ tx2 w2] sd_exec [OF y] set Inr y
      by (auto simp: pg_sql_defs intro!: claim_sharedI split: sum.split)
    from claim_shared_after [OF _ _ _ this] set Inr x y show ?thesis
      by (cases y) (simp_all add: pg_claim_def)
  qed
qed

lemma sqlite_claim_shared:
  assumes "live tx w"
  shows "claim_shared r tx w (sqlite_claim d r tx w)"
proof -
  obtain now w1 where now: "drv_utc_now d w = (now, w1)" by (metis surj_pair)
  let ?q = "sqlite_CLAIM_SQL (consumer_str (req_consumer r)) (message_str (req_id r)) now"
  obtain y tx2 w2 where y: "drv_exec d ?q tx w1 = (y, tx2, w2)" by (metis prod_cases3)
  have w1: "grown me (log w) (log w1)" "live tx w1" using sd_utc_now [OF now] assms by blast+
  have "claim_shared r tx w1 (case y of Inl e \<Rightarrow> (Inl (sqlite_claim_error e), tx2, w2)
      | Inr q \<Rightarrow> (Inr (claim_of_affected (rows_affected q)), tx2, w2))"
    using insert_shared(1) [of tx w1 _ r "At now" _ tx2 w2] sd_exec [OF y] w1 y
    by (auto simp: sqlite_sql_defs intro!: claim_sharedI split: sum.split)
  from claim_shared_after [OF w1(1) _ _ this] now y show ?thesis
    by (cases y) (simp_all add: sqlite_claim_def)
qed

lemma mysql_claim_shared:
  assumes "live tx w"
  shows "claim_shared r tx w (mysql_claim d r tx w)"
proof -
  obtain x tx1 w1 where x: "mysql_set_lock_timeout d (req_lock_timeout r) tx w = (x, tx1, w1)" by (metis prod_cases3)
  have set: "grown me (log w) (log w1) \<and> (\<forall>u. x = Inr u \<longrightarrow> live tx1 w1 \<and> own tx1 = own tx \<and> writes tx1 = writes tx)"
    using x assms set_shared [OF assms, of "mysql_SET_LOCK_TIMEOUT_SQL (mysql_lock_timeout (the (req_lock_timeout r)))"]
    by (auto simp: mysql_set_lock_timeout_def split: option.splits prod.splits sum.splits)
  show ?thesis
  proof (cases x)
    case (Inl e)
    with x set show ?thesis by (simp add: mysql_claim_def claim_sharedI)
  next
    case (Inr u)
    let ?q = "mysql_CLAIM_SQL (consumer_str (req_consumer r)) (message_str (req_id r))"
    obtain y tx2 w2 where y: "drv_exec d ?q tx1 w1 = (y, tx2, w2)" by (metis prod_cases3)
    obtain z tx3 w3 where z: "mysql_restore_lock_timeout d (req_lock_timeout r) tx2 w2 = (z, tx3, w3)" by (metis prod_cases3)
    have l3: "grown me (log w2) (log w3)"
      using z sd_exec by (auto simp: mysql_restore_lock_timeout_def split: option.splits prod.splits sum.splits)
    have restored: "live tx3 w3 \<and> own tx3 = own tx2 \<and> writes tx3 = writes tx2" if "live tx2 w2" "z = Inr v" for v
      using z that set_shared [OF that(1), of mysql_RESTORE_LOCK_TIMEOUT_SQL]
      by (auto simp: mysql_restore_lock_timeout_def split: option.splits prod.splits sum.splits)
    have "claim_shared r tx1 w1 (mysql_claim d r tx w)"
    proof (cases "(\<exists>q. y = Inr q) \<and> (\<exists>v. z = Inr v)")
      case True
      then obtain q v where q: "y = Inr q" "z = Inr v" by blast
      have "Ignore_row \<noteq> Update_same" by simp
      note ins = insert_shared [OF _ this y [unfolded q mysql_CLAIM_SQL_def]]
      have "recorded_in (log w2) \<subseteq> recorded_in (log w3)" "grown me (log w1) (log w3)"
        using l3 grown_recorded grown_trans [OF sd_exec [OF y]] by blast+
      then show ?thesis using ins set Inr x y z q restored
        by (auto simp: claim_shared_def mysql_claim_def)
    next
      case False
      then show ?thesis using x y z Inr grown_trans [OF sd_exec [OF y] l3]
        by (cases y; cases z) (auto simp: mysql_claim_def intro: claim_sharedI)
    qed
    from claim_shared_after [OF _ _ _ this] set Inr show ?thesis by simp
  qed
qed

lemma sql_shared:
  "sql_begin d qo w = (Inr tx, w') \<Longrightarrow> live tx w' \<and> own tx = {} \<and> writes tx = [] \<and> grown me (log w) (log w')"
  "sql_begin d qo w = (Inl e, w') \<Longrightarrow> grown me (log w) (log w')"
  "live tx w \<Longrightarrow> sql_commit d tx w = (Inr (), w') \<Longrightarrow> grown_by me (me, own tx, writes tx) (log w) (log w')"
  "live tx w \<Longrightarrow> sql_commit d tx w = (Inl e, w') \<Longrightarrow> (\<forall>h. e \<noteq> Handler h) \<and>
     (grown me (log w) (log w') \<or> grown_by me (me, own tx, writes tx) (log w) (log w'))"
  "sql_rollback d tx w = (y, w') \<Longrightarrow> grown me (log w) (log w')"
proof -
  show "sql_begin d qo w = (Inr tx, w') \<Longrightarrow> live tx w' \<and> own tx = {} \<and> writes tx = [] \<and> grown me (log w) (log w')"
    using sd_begin by (cases "drv_begin d qo w"; cases "fst (drv_begin d qo w)") (simp_all add: sql_begin_def)
  show "sql_begin d qo w = (Inl e, w') \<Longrightarrow> grown me (log w) (log w')"
    using sd_begin_err by (cases "drv_begin d qo w"; cases "fst (drv_begin d qo w)") (simp_all add: sql_begin_def)
  show "live tx w \<Longrightarrow> sql_commit d tx w = (Inr (), w') \<Longrightarrow> grown_by me (me, own tx, writes tx) (log w) (log w')"
    using sd_commit_ok by (cases "drv_commit d tx w"; cases "fst (drv_commit d tx w)") (simp_all add: sql_commit_def)
  show "live tx w \<Longrightarrow> sql_commit d tx w = (Inl e, w') \<Longrightarrow> (\<forall>h. e \<noteq> Handler h) \<and>
     (grown me (log w) (log w') \<or> grown_by me (me, own tx, writes tx) (log w) (log w'))"
    using sd_commit_err by (cases "drv_commit d tx w"; cases "fst (drv_commit d tx w)")
      (auto simp: sql_commit_def inbox_error_from_sqlx_def)
  show "sql_rollback d tx w = (y, w') \<Longrightarrow> grown me (log w) (log w')"
    using sd_rollback by (cases "drv_rollback d tx w") (simp add: sql_rollback_def)
qed

lemma shared_store_of_claim:
  assumes "op_begin S = sql_begin d qo" "op_commit S = sql_commit d" "op_rollback S = sql_rollback d" "op_drop S = drv_drop d"
    and claim: "\<And>r tx w. live tx w \<Longrightarrow> claim_shared r tx w (op_claim S r tx w)"
  shows "shared_store S me log own writes live"
proof
  fix r tx w x tx' w'
  assume "live tx w"
  note c = claim [OF this, of r, unfolded claim_shared_def]
  show "grown me (log w) (log w')" if "op_claim S r tx w = (x, tx', w')" using c that by simp
  show "live tx' w' \<and> own tx' = insert (req_key r) (own tx) \<and> writes tx' = writes tx"
    if "op_claim S r tx w = (Inr Fresh, tx', w')" using c that by simp
  show "req_key r \<in> own tx \<union> recorded_in (log w')" if "op_claim S r tx w = (Inr Duplicate, tx', w')" using c that by simp
qed (simp_all add: assms(1-4) sql_shared sd_drop)

lemma backends_shared:
  "shared_store (pg_store d) me log own writes live"
  "shared_store (sqlite_store d) me log own writes live"
  "shared_store (mysql_store d) me log own writes live"
  using pg_claim_shared sqlite_claim_shared mysql_claim_shared
  by (auto intro!: shared_store_of_claim)

end

subsection \<open>A small shared server\<close>

text \<open>
  An executable server with other sessions: a schedule says which of their commits come during every step. A commit
  of another session waits for ever when it needs a key that is recorded or held by the open transaction. Steps fail
  or lose their acknowledgement by a second schedule.
\<close>

record 'x shared_tx =
  sh_own :: "key set"
  sh_writes :: "'x list"
  sh_aborted :: bool

record 'x shared_world =
  sh_log :: "'x commit list"
  sh_step :: nat

fun let_in :: "nat \<Rightarrow> key set \<Rightarrow> 'x commit list \<Rightarrow> 'x commit list \<Rightarrow> 'x commit list" where
  "let_in me K [] l = l"
| "let_in me K (c # cs) l =
     let_in me K cs (if fst c \<noteq> me \<and> fst (snd c) \<inter> (K \<union> recorded_in l) = {} then l @ [c] else l)"

definition meanwhile :: "nat \<Rightarrow> (nat \<Rightarrow> 'x commit list) \<Rightarrow> key set \<Rightarrow> 'x shared_world \<Rightarrow> 'x shared_world" where
  "meanwhile me others K w = \<lparr>sh_log = let_in me K (others (sh_step w)) (sh_log w), sh_step = Suc (sh_step w)\<rparr>"

definition sh_live :: "'x shared_tx \<Rightarrow> 'x shared_world \<Rightarrow> bool" where
  "sh_live tx w \<longleftrightarrow> \<not> sh_aborted tx \<and> sh_own tx \<inter> recorded_in (sh_log w) = {}"

fun sh_run :: "stmt \<Rightarrow> 'x commit list \<Rightarrow> 'x shared_tx \<Rightarrow> (query_result \<times> 'x shared_tx) option" where
  "sh_run (Insert_row c m t oc) l tx =
     (if (c, m) \<in> sh_own tx \<union> recorded_in l then Some (result_rows 0, tx)
      else Some (result_rows 1, tx\<lparr>sh_own := insert (c, m) (sh_own tx)\<rparr>))"
| "sh_run q l tx = (if only_sets q then Some (result_rows 0, tx) else None)"

definition sh_exec :: "nat \<Rightarrow> (nat \<Rightarrow> fault) \<Rightarrow> (nat \<Rightarrow> 'x commit list) \<Rightarrow> stmt \<Rightarrow> 'x shared_tx \<Rightarrow> 'x shared_world \<Rightarrow>
    (sqlx_error + query_result) \<times> 'x shared_tx \<times> 'x shared_world" where
  "sh_exec me sv others q tx w =
     (let w' = meanwhile me others (sh_own tx) w; failed = tx\<lparr>sh_aborted := True\<rparr>
      in case sv (sh_step w) of
           No_fault \<Rightarrow>
             (if sh_aborted tx then (Inl ref_error, failed, w')
              else case sh_run q (sh_log w') tx of
                None \<Rightarrow> (Inl ref_error, failed, w')
              | Some (r, tx') \<Rightarrow> (Inr r, tx', w'))
         | Fail e \<Rightarrow> (Inl e, failed, w')
         | Lost e \<Rightarrow> (Inl e, failed, w'))"

definition sh_commit :: "nat \<Rightarrow> (nat \<Rightarrow> fault) \<Rightarrow> (nat \<Rightarrow> 'x commit list) \<Rightarrow> 'x shared_tx \<Rightarrow> 'x shared_world \<Rightarrow>
    (sqlx_error + unit) \<times> 'x shared_world" where
  "sh_commit me sv others tx w =
     (let w' = meanwhile me others (sh_own tx) w;
          applied = (if sh_aborted tx then w' else w'\<lparr>sh_log := sh_log w' @ [(me, sh_own tx, sh_writes tx)]\<rparr>)
      in case sv (sh_step w) of No_fault \<Rightarrow> (Inr (), applied) | Fail e \<Rightarrow> (Inl e, w') | Lost e \<Rightarrow> (Inl e, applied))"

definition sh_driver :: "nat \<Rightarrow> (nat \<Rightarrow> fault) \<Rightarrow> (nat \<Rightarrow> 'x commit list) \<Rightarrow> ('x shared_tx, 'x shared_world) driver" where
  "sh_driver me sv others =
     \<lparr>drv_begin = (\<lambda>q w. (case sv (sh_step w) of
          No_fault \<Rightarrow> Inr \<lparr>sh_own = {}, sh_writes = [], sh_aborted = False\<rparr> | Fail e \<Rightarrow> Inl e | Lost e \<Rightarrow> Inl e,
          meanwhile me others {} w)),
      drv_commit = sh_commit me sv others,
      drv_rollback = (\<lambda>tx w. (case sv (sh_step w) of No_fault \<Rightarrow> Inr () | Fail e \<Rightarrow> Inl e | Lost e \<Rightarrow> Inl e, meanwhile me others {} w)),
      drv_drop = (\<lambda>tx. meanwhile me others {}), drv_exec = sh_exec me sv others,
      drv_pool = (\<lambda>q w. (Inl ref_error, meanwhile me others {} w)), drv_cutoff = ref_cutoff,
      drv_utc_now = (\<lambda>w. (int (sh_step w), w)), drv_from_std = ref_from_std, drv_time_sub = ref_time_sub,
      drv_random = (\<lambda>w. (Inr 0, w))\<rparr>"

lemma let_in_grown: "grown me l (let_in me K cs l)"
proof (induction cs arbitrary: l)
  case (Cons c cs)
  have "grown me l (if fst c \<noteq> me \<and> fst (snd c) \<inter> (K \<union> recorded_in l) = {} then l @ [c] else l)"
    by (simp add: grown_def foreign_def)
  from grown_trans [OF this Cons.IH] show ?case by simp
qed simp

lemma let_in_apart: "K \<inter> recorded_in l = {} \<Longrightarrow> K \<inter> recorded_in (let_in me K cs l) = {}"
proof (induction cs arbitrary: l)
  case (Cons c cs)
  then have "K \<inter> recorded_in (if fst c \<noteq> me \<and> fst (snd c) \<inter> (K \<union> recorded_in l) = {} then l @ [c] else l) = {}"
    by auto
  from Cons.IH [OF this] show ?case by simp
qed simp

lemma meanwhile_simps [simp]:
  "grown me (sh_log w) (sh_log (meanwhile me others K w))" "sh_live tx w \<Longrightarrow> sh_live tx (meanwhile me others (sh_own tx) w)"
  by (simp_all add: meanwhile_def let_in_grown sh_live_def let_in_apart)

lemma sh_run_simps:
  assumes "sh_live tx w" and "sh_run q (sh_log w) tx = Some (r, tx')"
  shows "sh_live tx' w" and "sh_writes tx' = sh_writes tx" and "only_sets q \<Longrightarrow> tx' = tx"
    and "q = Insert_row c m t oc \<Longrightarrow> rows_affected r = 1 \<and> sh_own tx' = insert (c, m) (sh_own tx) \<or>
      rows_affected r = 0 \<and> sh_own tx' = sh_own tx \<and> (c, m) \<in> sh_own tx \<union> recorded_in (sh_log w)"
  using assms by (cases q; force simp: sh_live_def result_rows_def split: if_splits)+

lemma sh_commit_logs:
  assumes "sh_live tx w" and "sh_commit me sv others tx w = (z, w')"
  shows "(case z of Inr u \<Rightarrow> False | Inl e \<Rightarrow> grown me (sh_log w) (sh_log w')) \<or>
    grown_by me (me, sh_own tx, sh_writes tx) (sh_log w) (sh_log w')"
proof -
  let ?w = "meanwhile me others (sh_own tx) w"
  obtain o1 where o1: "sh_log ?w = sh_log w @ o1" "foreign me o1"
    using meanwhile_simps(1) [of me w others "sh_own tx"] by (auto simp: grown_def)
  have "sh_own tx \<inter> recorded_in (sh_log ?w) = {}" using meanwhile_simps(2) [OF assms(1)] by (simp add: sh_live_def)
  with o1 have "grown_by me (me, sh_own tx, sh_writes tx) (sh_log w) (sh_log ?w @ [(me, sh_own tx, sh_writes tx)])"
    unfolding grown_by_def by (intro exI [of _ o1] exI [of _ "[]"]) (simp add: foreign_def)
  with assms show ?thesis by (auto simp: sh_commit_def sh_live_def Let_def split: fault.splits)
qed

interpretation sh: shared_driver "sh_driver me sv (others :: nat \<Rightarrow> 'x commit list)" me sh_log sh_own sh_writes sh_live
proof
  fix c m t oc tx w r tx' w'
  assume "sh_live tx w" "drv_exec (sh_driver me sv others) (Insert_row c m t oc) tx w = (Inr r, tx', w')"
  then have "sh_live tx w'" "sh_run (Insert_row c m t oc) (sh_log w') tx = Some (r, tx')"
    by (auto simp: sh_driver_def sh_exec_def Let_def split: fault.splits if_splits option.splits)
  from sh_run_simps [OF this] show "sh_live tx' w' \<and> sh_writes tx' = sh_writes tx \<and>
      (rows_affected r = 1 \<and> sh_own tx' = insert (c, m) (sh_own tx) \<or>
       rows_affected r = 0 \<and> sh_own tx' = sh_own tx \<and> (c, m) \<in> sh_own tx \<union> recorded_in (sh_log w'))" by blast
next
  fix q tx w r tx' w'
  assume "sh_live tx w" "only_sets q" "drv_exec (sh_driver me sv others) q tx w = (Inr r, tx', w')"
  then have "sh_live tx w'" "sh_run q (sh_log w') tx = Some (r, tx')"
    by (auto simp: sh_driver_def sh_exec_def Let_def split: fault.splits if_splits option.splits)
  from sh_run_simps(3) [OF this \<open>only_sets q\<close>] this(1)
  show "sh_live tx' w' \<and> sh_own tx' = sh_own tx \<and> sh_writes tx' = sh_writes tx" by simp
next
  fix q tx w z tx' w'
  assume "drv_exec (sh_driver me sv others) q tx w = (z, tx', w')"
  then have "w' = meanwhile me others (sh_own tx) w"
    by (auto simp: sh_driver_def sh_exec_def Let_def split: fault.splits if_splits option.splits)
  then show "grown me (sh_log w) (sh_log w')" by simp
next
  fix tx :: "'x shared_tx" and w w' e
  assume "sh_live tx w"
  note commit = sh_commit_logs [OF this, of me sv others]
  show "grown_by me (me, sh_own tx, sh_writes tx) (sh_log w) (sh_log w')"
    if "drv_commit (sh_driver me sv others) tx w = (Inr (), w')" using that commit by (auto simp: sh_driver_def)
  show "grown me (sh_log w) (sh_log w') \<or> grown_by me (me, sh_own tx, sh_writes tx) (sh_log w) (sh_log w')"
    if "drv_commit (sh_driver me sv others) tx w = (Inl e, w')" using that commit by (auto simp: sh_driver_def)
qed (auto simp: sh_driver_def sh_live_def split: fault.splits)

subsection \<open>Deliveries beside each other\<close>

lemma process_shared_backend:
  assumes "shared_driver d me log own writes live" and "con_store self \<in> {pg_store d, sqlite_store d, mysql_store d}"
    and "shared_handler me log own writes live ys h" and "process self m h w = (r, w')"
  shows "process_shared me (key_of (con_id self) m) ys (log w) r (log w')"
  using shared_store.process_interleaved [OF _ refl assms(3,4)] shared_driver.backends_shared [OF assms(1)] assms(2) by auto

text \<open>A commit of a session is the first one of the log that records its key.\<close>

lemma first_commit:
  assumes "grown_by me (me, {k}, ys) l l'" and "prefix l' L"
  shows "\<exists>n<length L. L ! n = (me, {k}, ys) \<and> k \<notin> recorded_in (take n L)"
proof -
  obtain o1 rest where L: "L = (l @ o1) @ (me, {k}, ys) # rest" and new: "k \<notin> recorded_in (l @ o1)"
    using assms by (auto simp: grown_by_def prefix_def)
  then show ?thesis by (intro exI [of _ "length (l @ o1)"]) simp
qed

lemma first_commit_unique:
  assumes "n < length L" "L ! n = (i, {k}, ys)" "k \<notin> recorded_in (take n L)"
    and "n' < length L" "L ! n' = (j, {k}, zs)" "k \<notin> recorded_in (take n' L)"
  shows "i = j"
proof (rule ccontr)
  assume "i \<noteq> j"
  then have "n < n' \<or> n' < n" using assms(2,5) by (metis fst_conv linorder_less_linear)
  then have "L ! n \<in> set (take n' L) \<or> L ! n' \<in> set (take n L)"
    using assms(1,4) by (metis in_set_conv_nth length_take min_less_iff_conj nth_take)
  with assms show False by (auto simp: recorded_in_def)
qed

lemma recorded_prefix: "prefix l L \<Longrightarrow> recorded_in l \<subseteq> recorded_in L"
  by (auto simp: prefix_def)

text \<open>Two sessions for the runs below: session 0 is alone, session 1 sees its commit at the claim, or before it begins.\<close>

definition ten_writer :: "(unit, int shared_tx, int shared_world) handler" where
  "ten_writer tx w = (Inr (), tx\<lparr>sh_writes := sh_writes tx @ [10]\<rparr>, w)"

lemma ten_writer_shared: "shared_handler me sh_log sh_own sh_writes sh_live [10] ten_writer"
  by (simp add: shared_handler_def ten_writer_def sh_live_def)

definition empty_log :: "int shared_world" where
  "empty_log = \<lparr>sh_log = [], sh_step = 0\<rparr>"

definition during_claim :: "nat \<Rightarrow> int commit list" where
  "during_claim n = (if n = 1 then [(0, {(lit ''billing'', lit ''m-1'')}, [10])] else [])"

definition lone_session :: "(int shared_tx, int shared_world) savepoint_ops consumer" where
  "lone_session = consumer_new (pg_store (sh_driver 0 (\<lambda>n. No_fault) (\<lambda>n. []))) (ConsumerId (lit ''billing''))"

definition late_session :: "(int shared_tx, int shared_world) savepoint_ops consumer" where
  "late_session = consumer_new (pg_store (sh_driver 1 (\<lambda>n. No_fault) during_claim)) (ConsumerId (lit ''billing''))"

lemma sessions_run:
  "process lone_session (MessageId (lit ''m-1'')) ten_writer empty_log =
     (Inr (Processed ()), \<lparr>sh_log = [(0, {(lit ''billing'', lit ''m-1'')}, [10])], sh_step = 3\<rparr>)"
  "process late_session (MessageId (lit ''m-1'')) ten_writer empty_log =
     (Inr DuplicateOutcome, \<lparr>sh_log = [(0, {(lit ''billing'', lit ''m-1'')}, [10])], sh_step = 3\<rparr>)"
  by (simp_all add: process_def process_fresh_def consumer_claim_def lone_session_def late_session_def consumer_new_def
    claim_request_new_def pg_claim_def pg_set_lock_timeout_def sql_begin_def sql_commit_def sql_rollback_def
    sh_driver_def sh_exec_def sh_commit_def meanwhile_def during_claim_def empty_log_def ten_writer_def
    pg_CLAIM_SQL_def claim_of_affected_def result_rows_def Let_def numeral_eq_Suc)

lemma sessions_id: "con_id lone_session = ConsumerId (lit ''billing'')" "con_id late_session = ConsumerId (lit ''billing'')"
  by (simp_all add: lone_session_def late_session_def consumer_new_def)

text \<open>C10: \<open>process\<close> beside other sessions, on PostgreSQL, MySQL and SQLite, with any failing steps. Others may commit during every
  statement of the call. A call that answers \<open>Processed\<close> has added exactly one commit of its own to the server's log, with
  the key and the handler's writes together, and no earlier commit of the log records the key. A call that answers
  \<open>Duplicate\<close> has committed nothing and the key is recorded by another session's commit. A call that reports the
  handler's error has committed nothing; any other error leaves nothing or that one commit.
\<close>

theorem process_beside_others:
  assumes "shared_driver d me log own writes live" and "con_store self \<in> {pg_store d, sqlite_store d, mysql_store d}"
    and "shared_handler me log own writes live ys h" and "process self m h w = (r, w')"
  shows "case r of
      Inr (Processed v) \<Rightarrow> grown_by me (me, {key_of (con_id self) m}, ys) (log w) (log w')
    | Inr DuplicateOutcome \<Rightarrow> grown me (log w) (log w') \<and> key_of (con_id self) m \<in> recorded_in (log w')
    | Inl (Handler e) \<Rightarrow> grown me (log w) (log w')
    | Inl e \<Rightarrow> grown me (log w) (log w') \<or> grown_by me (me, {key_of (con_id self) m}, ys) (log w) (log w')"
  using process_shared_backend [OF assms] by (simp add: process_shared_def)

theorem process_beside_others_witness:
  "grown 1 [] [(0, {(lit ''billing'', lit ''m-1'')}, [10 :: int])] \<and>
   (lit ''billing'', lit ''m-1'') \<in> recorded_in [(0, {(lit ''billing'', lit ''m-1'')}, [10 :: int])]"
proof -
  have "con_store late_session \<in> {pg_store (sh_driver 1 (\<lambda>n. No_fault) during_claim),
      sqlite_store (sh_driver 1 (\<lambda>n. No_fault) during_claim), mysql_store (sh_driver 1 (\<lambda>n. No_fault) during_claim)}"
    by (simp add: late_session_def consumer_new_def)
  from process_beside_others [OF sh.shared_driver_axioms this ten_writer_shared sessions_run(2)] show ?thesis
    by (simp add: empty_log_def late_session_def consumer_new_def key_of_def)
qed

text \<open>C3: Sessions that deliver one message at the same time. Any number of sessions call \<open>process\<close> with the same key, each on a
  store of the three backends and beside all the others, and what each has seen at its end is an initial part of the
  one log of the server. Then at most one of them answers \<open>Processed\<close>, and its commit, with the key and its
  writes, is in the log; whoever answers \<open>Duplicate\<close> did so with the key recorded.
\<close>

theorem concurrent_deliveries_once:
  assumes "\<forall>i\<in>I. shared_driver (d i) i (log i) (own i) (writes i) (live i)"
    and "\<forall>i\<in>I. con_store (self i) \<in> {pg_store (d i), sqlite_store (d i), mysql_store (d i)}"
    and "\<forall>i\<in>I. shared_handler i (log i) (own i) (writes i) (live i) (ys i) (h i)"
    and "\<forall>i\<in>I. process (self i) (m i) (h i) (w i) = (r i, w' i) \<and> key_of (con_id (self i)) (m i) = k"
    and "\<forall>i\<in>I. prefix (log i (w' i)) L"
  shows "(\<exists>\<^sub>\<le>\<^sub>1 i. i \<in> I \<and> (\<exists>v. r i = Inr (Processed v))) \<and>
    (\<forall>i\<in>I. case r i of Inr (Processed v) \<Rightarrow> (i, {k}, ys i) \<in> set L | Inr DuplicateOutcome \<Rightarrow> k \<in> recorded_in L | Inl e \<Rightarrow> True)"
proof -
  have call: "process_shared i k (ys i) (log i (w i)) (r i) (log i (w' i))" if "i \<in> I" for i
    using process_shared_backend [of "d i" i "log i" "own i" "writes i" "live i" "self i" "ys i" "h i" "m i" "w i" "r i" "w' i"]
      assms that by simp
  have first: "\<exists>n<length L. L ! n = (i, {k}, ys i) \<and> k \<notin> recorded_in (take n L)" if "i \<in> I" "r i = Inr (Processed v)" for i v
    using call [OF that(1)] that bspec [OF assms(5) that(1)] by (intro first_commit) (simp_all add: process_shared_def)
  have "k \<in> recorded_in L" if "i \<in> I" "r i = Inr DuplicateOutcome" for i
    using call [OF that(1)] that assms(5) recorded_prefix by (fastforce simp: process_shared_def)
  moreover have "(i, {k}, ys i) \<in> set L" if "i \<in> I" "r i = Inr (Processed v)" for i v
    using first [OF that] by (metis nth_mem)
  moreover have "\<exists>\<^sub>\<le>\<^sub>1 i. i \<in> I \<and> (\<exists>v. r i = Inr (Processed v))"
  proof (rule Uniq_I)
    fix i j assume "i \<in> I \<and> (\<exists>v. r i = Inr (Processed v))" "j \<in> I \<and> (\<exists>v. r j = Inr (Processed v))"
    then obtain n n' where "n < length L" "L ! n = (i, {k}, ys i)" "k \<notin> recorded_in (take n L)"
      "n' < length L" "L ! n' = (j, {k}, ys j)" "k \<notin> recorded_in (take n' L)" using first by meson
    then show "j = i" by (metis first_commit_unique)
  qed
  ultimately show ?thesis by (auto split: sum.split outcome.split)
qed

theorem concurrent_deliveries_once_witness:
  "\<exists>\<^sub>\<le>\<^sub>1 i. i \<in> {0, 1 :: nat} \<and>
    (\<exists>v. (if i = 0 then Inr (Processed ()) else Inr DuplicateOutcome :: inbox_error + unit outcome) = Inr (Processed v))"
proof -
  let ?d = "\<lambda>i. sh_driver i (\<lambda>n. No_fault) (if i = 0 then (\<lambda>n. []) else during_claim)"
  let ?self = "\<lambda>i :: nat. if i = 0 then lone_session else late_session"
  let ?L = "[(0, {(lit ''billing'', lit ''m-1'')}, [10 :: int])]"
  have "\<forall>i\<in>{0, 1}. shared_driver (?d i) i sh_log sh_own sh_writes sh_live" by (simp add: sh.shared_driver_axioms)
  moreover have "\<forall>i\<in>{0, 1}. con_store (?self i) \<in> {pg_store (?d i), sqlite_store (?d i), mysql_store (?d i)}"
    by (simp add: lone_session_def late_session_def consumer_new_def)
  moreover have "\<forall>i\<in>{0, 1 :: nat}. shared_handler i sh_log sh_own sh_writes sh_live [10] ten_writer"
    by (simp add: ten_writer_shared)
  moreover have "\<forall>i\<in>{0, 1}. process (?self i) (MessageId (lit ''m-1'')) ten_writer empty_log =
      (if i = 0 then Inr (Processed ()) else Inr DuplicateOutcome, \<lparr>sh_log = ?L, sh_step = 3\<rparr>) \<and>
      key_of (con_id (?self i)) (MessageId (lit ''m-1'')) = (lit ''billing'', lit ''m-1'')"
    using sessions_run by (simp add: sessions_id key_of_def)
  moreover have "\<forall>i\<in>{0, 1 :: nat}. prefix (sh_log \<lparr>sh_log = ?L, sh_step = 3\<rparr>) ?L" by simp
  ultimately show ?thesis by (rule concurrent_deliveries_once [THEN conjunct1])
qed

end
