(* ===== verification/Unit_Tests.thy ===== *)
theory Unit_Tests
  imports Postgres Mysql
begin

text \<open>
  The unit tests inside the crate: the modules \<open>tests\<close> of \<^verbatim>\<open>src/src/types.rs\<close>,
  \<^verbatim>\<open>src/src/postgres.rs\<close> and \<^verbatim>\<open>src/src/mysql.rs\<close>. A test is the truth value of its assertions, evaluated on
  the model, so that the model is held to the inputs and outputs the authors wrote down. The general
  statements behind them are in \<open>Types\<close> and \<open>Lock_Timeout\<close>.

  \<open>assert!(r.is_err())\<close> is \<^term>\<open>isl r\<close>; \<open>r.unwrap().as_str()\<close> compared with a string is the comparison of the
  mapped result, false where \<open>unwrap\<close> would panic.
\<close>

text \<open>\<open>str::repeat\<close>.\<close>

definition str_repeat :: "str \<Rightarrow> nat \<Rightarrow> str" where
  "str_repeat s n = concat (replicate n s)"

text \<open>The constructors and constants of \<open>std::time::Duration\<close>.\<close>

definition duration_from_secs :: "u64 \<Rightarrow> duration" where
  "duration_from_secs s = \<lparr>dur_secs = s, dur_nanos = 0\<rparr>"

definition duration_from_millis :: "u64 \<Rightarrow> duration" where
  "duration_from_millis m = \<lparr>dur_secs = m div 1000, dur_nanos = ucast (m mod 1000) * 1000000\<rparr>"

definition duration_from_micros :: "u64 \<Rightarrow> duration" where
  "duration_from_micros m = \<lparr>dur_secs = m div 1000000, dur_nanos = ucast (m mod 1000000) * 1000\<rparr>"

definition duration_ZERO :: duration where
  "duration_ZERO = \<lparr>dur_secs = 0, dur_nanos = 0\<rparr>"

definition duration_MAX :: duration where
  "duration_MAX = \<lparr>dur_secs = - 1, dur_nanos = 999999999\<rparr>"

subsection \<open>Identifiers and outcomes\<close>

definition the_length_limit_counts_bytes_not_characters :: bool where
  "the_length_limit_counts_bytes_not_characters \<longleftrightarrow>
     (let multibyte = str_repeat [0xe9] message_MAX_LEN
      in length multibyte = message_MAX_LEN \<and> isl (message_try_from multibyte))"

definition a_message_id_beyond_the_length_limit_is_rejected :: bool where
  "a_message_id_beyond_the_length_limit_is_rejected \<longleftrightarrow>
     (let too_long = str_repeat (lit ''x'') (message_MAX_LEN + 1) in isl (message_try_from too_long))"

definition an_empty_message_id_is_rejected :: bool where
  "an_empty_message_id_is_rejected \<longleftrightarrow> isl (message_try_from (lit ''''))"

definition try_from_rejects_a_whitespace_only_id_as_empty :: bool where
  "try_from_rejects_a_whitespace_only_id_as_empty \<longleftrightarrow>
     message_try_from (lit ''   '') = Inl EmptyId \<and> consumer_try_from (lit ''   '') = Inl EmptyId"

definition try_from_rejects_an_id_with_a_leading_space :: bool where
  "try_from_rejects_an_id_with_a_leading_space \<longleftrightarrow>
     message_try_from (lit '' m-1'') = Inl SurroundingWhitespace \<and>
     consumer_try_from (lit '' billing'') = Inl SurroundingWhitespace"

definition try_from_rejects_an_id_with_a_trailing_space :: bool where
  "try_from_rejects_an_id_with_a_trailing_space \<longleftrightarrow>
     message_try_from (lit ''m-1 '') = Inl SurroundingWhitespace \<and>
     consumer_try_from (lit ''billing '') = Inl SurroundingWhitespace"

definition ids_are_constructible_from_str_and_string :: bool where
  "ids_are_constructible_from_str_and_string \<longleftrightarrow>
     map_sum id consumer_str (consumer_try_from (lit ''billing'')) = Inr (lit ''billing'') \<and>
     map_sum id message_str (message_try_from (lit ''m-1'')) = Inr (lit ''m-1'')"

definition outcome_processed_yields_the_value :: bool where
  "outcome_processed_yields_the_value \<longleftrightarrow>
     (let outcome = Processed (7 :: 8 word) in processed outcome = Some 7)"

definition outcome_duplicate_yields_nothing :: bool where
  "outcome_duplicate_yields_nothing \<longleftrightarrow>
     (let outcome = (DuplicateOutcome :: 8 word outcome) in processed outcome = None)"

definition scoped_rejects_both_parts_empty :: bool where
  "scoped_rejects_both_parts_empty \<longleftrightarrow> scoped (lit '''') (lit '''') = Inl EmptyId"

definition scoped_rejects_an_empty_scope :: bool where
  "scoped_rejects_an_empty_scope \<longleftrightarrow> scoped (lit '''') (lit ''1'') = Inl EmptyId"

definition scoped_rejects_an_empty_id :: bool where
  "scoped_rejects_an_empty_id \<longleftrightarrow> scoped (lit ''producer-a'') (lit '''') = Inl EmptyId"

definition scoped_rejects_a_colon_in_the_scope :: bool where
  "scoped_rejects_a_colon_in_the_scope \<longleftrightarrow> scoped (lit ''a:b'') (lit ''c'') = Inl ScopeContainsSeparator"

definition scoped_allows_a_colon_in_the_id :: bool where
  "scoped_allows_a_colon_in_the_id \<longleftrightarrow>
     map_sum id message_str (scoped (lit ''producer-a'') (lit ''topic:partition:offset'')) =
       Inr (lit ''producer-a:topic:partition:offset'')"

definition scoped_enforces_the_combined_length_limit :: bool where
  "scoped_enforces_the_combined_length_limit \<longleftrightarrow>
     (let scope = lit ''s''; ident = str_repeat (lit ''x'') message_MAX_LEN in isl (scoped scope ident))"

definition scoped_rejects_a_scope_with_surrounding_whitespace_instead_of_a_different_key :: bool where
  "scoped_rejects_a_scope_with_surrounding_whitespace_instead_of_a_different_key \<longleftrightarrow>
     scoped (lit '' mt5'') (lit ''1'') = Inl SurroundingWhitespace \<and>
     scoped (lit ''mt5 '') (lit ''1'') = Inl SurroundingWhitespace"

definition scoped_rejects_an_id_with_surrounding_whitespace :: bool where
  "scoped_rejects_an_id_with_surrounding_whitespace \<longleftrightarrow>
     scoped (lit ''mt5'') (lit '' 1'') = Inl SurroundingWhitespace \<and>
     scoped (lit ''mt5'') (lit ''1 '') = Inl SurroundingWhitespace"

subsection \<open>Lock timeouts\<close>

definition pg_lock_timeout_rounds_up_and_never_sends_zero :: bool where
  "pg_lock_timeout_rounds_up_and_never_sends_zero \<longleftrightarrow>
     pg_lock_timeout duration_ZERO = lit ''1ms'' \<and>
     pg_lock_timeout (duration_from_micros 1) = lit ''1ms'' \<and>
     pg_lock_timeout (duration_from_micros 1500) = lit ''2ms'' \<and>
     pg_lock_timeout (duration_from_millis 200) = lit ''200ms''"

definition mysql_lock_timeout_rounds_up_to_whole_seconds_and_never_zero :: bool where
  "mysql_lock_timeout_rounds_up_to_whole_seconds_and_never_zero \<longleftrightarrow>
     mysql_lock_timeout duration_ZERO = 1 \<and>
     mysql_lock_timeout (duration_from_millis 1) = 1 \<and>
     mysql_lock_timeout (duration_from_millis 1001) = 2 \<and>
     mysql_lock_timeout (duration_from_secs 30) = 30 \<and>
     mysql_lock_timeout duration_MAX = 1073741824"

subsection \<open>Every test passes\<close>

text \<open>The tests on long strings are evaluated by the length of a repeated character, the others by running them.\<close>

lemma str_len_repeat: "str_len (str_repeat [c] n) = n * length (utf8_char c)"
  by (induction n) (simp_all add: str_repeat_def)

lemma repeat_too_long:
  assumes "message_MAX_LEN < n * length (utf8_char c)"
  shows "isl (message_try_from (str_repeat [c] n))"
proof -
  have "\<not> valid_id message_MAX_LEN (str_repeat [c] n)" using assms str_len_repeat [of c n] by (simp add: valid_id_def)
  then show ?thesis
    by (cases "message_try_from (str_repeat [c] n)") (auto simp: message_try_from_ok_iff)
qed

lemma long_id_tests_pass:
  "the_length_limit_counts_bytes_not_characters \<and> a_message_id_beyond_the_length_limit_is_rejected \<and>
   scoped_enforces_the_combined_length_limit"
proof (intro conjI)
  have "isl (message_try_from (str_repeat [0xe9] message_MAX_LEN))"
    by (rule repeat_too_long) (simp add: message_MAX_LEN_def utf8_char_def)
  moreover have "length (str_repeat [0xe9] message_MAX_LEN) = message_MAX_LEN"
    by (simp add: str_repeat_def length_concat sum_list_replicate)
  ultimately show the_length_limit_counts_bytes_not_characters
    unfolding the_length_limit_counts_bytes_not_characters_def Let_def by blast
  show a_message_id_beyond_the_length_limit_is_rejected
    unfolding a_message_id_beyond_the_length_limit_is_rejected_def Let_def lit_simps
    by (rule repeat_too_long) (simp add: message_MAX_LEN_def utf8_char_def)
  show scoped_enforces_the_combined_length_limit
  proof -
    have "str_len (str_repeat [of_char CHR ''x''] message_MAX_LEN) = message_MAX_LEN"
      by (subst str_len_repeat) (simp add: utf8_char_def)
    then have "scoped (lit ''s'') (str_repeat (lit ''x'') message_MAX_LEN) \<noteq> Inr m" for m
      by (auto simp: scoped_ok_iff)
    then show ?thesis
      unfolding scoped_enforces_the_combined_length_limit_def Let_def
      by (cases "scoped (lit ''s'') (str_repeat (lit ''x'') message_MAX_LEN)") auto
  qed
qed

lemma short_id_tests_pass:
  "an_empty_message_id_is_rejected" "try_from_rejects_a_whitespace_only_id_as_empty"
  "try_from_rejects_an_id_with_a_leading_space" "try_from_rejects_an_id_with_a_trailing_space"
  "ids_are_constructible_from_str_and_string"
  by code_simp+

lemma outcome_tests_pass: "outcome_processed_yields_the_value" "outcome_duplicate_yields_nothing"
  by code_simp+

lemma scoped_tests_pass:
  "scoped_rejects_both_parts_empty" "scoped_rejects_an_empty_scope" "scoped_rejects_an_empty_id"
  "scoped_rejects_a_colon_in_the_scope" "scoped_allows_a_colon_in_the_id"
  "scoped_rejects_a_scope_with_surrounding_whitespace_instead_of_a_different_key"
  "scoped_rejects_an_id_with_surrounding_whitespace"
  by code_simp+

lemma lock_timeout_tests_pass:
  "pg_lock_timeout_rounds_up_and_never_sends_zero" "mysql_lock_timeout_rounds_up_to_whole_seconds_and_never_zero"
  by code_simp+

end
