(* ===== verification/Runner_Semantics.thy ===== *)
theory Runner_Semantics
  imports Protocol Unit_Tests
begin

text \<open>
  \<^verbatim>\<open>src/tests/it/runner_semantics.rs\<close>: the store that counts what the consumer asks of it, and the tests of the
  consumer's control flow on it, as truth values of their assertions. The store is not a lawful one (its claims
  are not transactional and its savepoints do nothing), so nothing here rests on the contracts of \<open>Store\<close>;
  what the tests sample is stated for every store in \<open>Protocol\<close>.

  The shared cells of \<open>FakeStore\<close> are the world, its flags an argument. \<open>unwrap\<close> on an error, and a handler that
  panics, fail the test: the first is a result that differs from the expected one, the second a handler that
  returns an error. \<open>store_is_dyn_compatible_and_futures_are_send\<close> is a check of the compiler and is left out.
\<close>

subsection \<open>The counting store\<close>

record runner_tx =
  conn_effects :: "str list"

record runner_flags =
  fail_rollback :: bool
  short_batches :: bool

record runner_world =
  rw_seen :: "key list"
  rw_committed :: "str list"
  rw_rollbacks :: nat
  rw_batches :: "str list list"
  rw_begins :: nat

definition runner_begin :: "runner_world \<Rightarrow> (inbox_error + runner_tx) \<times> runner_world" where
  "runner_begin w = (Inr \<lparr>conn_effects = []\<rparr>, w\<lparr>rw_begins := rw_begins w + 1\<rparr>)"

definition runner_commit :: "runner_tx \<Rightarrow> runner_world \<Rightarrow> (inbox_error + unit) \<times> runner_world" where
  "runner_commit tx w = (Inr (), w\<lparr>rw_committed := rw_committed w @ conn_effects tx\<rparr>)"

definition runner_claim ::
  "claim_request \<Rightarrow> runner_tx \<Rightarrow> runner_world \<Rightarrow> (inbox_error + claim) \<times> runner_tx \<times> runner_world" where
  "runner_claim request tx w =
     (let k = (consumer_str (req_consumer request), message_str (req_id request))
      in if k \<in> set (rw_seen w) then (Inr Duplicate, tx, w) else (Inr Fresh, tx, w\<lparr>rw_seen := k # rw_seen w\<rparr>))"

definition runner_claim_many ::
  "runner_flags \<Rightarrow> claim_batch \<Rightarrow> runner_tx \<Rightarrow> runner_world \<Rightarrow> (inbox_error + claim list) \<times> runner_tx \<times> runner_world" where
  "runner_claim_many self batch tx w =
     (let w1 = w\<lparr>rw_batches := rw_batches w @ [map message_str (batch_ids batch)]\<rparr>
      in case claim_each runner_claim (batch_consumer batch) None (batch_ids batch) [] tx w1 of
           (Inl e, tx2, w2) \<Rightarrow> (Inl e, tx2, w2)
         | (Inr claims, tx2, w2) \<Rightarrow> (Inr (if short_batches self then butlast claims else claims), tx2, w2))"

definition runner_rollback :: "runner_flags \<Rightarrow> runner_tx \<Rightarrow> runner_world \<Rightarrow> (inbox_error + unit) \<times> runner_world" where
  "runner_rollback self tx w =
     (if fail_rollback self then Inl (Backend (BoxMsg (lit ''rollback failed''))) else Inr (),
      w\<lparr>rw_rollbacks := rw_rollbacks w + 1\<rparr>)"

text \<open>\<open>impl InboxStore for FakeStore\<close> and \<open>impl Savepoints for FakeStore\<close>.\<close>

definition runner_store :: "runner_flags \<Rightarrow> (runner_tx, runner_world) savepoint_ops" where
  "runner_store self =
     \<lparr>op_begin = runner_begin, op_commit = runner_commit, op_rollback = runner_rollback self, op_drop = (\<lambda>tx w. w),
      op_claim = runner_claim, op_claim_many = runner_claim_many self,
      op_is_known_duplicate = default_is_known_duplicate, op_purge = (\<lambda>_ w. Some (Inr 0, w)),
      op_savepoint = (\<lambda>tx w. (Inr (), tx, w)), op_release_and_savepoint = (\<lambda>tx w. (Inr (), tx, w)),
      op_release = (\<lambda>tx w. (Inr (), tx, w)), op_rollback_to = (\<lambda>tx w. (Inr (), tx, w)),
      op_unclaim = (\<lambda>_ _ tx w. (Inr (), tx, w))\<rparr>"

text \<open>\<open>FakeStore::default()\<close>, and \<open>billing\<close>.\<close>

definition default_flags :: runner_flags where
  "default_flags = \<lparr>fail_rollback = False, short_batches = False\<rparr>"

definition default_world :: runner_world where
  "default_world = \<lparr>rw_seen = [], rw_committed = [], rw_rollbacks = 0, rw_batches = [], rw_begins = 0\<rparr>"

definition consumer_named :: "runner_flags \<Rightarrow> string \<Rightarrow> (runner_tx, runner_world) savepoint_ops consumer" where
  "consumer_named self name =
     (case consumer_try_from (lit name) of Inr c \<Rightarrow> inbox_consumer (runner_store self) c
      | Inl _ \<Rightarrow> inbox_consumer (runner_store self) (ConsumerId []))"

definition billing :: "runner_flags \<Rightarrow> (runner_tx, runner_world) savepoint_ops consumer" where
  "billing self = consumer_named self ''billing''"

definition test_ids :: "string list \<Rightarrow> message_id list" where
  "test_ids raw = map (\<lambda>s. case message_try_from (lit s) of Inr m \<Rightarrow> m | Inl _ \<Rightarrow> MessageId []) raw"

definition test_id :: "string \<Rightarrow> message_id" where
  "test_id s = hd (test_ids [s])"

text \<open>The handlers: push an effect and return a value, push and fail, fail.\<close>

definition pushing :: "string \<Rightarrow> handler_error + 't \<Rightarrow> ('t, runner_tx, runner_world) handler" where
  "pushing effect result tx w = (result, tx\<lparr>conn_effects := conn_effects tx @ [lit effect]\<rparr>, w)"

definition returning :: "handler_error + 't \<Rightarrow> ('t, runner_tx, runner_world) handler" where
  "returning result tx w = (result, tx, w)"

subsection \<open>process\<close>

definition first_delivery_runs_the_handler :: bool where
  "first_delivery_runs_the_handler \<longleftrightarrow>
     (case process (billing default_flags) (test_id ''m-1'') (pushing ''charged'' (Inr (1 :: 8 word))) default_world of
        (outcome, w) \<Rightarrow> outcome = Inr (Processed 1) \<and> rw_committed w = [lit ''charged''])"

definition second_delivery_is_skipped_and_the_handler_never_runs :: bool where
  "second_delivery_is_skipped_and_the_handler_never_runs \<longleftrightarrow>
     (case process (billing default_flags) (test_id ''m-1'') (pushing ''charged'' (Inr (1 :: 8 word))) default_world of
        (Inl _, _) \<Rightarrow> False
      | (Inr _, w) \<Rightarrow>
         (case process (billing default_flags) (test_id ''m-1'')
             (returning (Inl (lit ''handler must not run for a duplicate'') :: handler_error + 8 word)) w of
            (outcome, w1) \<Rightarrow> outcome = Inr DuplicateOutcome \<and> length (rw_committed w1) = 1))"

definition distinct_consumers_both_process_the_same_message :: bool where
  "distinct_consumers_both_process_the_same_message \<longleftrightarrow>
     (case process (consumer_named default_flags ''billing'') (test_id ''m-1'') (pushing ''handled'' (Inr ())) default_world of
        (outcome, w) \<Rightarrow> outcome = Inr (Processed ()) \<and>
         (case process (consumer_named default_flags ''notifications'') (test_id ''m-1'') (pushing ''handled'' (Inr ())) w of
            (outcome1, w1) \<Rightarrow> outcome1 = Inr (Processed ()) \<and> length (rw_committed w1) = 2))"

fun is_handler :: "inbox_error + 'a \<Rightarrow> bool" where
  "is_handler (Inl (Handler _)) = True"
| "is_handler _ = False"

definition a_failing_handler_discards_the_effect :: bool where
  "a_failing_handler_discards_the_effect \<longleftrightarrow>
     (case process (billing default_flags) (test_id ''m-1'') (pushing ''charged'' (Inl (lit ''boom'') :: handler_error + unit))
         default_world of
        (result, w) \<Rightarrow> is_handler result \<and> rw_committed w = [])"

definition a_failing_handler_is_rolled_back_explicitly :: bool where
  "a_failing_handler_is_rolled_back_explicitly \<longleftrightarrow>
     (case process (billing default_flags) (test_id ''m-1'') (returning (Inl (lit ''boom'') :: handler_error + unit))
         default_world of
        (result, w) \<Rightarrow> is_handler result \<and> rw_rollbacks w = 1)"

definition a_failing_rollback_still_reports_the_handler_error :: bool where
  "a_failing_rollback_still_reports_the_handler_error \<longleftrightarrow>
     (case process (billing (default_flags\<lparr>fail_rollback := True\<rparr>)) (test_id ''m-1'')
         (returning (Inl (lit ''boom'') :: handler_error + unit)) default_world of
        (Inl (Handler e), _) \<Rightarrow> e = lit ''boom''
      | _ \<Rightarrow> False)"

definition a_duplicate_is_rolled_back_explicitly :: bool where
  "a_duplicate_is_rolled_back_explicitly \<longleftrightarrow>
     (case process (billing default_flags) (test_id ''m-1'') (returning (Inr ())) default_world of
        (Inl _, _) \<Rightarrow> False
      | (Inr _, w) \<Rightarrow>
         (case process (billing default_flags) (test_id ''m-1'') (returning (Inr ())) w of
            (outcome, w1) \<Rightarrow> outcome = Inr DuplicateOutcome \<and> rw_rollbacks w1 = 1))"

subsection \<open>claim\_many and process\_many\<close>

text \<open>\<open>consumer.begin()\<close>, then \<open>claim_many\<close> on the transaction.\<close>

definition begin_and_claim_many ::
  "runner_flags \<Rightarrow> string list \<Rightarrow> runner_world \<Rightarrow> (inbox_error + claim list) option \<times> runner_world" where
  "begin_and_claim_many self raw w =
     (case consumer_begin (billing self) w of
        (Inl e, w1) \<Rightarrow> (None, w1)
      | (Inr tx, w1) \<Rightarrow> (case consumer_claim_many (billing self) (test_ids raw) tx w1 of (r, _, w2) \<Rightarrow> (r, w2)))"

definition claim_many_maps_repeats_to_duplicate :: bool where
  "claim_many_maps_repeats_to_duplicate \<longleftrightarrow>
     fst (begin_and_claim_many default_flags [''b'', ''a'', ''b''] default_world) = Some (Inr [Fresh, Fresh, Duplicate])"

definition claim_many_sends_unique_sorted_ids_to_the_backend :: bool where
  "claim_many_sends_unique_sorted_ids_to_the_backend \<longleftrightarrow>
     (case begin_and_claim_many default_flags [''c'', ''a'', ''c'', ''b''] default_world of
        (Some (Inr _), w) \<Rightarrow> rw_batches w = [[lit ''a'', lit ''b'', lit ''c'']]
      | _ \<Rightarrow> False)"

definition claim_many_of_nothing_never_reaches_the_backend :: bool where
  "claim_many_of_nothing_never_reaches_the_backend \<longleftrightarrow>
     (case begin_and_claim_many default_flags [] default_world of
        (Some (Inr claims), w) \<Rightarrow> claims = [] \<and> rw_batches w = []
      | _ \<Rightarrow> False)"

definition a_backend_returning_too_few_claims_is_an_error :: bool where
  "a_backend_returning_too_few_claims_is_an_error \<longleftrightarrow>
     (case begin_and_claim_many (default_flags\<lparr>short_batches := True\<rparr>) [''a'', ''b''] default_world of
        (Some (Inl (Backend _)), _) \<Rightarrow> True
      | _ \<Rightarrow> False)"

definition claim_batch_builds_a_lock_timeout_like_claim_request :: bool where
  "claim_batch_builds_a_lock_timeout_like_claim_request \<longleftrightarrow>
     (let batch = claim_batch_with_lock_timeout (duration_from_millis 200)
        (claim_batch_new (con_id (billing default_flags)) [test_id ''m-1''])
      in batch_lock_timeout batch = Some (duration_from_millis 200))"

definition process_many_of_nothing_never_opens_a_transaction :: bool where
  "process_many_of_nothing_never_opens_a_transaction \<longleftrightarrow>
     (case process_many (billing default_flags) [] (\<lambda>_. returning (Inr ())) default_world of
        (Some (Inr results), w) \<Rightarrow> results = [] \<and> rw_begins w = 0
      | _ \<Rightarrow> False)"

subsection \<open>Every test passes\<close>

lemma process_tests_pass:
  "first_delivery_runs_the_handler" "second_delivery_is_skipped_and_the_handler_never_runs"
  "distinct_consumers_both_process_the_same_message" "a_failing_handler_discards_the_effect"
  "a_failing_handler_is_rolled_back_explicitly" "a_failing_rollback_still_reports_the_handler_error"
  "a_duplicate_is_rolled_back_explicitly"
  by code_simp+

lemma claim_many_tests_pass:
  "claim_many_maps_repeats_to_duplicate" "claim_many_sends_unique_sorted_ids_to_the_backend"
  "claim_many_of_nothing_never_reaches_the_backend" "a_backend_returning_too_few_claims_is_an_error"
  "claim_batch_builds_a_lock_timeout_like_claim_request" "process_many_of_nothing_never_opens_a_transaction"
  by code_simp+

end
