(* ===== verification/Reliable.thy ===== *)
theory Reliable
  imports Delivery
begin

text \<open>
  Runs without faults. The contracts of \<open>Store\<close> say what an operation has done when it succeeds
  and what it may have done when it fails; they are kept by a store that always fails. A
  \<^emph>\<open>reliable\<close> store is one whose operations succeed, and on it the consumer is live: a new
  message is processed, a batch returns with every message settled as its handler decided.
\<close>

lemma inbox_consumer_simps [simp]:
  "con_store (inbox_consumer store c) = store" "con_id (inbox_consumer store c) = c"
  by (simp_all add: inbox_consumer_def consumer_new_def)

subsection \<open>Stores whose operations do not fail\<close>

text \<open>Worlds a store does not leave, as long as it does no batch claim.\<close>

locale steady_worlds =
  fixes S :: "('tx, 'w, 'z) inbox_ops_scheme" and live :: "'tx \<Rightarrow> 'w \<Rightarrow> bool" and K :: "'w \<Rightarrow> bool"
  assumes begin_steady: "K w \<Longrightarrow> op_begin S w = (Inr tx, w') \<Longrightarrow> K w'"
    and commit_steady: "K w \<Longrightarrow> live tx w \<Longrightarrow> op_commit S tx w = (Inr (), w') \<Longrightarrow> K w'"
    and rollback_steady: "K w \<Longrightarrow> live tx w \<Longrightarrow> op_rollback S tx w = (Inr (), w') \<Longrightarrow> K w'"
    and drop_steady: "K w \<Longrightarrow> live tx w \<Longrightarrow> K (op_drop S tx w)"
    and claim_steady: "K w \<Longrightarrow> live tx w \<Longrightarrow> op_claim S r tx w = (Inr c, tx', w') \<Longrightarrow> K w'"

lemma steady_worlds_True [simp]: "steady_worlds S live (\<lambda>_. True)"
  by unfold_locales

text \<open>A batch claim may need something that can run out, as MySQL needs an unused token: \<open>stocked\<close> are
  the worlds that have it. The other operations do not use it up.\<close>

locale reliable_store = inbox_contract S committed view live + steady_worlds S live stocked
  for S :: "('tx, 'w, 'z) inbox_ops_scheme"
    and committed :: "'w \<Rightarrow> 'u inbox_state" and view :: "'tx \<Rightarrow> 'u inbox_state"
    and live :: "'tx \<Rightarrow> 'w \<Rightarrow> bool" and stocked :: "'w \<Rightarrow> bool" +
  assumes begin_total: "\<exists>tx w'. op_begin S w = (Inr tx, w')"
    and commit_total: "live tx w \<Longrightarrow> \<exists>w'. op_commit S tx w = (Inr (), w')"
    and rollback_total: "\<exists>w'. op_rollback S tx w = (Inr (), w')"
    and claim_total: "live tx w \<Longrightarrow> \<exists>c tx' w'. op_claim S r tx w = (Inr c, tx', w')"
    and claim_many_total: "live tx w \<Longrightarrow> stocked w \<Longrightarrow> \<exists>cs tx' w'. op_claim_many S b tx w = (Inr cs, tx', w')"
begin

abbreviation answer :: "key \<Rightarrow> 'u inbox_state \<Rightarrow> claim" where
  "answer k s \<equiv> if k \<in> seen s then Duplicate else Fresh"

lemma begin_claim:
  assumes "committed w = s"
  shows "\<exists>tx w1 tx2 w2. op_begin S w = (Inr tx, w1) \<and>
    op_claim S (claim_request_new c m) tx w1 = (Inr (answer (key_of c m) s), tx2, w2) \<and>
    live tx2 w2 \<and> view tx2 = record_keys {key_of c m} s \<and> committed w2 = s"
proof -
  obtain tx w1 where b: "op_begin S w = (Inr tx, w1)" using begin_total by blast
  note begun = begin_ok [OF b]
  obtain a tx2 w2 where a: "op_claim S (claim_request_new c m) tx w1 = (Inr a, tx2, w2)"
    using claim_total begun by blast
  note claimed = claim_ok [OF conjunct1 [OF begun] a]
  have "a = answer (key_of c m) s" using claimed(1) begun assms by simp
  with b a claimed(2-4) begun assms show ?thesis by (intro exI [of _ tx] exI [of _ w1] exI [of _ tx2] exI [of _ w2]) simp
qed

lemma consumer_claim_inbox [simp]: "consumer_claim (inbox_consumer S c) m = op_claim S (claim_request_new c m)"
  by (intro ext) (simp add: consumer_claim_def inbox_consumer_def consumer_new_def claim_request_new_def)

lemma consumer_claim_many_total:
  assumes "con_store self = S" and "live tx w" and "consumer_claim_many self ids tx w = (r, tx', w')"
    and "stocked w"
  shows "\<exists>cs. r = Some (Inr cs)"
proof (cases "ids = []")
  case True
  with assms(3) show ?thesis by (auto simp: consumer_claim_many_def)
next
  case False
  let ?b = "(claim_batch_new (con_id self) (unique_ids ids))\<lparr>batch_lock_timeout := con_lock_timeout self\<rparr>"
  obtain cs tx1 w1 where cs: "op_claim_many S ?b tx w = (Inr cs, tx1, w1)"
    using claim_many_total [OF assms(2,4)] by blast
  have "length cs = length (unique_ids ids)"
    using claim_many_ok [OF assms(2) _ _ cs] by simp
  with False cs assms(1,3) have "\<exists>x. r = map_option Inr x"
    by (auto simp: consumer_claim_many_def Let_def)
  moreover have "r \<noteq> None"
    using consumer_claim_many_ok [OF assms(1-3)] by blast
  ultimately show ?thesis by auto
qed

end

text \<open>With savepoints: opening always works, and the other operations do while the savepoint is open.
  A claim leaves an open savepoint alone.\<close>

locale reliable_savepoints = reliable_store S committed view live stocked + savepoints_contract S committed view live saved
  for S :: "('tx, 'w, 'z) savepoint_ops_scheme"
    and committed :: "'w \<Rightarrow> 'u inbox_state" and view :: "'tx \<Rightarrow> 'u inbox_state"
    and live :: "'tx \<Rightarrow> 'w \<Rightarrow> bool" and stocked :: "'w \<Rightarrow> bool" and saved :: "'tx \<Rightarrow> 'u inbox_state option" +
  assumes savepoint_total: "live tx w \<Longrightarrow> \<exists>tx' w'. op_savepoint S tx w = (Inr (), tx', w')"
    and release_and_savepoint_total: "live tx w \<Longrightarrow> saved tx = Some v \<Longrightarrow>
      \<exists>tx' w'. op_release_and_savepoint S tx w = (Inr (), tx', w')"
    and release_total: "live tx w \<Longrightarrow> saved tx = Some v \<Longrightarrow> \<exists>tx' w'. op_release S tx w = (Inr (), tx', w')"
    and rollback_to_total: "live tx w \<Longrightarrow> saved tx = Some v \<Longrightarrow> \<exists>tx' w'. op_rollback_to S tx w = (Inr (), tx', w')"
    and unclaim_total: "live tx w \<Longrightarrow> \<exists>tx' w'. op_unclaim S c m tx w = (Inr (), tx', w')"
    and claim_keeps_savepoint: "live tx w \<Longrightarrow> op_claim S r tx w = (Inr a, tx', w') \<Longrightarrow> saved tx' = saved tx"

text \<open>A handler that always returns: \<open>eff m\<close> is what it does to the data it sees, \<open>bad m\<close> the error it
  ends with, if any.\<close>

definition decided_handler ::
  "('w \<Rightarrow> 'u inbox_state) \<Rightarrow> ('tx \<Rightarrow> 'u inbox_state) \<Rightarrow> ('tx \<Rightarrow> 'w \<Rightarrow> bool) \<Rightarrow>
   ('tx \<Rightarrow> 'u inbox_state option) \<Rightarrow> (message_id \<Rightarrow> handler_error option) \<Rightarrow>
   (message_id \<Rightarrow> 'u inbox_state \<Rightarrow> 'u inbox_state) \<Rightarrow> (message_id \<Rightarrow> (unit, 'tx, 'w) handler) \<Rightarrow> bool" where
  "decided_handler committed view live saved bad eff h \<longleftrightarrow>
     (\<forall>m tx w. live tx w \<longrightarrow> (\<exists>tx' w'. h m tx w = (case bad m of Some e \<Rightarrow> Inl e | None \<Rightarrow> Inr (), tx', w') \<and>
        live tx' w' \<and> view tx' = eff m (view tx) \<and> saved tx' = saved tx \<and> committed w' = committed w))"

lemma decided_handlerD:
  assumes "decided_handler committed view live saved bad eff h" and "live tx w"
  obtains tx' w' where "h m tx w = (case bad m of Some e \<Rightarrow> Inl e | None \<Rightarrow> Inr (), tx', w')"
    "live tx' w'" "view tx' = eff m (view tx)" "saved tx' = saved tx" "committed w' = committed w"
  using assms unfolding decided_handler_def by blast

text \<open>What a batch comes to when nothing fails but handlers: the results, and the data.\<close>

fun batch_run ::
  "consumer_id \<Rightarrow> (message_id \<Rightarrow> handler_error option) \<Rightarrow> (message_id \<Rightarrow> 'u inbox_state \<Rightarrow> 'u inbox_state) \<Rightarrow>
   (message_id \<times> claim) list \<Rightarrow> str set \<Rightarrow> 'u inbox_state \<Rightarrow> unit process_result list \<times> 'u inbox_state" where
  "batch_run c bad eff [] failed s = ([], s)"
| "batch_run c bad eff ((m, Duplicate) # ps) failed s =
     (case batch_run c bad eff ps failed s of (rs, s') \<Rightarrow>
        ((if message_str m \<in> failed then Inl (repeat_of_failed m) else Inr DuplicateOutcome) # rs, s'))"
| "batch_run c bad eff ((m, Fresh) # ps) failed s =
     (case bad m of
        None \<Rightarrow> (case batch_run c bad eff ps failed (eff m s) of (rs, s') \<Rightarrow> (Inr (Processed ()) # rs, s'))
      | Some e \<Rightarrow> (case batch_run c bad eff ps (insert (message_str m) failed) (forget_key (key_of c m) s) of
          (rs, s') \<Rightarrow> (Inl e # rs, s')))"

definition batch_decides ::
  "consumer_id \<Rightarrow> (message_id \<Rightarrow> handler_error option) \<Rightarrow> (message_id \<Rightarrow> 'u inbox_state \<Rightarrow> 'u inbox_state) \<Rightarrow>
   message_id list \<Rightarrow> 'u inbox_state \<Rightarrow> unit process_result list \<times> 'u inbox_state" where
  "batch_decides c bad eff ids s =
     batch_run c bad eff (zip ids (answer_each c (seen s) ids)) {} (record_keys (key_of c ` set ids) s)"

context reliable_savepoints
begin

lemma run_handler_total:
  assumes self: "con_store self = S" and h: "decided_handler committed view live saved bad eff h"
    and live: "live tx w" and sp: "saved tx = Some (view tx)"
  shows "\<exists>tx' w'. run_handler self h m tx w =
      (Inr (case bad m of Some e \<Rightarrow> Inl e | None \<Rightarrow> Inr (Processed ())), tx', w') \<and> live tx' w' \<and>
    view tx' = (case bad m of Some _ \<Rightarrow> forget_key (key_of (con_id self) m) (view tx) | None \<Rightarrow> eff m (view tx)) \<and>
    saved tx' = saved tx \<and> committed w' = committed w"
proof -
  obtain tx1 w1 where ran: "h m tx w = (case bad m of Some e \<Rightarrow> Inl e | None \<Rightarrow> Inr (), tx1, w1)"
    and l1: "live tx1 w1" and v1: "view tx1 = eff m (view tx)" "saved tx1 = saved tx" "committed w1 = committed w"
    by (rule decided_handlerD [OF h live])
  show ?thesis
  proof (cases "bad m")
    case None
    with ran l1 v1 show ?thesis by (simp add: run_handler_def)
  next
    case (Some e)
    obtain tx2 w2 where b: "op_rollback_to S tx1 w1 = (Inr (), tx2, w2)"
      using rollback_to_total [OF l1] v1(2) sp by auto
    note undone = rollback_to_ok [OF b]
    obtain tx3 w3 where u: "op_unclaim S (con_id self) m tx2 w2 = (Inr (), tx3, w3)"
      using unclaim_total undone by blast
    note forgotten = unclaim_ok [OF _ u]
    from Some ran b u self have "run_handler self h m tx w = (Inr (Inl e), tx3, w3)" by (simp add: run_handler_def)
    with Some undone forgotten v1 sp show ?thesis by auto
  qed
qed

lemma settle_fresh_total:
  assumes self: "con_store self = S" and h: "decided_handler committed view live saved bad eff h"
    and live: "live tx w" and sp: "saved tx = Some (view tx)"
  shows "\<exists>tx' w'. settle_fresh self h n m tx w =
      (Inr (case bad m of Some e \<Rightarrow> Inl e | None \<Rightarrow> Inr (Processed ())), tx', w') \<and> live tx' w' \<and>
    view tx' = (case bad m of Some _ \<Rightarrow> forget_key (key_of (con_id self) m) (view tx) | None \<Rightarrow> eff m (view tx)) \<and>
    (0 < n \<longrightarrow> saved tx' = Some (view tx')) \<and> committed w' = committed w"
proof -
  let ?r = "case bad m of Some e \<Rightarrow> Inl e | None \<Rightarrow> Inr (Processed ())"
  obtain tx1 w1 where ran: "run_handler self h m tx w = (Inr ?r, tx1, w1)" and l1: "live tx1 w1"
    and v1: "view tx1 = (case bad m of Some _ \<Rightarrow> forget_key (key_of (con_id self) m) (view tx) | None \<Rightarrow> eff m (view tx))"
      "saved tx1 = saved tx" "committed w1 = committed w"
    using run_handler_total [OF assms, of m] by blast
  have sp1: "saved tx1 = Some (view tx)" using v1(2) sp by simp
  show ?thesis
  proof (cases "0 < n")
    case True
    obtain tx2 w2 where n: "op_release_and_savepoint S tx1 w1 = (Inr (), tx2, w2)"
      using release_and_savepoint_total [OF l1 sp1] by blast
    from release_and_savepoint_ok [OF l1 n] True n ran v1 self show ?thesis by (simp add: settle_fresh_def)
  next
    case False
    obtain tx2 w2 where n: "op_release S tx1 w1 = (Inr (), tx2, w2)"
      using release_total [OF l1 sp1] by blast
    from release_ok [OF l1 n] False n ran v1 self show ?thesis by (simp add: settle_fresh_def)
  qed
qed

lemma batch_loop_total:
  assumes self: "con_store self = S" and h: "decided_handler committed view live saved bad eff h"
  shows "live tx w \<Longrightarrow> (0 < fresh_count ps \<Longrightarrow> saved tx = Some (view tx)) \<Longrightarrow>
    \<exists>tx' w'. batch_loop self h ps (fresh_count ps) failed results tx w =
        (Some (Inr (results @ fst (batch_run (con_id self) bad eff ps failed (view tx)))), tx', w') \<and>
      live tx' w' \<and> view tx' = snd (batch_run (con_id self) bad eff ps failed (view tx)) \<and>
      committed w' = committed w"
proof (induction ps arbitrary: failed results tx w)
  case Nil
  then show ?case by simp
next
  case (Cons p ps)
  obtain m a where p: "p = (m, a)" by (cases p)
  show ?case
  proof (cases a)
    case Duplicate
    let ?x = "if message_str m \<in> failed then Inl (repeat_of_failed m) else Inr DuplicateOutcome"
    from Duplicate Cons.IH [OF Cons.prems(1), of failed "results @ [?x]"] Cons.prems(2) p show ?thesis
      by (simp add: split_beta)
  next
    case Fresh
    have sp: "saved tx = Some (view tx)" using Cons.prems(2) p Fresh by simp
    obtain tx1 w1 where y: "settle_fresh self h (fresh_count ps) m tx w =
        (Inr (case bad m of Some e \<Rightarrow> Inl e | None \<Rightarrow> Inr (Processed ())), tx1, w1)" and l1: "live tx1 w1"
      and v1: "view tx1 = (case bad m of Some _ \<Rightarrow> forget_key (key_of (con_id self) m) (view tx) | None \<Rightarrow> eff m (view tx))"
        "0 < fresh_count ps \<longrightarrow> saved tx1 = Some (view tx1)" "committed w1 = committed w"
      using settle_fresh_total [OF self h Cons.prems(1) sp, of "fresh_count ps" m]
      by (elim exE conjE) (rule that)
    show ?thesis
    proof (cases "bad m")
      case None
      with Cons.IH [OF l1, of failed "results @ [Inr (Processed ())]"] y v1 p Fresh show ?thesis
        by (simp add: split_beta)
    next
      case (Some e)
      with Cons.IH [OF l1, of "insert (message_str m) failed" "results @ [Inl e]"] y v1 p Fresh show ?thesis
        by (simp add: split_beta)
    qed
  qed
qed

lemma process_claimed_total:
  assumes self: "con_store self = S" and h: "decided_handler committed view live saved bad eff h"
    and live: "live tx w" and view: "view tx = record_keys (key_of (con_id self) ` set ids) s"
  shows "\<exists>w'. process_claimed self ids h (answer_each (con_id self) (seen s) ids) tx w =
      (Some (Inr (fst (batch_decides (con_id self) bad eff ids s))), w') \<and>
    committed w' = snd (batch_decides (con_id self) bad eff ids s)"
proof -
  let ?cs = "answer_each (con_id self) (seen s) ids"
  let ?n = "length (filter (\<lambda>c. c = Fresh) ?cs)"
  have n: "?n = fresh_count (zip ids ?cs)" by (simp add: fresh_count_zip)
  obtain tx1 w1 where o1: "(if ?n > 0 then op_savepoint (con_store self) tx w else (Inr (), tx, w)) = (Inr (), tx1, w1)"
    and l1: "live tx1 w1" "view tx1 = view tx" "0 < ?n \<longrightarrow> saved tx1 = Some (view tx1)"
  proof (cases "0 < ?n")
    case True
    obtain tx1 w1 where sp: "op_savepoint S tx w = (Inr (), tx1, w1)" using savepoint_total [OF live] by blast
    with True self savepoint_ok [OF live sp] show ?thesis by (intro that [of tx1 w1]) simp_all
  qed (use live that [of tx w] in simp)
  obtain tx2 w2 where loop: "batch_loop self h (zip ids ?cs) ?n {} [] tx1 w1 =
      (Some (Inr (fst (batch_decides (con_id self) bad eff ids s))), tx2, w2)"
    and l2: "live tx2 w2" "view tx2 = snd (batch_decides (con_id self) bad eff ids s)"
    using batch_loop_total [OF self h l1(1), of "zip ids ?cs" "{}" "[]"] l1 view
    unfolding n [symmetric] batch_decides_def by auto
  obtain w3 where c: "op_commit S tx2 w2 = (Inr (), w3)" using commit_total [OF l2(1)] by blast
  from o1 loop c self have "process_claimed self ids h ?cs tx w =
      (Some (Inr (fst (batch_decides (con_id self) bad eff ids s))), w3)"
    by (simp add: process_claimed_def Let_def)
  with commit_ok [OF c] l2 show ?thesis by simp
qed

lemma process_many_total:
  assumes self: "con_store self = S" and h: "decided_handler committed view live saved bad eff h" and "stocked w"
  shows "\<exists>w'. process_many self ids h w =
      (Some (Inr (fst (batch_decides (con_id self) bad eff ids (committed w)))), w') \<and>
    committed w' = snd (batch_decides (con_id self) bad eff ids (committed w))"
proof (cases "ids = []")
  case True
  then show ?thesis by (simp add: process_many_def batch_decides_def)
next
  case False
  obtain tx w1 where b: "op_begin S w = (Inr tx, w1)" using begin_total by blast
  note begun = begin_ok [OF b]
  obtain r tx2 w2 where q: "consumer_claim_many self ids tx w1 = (r, tx2, w2)" by (metis prod.collapse)
  have "\<exists>cs. r = Some (Inr cs)" by (rule consumer_claim_many_total [OF self conjunct1 [OF begun] q begin_steady [OF assms(3) b]])
  then have r: "r = Some (Inr (answer_each (con_id self) (seen (committed w)) ids))"
    and v2: "live tx2 w2" "view tx2 = record_keys (key_of (con_id self) ` set ids) (committed w)"
    using consumer_claim_many_ok [OF self conjunct1 [OF begun] q] begun by auto
  from process_claimed_total [OF self h v2] False b q r self show ?thesis by (auto simp: process_many_def)
qed

end

subsection \<open>The consumer is live\<close>

context reliable_savepoints
begin

lemma consumer_claim_total:
  assumes "con_store self = S" and "live tx w"
  shows "\<exists>tx' w'. consumer_claim self m tx w = (Inr (answer (key_of (con_id self) m) (view tx)), tx', w') \<and>
    live tx' w' \<and> view tx' = record_keys {key_of (con_id self) m} (view tx) \<and> committed w' = committed w"
proof -
  obtain c tx' w' where run: "consumer_claim self m tx w = (Inr c, tx', w')"
    using claim_total [OF assms(2)] assms(1) unfolding consumer_claim_def by metis
  with consumer_claim_ok [OF assms run] show ?thesis by auto
qed

text \<open>What one call of \<open>process\<close> does.\<close>

lemma process_total:
  assumes self: "con_store self = S" and h: "decided_handler committed view live saved bad eff h"
    and k: "k = key_of (con_id self) m" and s: "committed w = s"
  shows "\<exists>w'. process self m (h m) w =
      (if k \<in> seen s then Inr DuplicateOutcome
       else case bad m of Some e \<Rightarrow> Inl (Handler e) | None \<Rightarrow> Inr (Processed ()), w') \<and>
    committed w' = (if k \<in> seen s \<or> bad m \<noteq> None then s else eff m (record_keys {k} s))"
proof -
  obtain tx w1 where b: "op_begin S w = (Inr tx, w1)" using begin_total by blast
  note begun = begin_ok [OF b]
  obtain tx2 w2 where c: "consumer_claim self m tx w1 = (Inr (answer k (view tx)), tx2, w2)"
    and l2: "live tx2 w2" "view tx2 = record_keys {k} (view tx)" "committed w2 = committed w1"
    using consumer_claim_total [OF self conjunct1 [OF begun], of m] unfolding k by blast
  have v: "view tx = s" "committed w2 = s" using begun s l2(3) by simp_all
  show ?thesis
  proof (cases "k \<in> seen s")
    case True
    obtain w3 where r: "op_rollback S tx2 w2 = (Inr (), w3)" using rollback_total by blast
    from True b c r self v rollback_keeps [OF r] show ?thesis by (simp add: process_def)
  next
    case False
    obtain tx3 w3 where ran: "h m tx2 w2 = (case bad m of Some e \<Rightarrow> Inl e | None \<Rightarrow> Inr (), tx3, w3)"
      and l3: "live tx3 w3" "view tx3 = eff m (view tx2)" "committed w3 = committed w2"
      by (rule decided_handlerD [OF h l2(1)])
    obtain w4 where r: "op_rollback S tx3 w3 = (Inr (), w4)" using rollback_total by blast
    obtain w5 where co: "op_commit S tx3 w3 = (Inr (), w5)" using commit_total [OF l3(1)] by blast
    from False b c r co self v ran l2(2) l3 rollback_keeps [OF r] commit_ok [OF co] show ?thesis
      by (cases "bad m") (simp_all add: process_def process_fresh_def)
  qed
qed

end

text \<open>One message after the other, each with its own \<open>process\<close>.\<close>

fun single_runs ::
  "consumer_id \<Rightarrow> (message_id \<Rightarrow> handler_error option) \<Rightarrow> (message_id \<Rightarrow> 'u inbox_state \<Rightarrow> 'u inbox_state) \<Rightarrow>
   message_id list \<Rightarrow> 'u inbox_state \<Rightarrow> (inbox_error + unit outcome) list \<times> 'u inbox_state" where
  "single_runs c bad eff [] s = ([], s)"
| "single_runs c bad eff (m # ms) s =
     (if key_of c m \<in> seen s then (case single_runs c bad eff ms s of (rs, s') \<Rightarrow> (Inr DuplicateOutcome # rs, s'))
      else case bad m of
        Some e \<Rightarrow> (case single_runs c bad eff ms s of (rs, s') \<Rightarrow> (Inl (Handler e) # rs, s'))
      | None \<Rightarrow> (case single_runs c bad eff ms (eff m (record_keys {key_of c m} s)) of
          (rs, s') \<Rightarrow> (Inr (Processed ()) # rs, s')))"

context reliable_savepoints
begin

lemma deliver_all_total:
  assumes self: "con_store self = S" and h: "decided_handler committed view live saved bad eff h"
  shows "committed w = s \<Longrightarrow> \<exists>w'. deliver_all self (\<lambda>m. m) h ids w = (fst (single_runs (con_id self) bad eff ids s), w') \<and>
    committed w' = snd (single_runs (con_id self) bad eff ids s)"
proof (induction ids arbitrary: w s)
  case Nil
  then show ?case by simp
next
  case (Cons m ids)
  let ?k = "key_of (con_id self) m"
  obtain w1 where run: "process self m (h m) w = (if ?k \<in> seen s then Inr DuplicateOutcome
       else case bad m of Some e \<Rightarrow> Inl (Handler e) | None \<Rightarrow> Inr (Processed ()), w1)"
    and w1: "committed w1 = (if ?k \<in> seen s \<or> bad m \<noteq> None then s else eff m (record_keys {?k} s))"
    using process_total [OF self h refl Cons.prems, of m] by blast
  obtain w2 where w2: "deliver_all self (\<lambda>m. m) h ids w1 = (fst (single_runs (con_id self) bad eff ids (committed w1)), w2)"
    "committed w2 = snd (single_runs (con_id self) bad eff ids (committed w1))"
    using Cons.IH [OF refl, of w1] by blast
  show ?case
    by (cases "?k \<in> seen s"; cases "bad m") (use run w1 w2 in \<open>simp_all add: split_beta\<close>)
qed

end

text \<open>The results of a batch and of single calls agree when both are \<open>Ok\<close> with the same outcome, or both
  report the failure of a handler: a repeat of a failed message is refused in a batch and run again by a
  single call.\<close>

fun same_result :: "'t process_result \<Rightarrow> inbox_error + 't outcome \<Rightarrow> bool" where
  "same_result (Inr out) (Inr out') = (out = out')"
| "same_result (Inl e) (Inl (Handler e')) = True"
| "same_result _ _ = False"

definition same_runs ::
  "'t process_result list \<times> 'u inbox_state \<Rightarrow> (inbox_error + 't outcome) list \<times> 'u inbox_state \<Rightarrow> bool" where
  "same_runs x y \<longleftrightarrow> snd x = snd y \<and> list_all2 same_result (fst x) (fst y)"

text \<open>The loop invariant. \<open>ks\<close> are the keys decided before the rest \<open>ids\<close> of the batch: the batch has recorded
  what the single calls have, and the undecided messages; a decided message is unrecorded exactly when
  it failed.\<close>

lemma batch_run_single_runs:
  fixes f :: "message_id \<Rightarrow> 'u \<Rightarrow> 'u" and s t :: "'u inbox_state"
  defines "eff \<equiv> \<lambda>m s. s\<lparr>app := f m (app s)\<rparr>"
  assumes "app t = app s" and "seen t = seen s \<union> (key_of c ` set ids - ks)"
    and "\<forall>m\<in>set ids. key_of c m \<notin> ks \<longrightarrow> key_of c m \<notin> seen s"
    and "\<forall>m\<in>set ids. key_of c m \<in> ks \<longrightarrow> (message_str m \<in> failed \<longleftrightarrow> key_of c m \<notin> seen s)"
    and "\<forall>m. message_str m \<in> failed \<longrightarrow> bad m \<noteq> None"
  shows "same_runs (batch_run c bad eff (zip ids (answer_each c ks ids)) failed t) (single_runs c bad eff ids s)"
  using assms(2-)
proof (induction ids arbitrary: ks failed s t)
  case Nil
  then show ?case by (simp add: same_runs_def inbox_state_eq)
next
  case (Cons m ids)
  let ?k = "key_of c m"
  note inv = Cons.prems
  show ?case
  proof (cases "?k \<in> ks")
    case True
    then have ins: "insert ?k ks = ks" by blast
    have IH: "same_runs (batch_run c bad eff (zip ids (answer_each c ks ids)) failed t) (single_runs c bad eff ids s)"
      by (rule Cons.IH) (use inv True in auto)
    have "message_str m \<in> failed \<longleftrightarrow> ?k \<notin> seen s" "message_str m \<in> failed \<Longrightarrow> \<exists>e. bad m = Some e"
      using inv(4,5) True by auto
    then show ?thesis using IH True by (auto simp: same_runs_def ins split_beta)
  next
    case False
    then have new: "?k \<notin> seen s" using inv(3) by simp
    show ?thesis
    proof (cases "bad m")
      case None
      have "same_runs (batch_run c bad eff (zip ids (answer_each c (insert ?k ks) ids)) failed (eff m t))
          (single_runs c bad eff ids (eff m (record_keys {?k} s)))"
        by (rule Cons.IH) (use inv False None in \<open>auto simp: eff_def dest!: message_id.expand\<close>)
      with False None new show ?thesis by (simp add: same_runs_def split_beta)
    next
      case (Some e)
      have "same_runs (batch_run c bad eff (zip ids (answer_each c (insert ?k ks) ids))
          (insert (message_str m) failed) (forget_key ?k t)) (single_runs c bad eff ids s)"
        by (rule Cons.IH) (use inv False Some new in \<open>auto dest!: message_id.expand\<close>)
      with False Some new show ?thesis by (simp add: same_runs_def split_beta)
    qed
  qed
qed

end
