(* ===== verification/Reliable_Backends.thy ===== *)
theory Reliable_Backends
  imports Reliable
begin

text \<open>
  The backends on drivers whose statements do not fail: by the sublocales of this theory each is a
  reliable store, so that what \<open>Reliable\<close> proves of the consumer holds on PostgreSQL, MySQL and SQLite.
\<close>

subsection \<open>Drivers whose statements do not fail\<close>

text \<open>The statements of claims, savepoints and session settings that a server can carry out in a given
  state: a savepoint that is released or rolled back to has to exist, an assignment to have a value.\<close>

fun serviceable :: "stmt \<Rightarrow> 'u txn \<Rightarrow> bool" where
  "serviceable (Delete_oldest co n) s = False"
| "serviceable (Release n) s = (after_savepoint n (txn_savepoints s) \<noteq> None)"
| "serviceable (Rollback_to n) s = (after_savepoint n (txn_savepoints s) \<noteq> None)"
| "serviceable (Set_vars as) s = (assign as (txn_vars s) \<noteq> None)"
| "serviceable (Script a (Savepoint n)) s = serviceable a s"
| "serviceable (Script a b) s = False"
| "serviceable q s = True"

locale reliable_driver = sql_driver d com st live
  for d :: "('tx, 'w) driver" and com :: "'w \<Rightarrow> 'u database" and st :: "'tx \<Rightarrow> 'u txn"
    and live :: "'tx \<Rightarrow> 'w \<Rightarrow> bool" +
  assumes drv_begin_total: "\<exists>tx w'. drv_begin d None w = (Inr tx, w')"
    and drv_commit_total: "live tx w \<Longrightarrow> \<exists>w'. drv_commit d tx w = (Inr (), w')"
    and drv_rollback_total: "\<exists>w'. drv_rollback d tx w = (Inr (), w')"
    and drv_exec_total: "live tx w \<Longrightarrow> serviceable q (st tx) \<Longrightarrow> \<exists>r tx' w'. drv_exec d q tx w = (Inr r, tx', w')"
begin

lemma sql_tx_total:
  "\<exists>tx w'. sql_begin d None w = (Inr tx, w')"
  "live tx w \<Longrightarrow> \<exists>w'. sql_commit d tx w = (Inr (), w')"
  "\<exists>w'. sql_rollback d tx w = (Inr (), w')"
  "live tx w \<Longrightarrow> serviceable q (st tx) \<Longrightarrow> \<exists>tx' w'. sql_execute d q tx w = (Inr (), tx', w')"
  using drv_begin_total [of w] drv_commit_total [of tx w] drv_rollback_total [of tx w] drv_exec_total [of tx w q]
  by (auto simp: sql_begin_def sql_commit_def sql_rollback_def sql_execute_def)

lemma pg_set_lock_timeout_total:
  assumes "live tx w"
  shows "\<exists>tx' w'. pg_set_lock_timeout d t tx w = (Inr (), tx', w') \<and> live tx' w' \<and>
    txn_savepoints (st tx') = txn_savepoints (st tx)"
proof (cases t)
  case (Some x)
  let ?q = "pg_SET_LOCK_TIMEOUT_SQL (pg_lock_timeout x)"
  obtain r tx' w' where run: "drv_exec d ?q tx w = (Inr r, tx', w')"
    using drv_exec_total [OF assms, of ?q] by (auto simp: pg_sql_defs)
  from exec_ok [OF disjI1 [OF assms] run] run Some show ?thesis
    by (auto simp: pg_set_lock_timeout_def pg_sql_defs)
qed (use assms in \<open>simp add: pg_set_lock_timeout_def\<close>)

lemma pg_claim_total:
  assumes "live tx w"
  shows "\<exists>c tx' w'. pg_claim d r tx w = (Inr c, tx', w')"
    and "\<exists>cs tx' w'. pg_claim_many d b tx w = (Inr cs, tx', w')"
proof -
  let ?q = "pg_CLAIM_SQL (consumer_str (req_consumer r)) (message_str (req_id r))"
  let ?qs = "pg_CLAIM_MANY_SQL (consumer_str (batch_consumer b)) (map message_str (batch_ids b))"
  obtain tx1 w1 where s: "pg_set_lock_timeout d (req_lock_timeout r) tx w = (Inr (), tx1, w1)" "live tx1 w1"
    using pg_set_lock_timeout_total [OF assms] by blast
  with drv_exec_total [OF s(2), of ?q] show "\<exists>c tx' w'. pg_claim d r tx w = (Inr c, tx', w')"
    by (auto simp: pg_claim_def pg_sql_defs)
  obtain tx2 w2 where s: "pg_set_lock_timeout d (batch_lock_timeout b) tx w = (Inr (), tx2, w2)" "live tx2 w2"
    using pg_set_lock_timeout_total [OF assms] by blast
  with drv_exec_total [OF s(2), of ?qs] show "\<exists>cs tx' w'. pg_claim_many d b tx w = (Inr cs, tx', w')"
    by (auto simp: pg_claim_many_def pg_sql_defs Let_def)
qed

lemma sqlite_claim_total:
  assumes "live tx w"
  shows "\<exists>c tx' w'. sqlite_claim d r tx w = (Inr c, tx', w')"
    and "\<exists>cs tx' w'. sqlite_claim_many d b tx w = (Inr cs, tx', w')"
proof -
  obtain now w1 where t: "drv_utc_now d w = (now, w1)" by (metis prod.collapse)
  have l: "live tx w1" using utc_now_keeps [OF t] assms by blast
  let ?q = "sqlite_CLAIM_SQL (consumer_str (req_consumer r)) (message_str (req_id r)) now"
  let ?qs = "sqlite_CLAIM_MANY_SQL (consumer_str (batch_consumer b)) now (map message_str (batch_ids b))"
  from t drv_exec_total [OF l, of ?q] show "\<exists>c tx' w'. sqlite_claim d r tx w = (Inr c, tx', w')"
    by (auto simp: sqlite_claim_def sqlite_sql_defs)
  from t drv_exec_total [OF l, of ?qs] show "\<exists>cs tx' w'. sqlite_claim_many d b tx w = (Inr cs, tx', w')"
    by (auto simp: sqlite_claim_many_def sqlite_sql_defs Let_def)
qed

lemma claims_keep_savepoint:
  assumes "live tx w"
  shows "pg_claim d r tx w = (Inr a, tx', w') \<Longrightarrow> saved_of (st tx') = saved_of (st tx)"
    and "sqlite_claim d r tx w = (Inr a, tx', w') \<Longrightarrow> saved_of (st tx') = saved_of (st tx)"
proof -
  have ins: "txn_savepoints (st tx2) = txn_savepoints (st tx1)"
    if "live tx1 w1" "drv_exec d (Insert_row c m t oc) tx1 w1 = (Inr x, tx2, w2)" for tx1 w1 c m t oc x tx2 w2
    using exec_ok [OF disjI1 [OF that(1)] that(2)] by auto
  show "saved_of (st tx') = saved_of (st tx)" if run: "pg_claim d r tx w = (Inr a, tx', w')"
  proof -
    obtain tx1 w1 where s: "pg_set_lock_timeout d (req_lock_timeout r) tx w = (Inr (), tx1, w1)" "live tx1 w1"
      "txn_savepoints (st tx1) = txn_savepoints (st tx)"
      using pg_set_lock_timeout_total [OF assms] by blast
    then obtain x where "drv_exec d (pg_CLAIM_SQL (consumer_str (req_consumer r)) (message_str (req_id r))) tx1 w1 =
        (Inr x, tx', w')"
      using run by (auto simp: pg_claim_def split: prod.splits sum.splits)
    from ins [OF s(2) this [unfolded pg_sql_defs]] s(3) show ?thesis by (simp add: saved_of_def)
  qed
  show "saved_of (st tx') = saved_of (st tx)" if run: "sqlite_claim d r tx w = (Inr a, tx', w')"
  proof -
    obtain now w1 where t: "drv_utc_now d w = (now, w1)" by (metis prod.collapse)
    have l: "live tx w1" using utc_now_keeps [OF t] assms by blast
    obtain x where "drv_exec d (sqlite_CLAIM_SQL (consumer_str (req_consumer r)) (message_str (req_id r)) now) tx w1 =
        (Inr x, tx', w')"
      using run t by (auto simp: sqlite_claim_def split: prod.splits sum.splits)
    from ins [OF l this [unfolded sqlite_sql_defs]] show ?thesis by (simp add: saved_of_def)
  qed
qed

lemma savepoint_ops_total:
  "live tx w \<Longrightarrow> \<exists>tx' w'. sql_execute d SAVEPOINT_SQL tx w = (Inr (), tx', w')"
  "live tx w \<Longrightarrow> saved_of (st tx) = Some v \<Longrightarrow> \<exists>tx' w'. sql_execute d RELEASE_AND_SAVEPOINT_SQL tx w = (Inr (), tx', w')"
  "live tx w \<Longrightarrow> saved_of (st tx) = Some v \<Longrightarrow> \<exists>tx' w'. sql_execute d RELEASE_SQL tx w = (Inr (), tx', w')"
  "live tx w \<Longrightarrow> saved_of (st tx) = Some v \<Longrightarrow> \<exists>tx' w'. sql_execute d ROLLBACK_TO_SQL tx w = (Inr (), tx', w')"
  "live tx w \<Longrightarrow> \<exists>tx' w'. sql_execute d (Delete_row c m) tx w = (Inr (), tx', w')"
  by (rule sql_tx_total(4); auto simp: SAVEPOINT_SQL_def RELEASE_AND_SAVEPOINT_SQL_def RELEASE_SQL_def
      ROLLBACK_TO_SQL_def saved_of_def)+

lemma pg_keeps_reliable:
  "reliable_savepoints (pg_store d) (\<lambda>w. abs_db (com w)) (\<lambda>tx. abs_db (txn_db (st tx))) live
     (\<lambda>_. True) (\<lambda>tx. saved_of (st tx))"
  by (unfold_locales, unfold pg_store_simps pg_unclaim_def pg_sql_defs)
    (rule sql_tx_total(1-3) pg_claim_total savepoint_ops_total claims_keep_savepoint(1) TrueI; assumption?)+

lemma sqlite_keeps_reliable:
  "reliable_savepoints (sqlite_store d) (\<lambda>w. abs_db (com w)) (\<lambda>tx. abs_db (txn_db (st tx))) live
     (\<lambda>_. True) (\<lambda>tx. saved_of (st tx))"
  by (unfold_locales, unfold sqlite_store_simps sqlite_unclaim_def sqlite_sql_defs)
    (rule sql_tx_total(1-3) sqlite_claim_total savepoint_ops_total claims_keep_savepoint(2) TrueI; assumption?)+

end

sublocale reliable_driver \<subseteq> pg_reliable: reliable_savepoints "pg_store d" "\<lambda>w. abs_db (com w)"
  "\<lambda>tx. abs_db (txn_db (st tx))" live "\<lambda>_. True" "\<lambda>tx. saved_of (st tx)"
  by (rule pg_keeps_reliable)

sublocale reliable_driver \<subseteq> sqlite_reliable: reliable_savepoints "sqlite_store d" "\<lambda>w. abs_db (com w)"
  "\<lambda>tx. abs_db (txn_db (st tx))" live "\<lambda>_. True" "\<lambda>tx. saved_of (st tx)"
  by (rule sqlite_keeps_reliable)

subsection \<open>MySQL\<close>

text \<open>The statements of a single claim put no token on a row.\<close>

fun tokenless :: "stmt \<Rightarrow> bool" where
  "tokenless (Insert_row c m t oc) = True"
| "tokenless (Set_vars as) = True"
| "tokenless q = False"

text \<open>The script before \<open>BEGIN\<close> succeeds too, and so does \<open>getrandom\<close> while a token is left that no row
  carries; only batch claims use tokens up. No driver could promise more: a table can come to hold all of the
  \<open>2\<^sup>6\<^sup>4\<close> tokens.\<close>

locale reliable_mysql_driver = reliable_driver d com st live + mysql_driver d com st live
  for d :: "('tx, 'w) driver" and com :: "'w \<Rightarrow> 'u database" and st :: "'tx \<Rightarrow> 'u txn"
    and live :: "'tx \<Rightarrow> 'w \<Rightarrow> bool" +
  fixes stocked :: "'w \<Rightarrow> bool"
  assumes mysql_begin_total: "\<exists>tx w'. drv_begin d (Some mysql_BEGIN_SQL) w = (Inr tx, w')"
    and random_total: "stocked w \<Longrightarrow> live tx w \<Longrightarrow> \<exists>token w'. drv_random d w = (Inr token, w')"
    and stocked_begin: "stocked w \<Longrightarrow> drv_begin d qo w = (Inr tx, w') \<Longrightarrow> stocked w'"
    and stocked_commit: "stocked w \<Longrightarrow> live tx w \<Longrightarrow> drv_commit d tx w = (Inr (), w') \<Longrightarrow> stocked w'"
    and stocked_rollback: "stocked w \<Longrightarrow> live tx w \<Longrightarrow> drv_rollback d tx w = (Inr (), w') \<Longrightarrow> stocked w'"
    and stocked_drop: "stocked w \<Longrightarrow> live tx w \<Longrightarrow> stocked (drv_drop d tx w)"
    and stocked_exec: "stocked w \<Longrightarrow> live tx w \<Longrightarrow> tokenless q \<Longrightarrow> drv_exec d q tx w = (Inr r, tx', w') \<Longrightarrow> stocked w'"
begin

lemma mysql_set_total:
  assumes "live tx w"
  shows "\<exists>tx' w'. mysql_set_lock_timeout d t tx w = (Inr (), tx', w') \<and> live tx' w' \<and>
    txn_savepoints (st tx') = txn_savepoints (st tx) \<and> (stocked w \<longrightarrow> stocked w') \<and>
    (t \<noteq> None \<longrightarrow> txbox_lock_wait_timeout (txn_vars (st tx')) \<noteq> None)"
proof (cases t)
  case (Some x)
  let ?q = "mysql_SET_LOCK_TIMEOUT_SQL (mysql_lock_timeout x)"
  obtain r tx' w' where run: "drv_exec d ?q tx w = (Inr r, tx', w')"
    using drv_exec_total [OF assms, of ?q] by (auto simp: mysql_var_defs)
  have "stocked w \<longrightarrow> stocked w'" using stocked_exec [OF _ assms _ run] by (simp add: mysql_var_defs)
  with exec_ok [OF disjI1 [OF assms] run] run Some show ?thesis
    by (auto simp: mysql_set_lock_timeout_def mysql_var_defs)
qed (use assms in \<open>simp add: mysql_set_lock_timeout_def\<close>)

lemma mysql_restore_total:
  assumes "live tx w" and "t \<noteq> None \<longrightarrow> txbox_lock_wait_timeout (txn_vars (st tx)) \<noteq> None"
  shows "\<exists>tx' w'. mysql_restore_lock_timeout d t tx w = (Inr (), tx', w') \<and> live tx' w' \<and>
    txn_savepoints (st tx') = txn_savepoints (st tx) \<and> (stocked w \<longrightarrow> stocked w')"
proof (cases t)
  case (Some x)
  let ?q = "mysql_RESTORE_LOCK_TIMEOUT_SQL"
  obtain r tx' w' where run: "drv_exec d ?q tx w = (Inr r, tx', w')"
    using drv_exec_total [OF assms(1), of ?q] assms(2) Some by (auto simp: mysql_var_defs)
  have "stocked w \<longrightarrow> stocked w'" using stocked_exec [OF _ assms(1) _ run] by (simp add: mysql_var_defs)
  with exec_ok [OF disjI1 [OF assms(1)] run] run Some show ?thesis
    by (auto simp: mysql_restore_lock_timeout_def mysql_var_defs split: option.splits)
qed (use assms in \<open>simp add: mysql_restore_lock_timeout_def\<close>)

text \<open>An inserting statement between the two.\<close>

lemma mysql_lent_total:
  assumes "live tx w" and q: "q = Insert_row c m at oc \<or> q = Insert_rows c ms at tok ord oc ret"
  obtains tx1 w1 r tx2 w2 tx3 w3 where "mysql_set_lock_timeout d t tx w = (Inr (), tx1, w1)"
    "drv_exec d q tx1 w1 = (Inr r, tx2, w2)" "mysql_restore_lock_timeout d t tx2 w2 = (Inr (), tx3, w3)"
    "live tx3 w3" "txn_savepoints (st tx3) = txn_savepoints (st tx)" "stocked w \<and> tokenless q \<longrightarrow> stocked w3"
proof -
  obtain tx1 w1 where s: "mysql_set_lock_timeout d t tx w = (Inr (), tx1, w1)" "live tx1 w1"
    "txn_savepoints (st tx1) = txn_savepoints (st tx)" "stocked w \<longrightarrow> stocked w1"
    "t \<noteq> None \<longrightarrow> txbox_lock_wait_timeout (txn_vars (st tx1)) \<noteq> None"
    using mysql_set_total [OF assms(1), of t] by (elim exE conjE) (rule that)
  obtain r tx2 w2 where i: "drv_exec d q tx1 w1 = (Inr r, tx2, w2)"
    using drv_exec_total [OF s(2), of q] q by auto
  have l2: "live tx2 w2" "txn_savepoints (st tx2) = txn_savepoints (st tx1)" "txn_vars (st tx2) = txn_vars (st tx1)"
    using exec_ok [OF disjI1 [OF s(2)] i] q by auto
  obtain tx3 w3 where r: "mysql_restore_lock_timeout d t tx2 w2 = (Inr (), tx3, w3)" "live tx3 w3"
    "txn_savepoints (st tx3) = txn_savepoints (st tx2)" "stocked w2 \<longrightarrow> stocked w3"
    using mysql_restore_total [OF l2(1) s(5) [folded l2(3)]] by (elim exE conjE) (rule that)
  show ?thesis
    by (rule that [OF s(1) i r(1,2)]) (use s(3,4) l2(2) r(3,4) stocked_exec [OF _ s(2) _ i] in auto)
qed

lemma mysql_claim_total:
  assumes "live tx w"
  obtains a tx' w' where "mysql_claim d r tx w = (Inr a, tx', w')" "saved_of (st tx') = saved_of (st tx)"
    "stocked w \<longrightarrow> stocked w'"
  by (rule mysql_lent_total [OF assms, where t = "req_lock_timeout r" and at = Server_now and oc = Ignore_row
        and q = "mysql_CLAIM_SQL (consumer_str (req_consumer r)) (message_str (req_id r))"])
    (use that in \<open>auto simp: mysql_claim_def mysql_sql_defs saved_of_def\<close>)

lemma mysql_claim_many_total:
  assumes "live tx w" and "stocked w"
  shows "\<exists>cs tx' w'. mysql_claim_many d b tx w = (Inr cs, tx', w')"
proof -
  let ?ids = "map message_str (batch_ids b)" and ?c = "consumer_str (batch_consumer b)"
  obtain token w0 where t: "drv_random d w = (Inr token, w0)" using random_total [OF assms(2,1)] by blast
  have l: "live tx w0" using random_ok [OF assms(1) t] by blast
  let ?q = "mysql_CLAIM_MANY_SQL ?c token ?ids" and ?s = "mysql_CLAIMED_BY_TOKEN_SQL ?ids ?c token"
  obtain tx1 w1 r tx2 w2 tx3 w3 where run: "mysql_set_lock_timeout d (batch_lock_timeout b) tx w0 = (Inr (), tx1, w1)"
    "drv_exec d ?q tx1 w1 = (Inr r, tx2, w2)"
    "mysql_restore_lock_timeout d (batch_lock_timeout b) tx2 w2 = (Inr (), tx3, w3)" and l3: "live tx3 w3"
    by (rule mysql_lent_total [OF l, where q = ?q and t = "batch_lock_timeout b"]) (auto simp: mysql_sql_defs)
  obtain y tx4 w4 where "drv_exec d ?s tx3 w3 = (Inr y, tx4, w4)"
    using drv_exec_total [OF l3, of ?s] by (auto simp: mysql_sql_defs)
  with t run show ?thesis by (simp add: mysql_claim_many_def Let_def)
qed

lemma mysql_steady: "steady_worlds (mysql_store d) live stocked"
proof
  show "stocked w'" if "stocked w" "live tx w" "op_claim (mysql_store d) r tx w = (Inr c, tx', w')" for w tx r c tx' w'
    using mysql_claim_total [OF that(2), of r] that(1,3) by (metis mysql_store_simps(5) prod.inject)
qed (auto simp: sql_begin_def sql_commit_def sql_rollback_def map_err_Inr_iff split: prod.splits
    intro: stocked_begin stocked_commit stocked_rollback stocked_drop)

lemma mysql_keeps_reliable:
  "reliable_savepoints (mysql_store d) (\<lambda>w. abs_db (com w)) (\<lambda>tx. abs_db (txn_db (st tx))) live
     stocked (\<lambda>tx. saved_of (st tx))"
proof (intro reliable_savepoints.intro reliable_store.intro mysql_steady mysql_keeps_contract mysql.inbox_contract_axioms)
  show "reliable_store_axioms (mysql_store d) live stocked"
  proof (unfold_locales, unfold mysql_store_simps)
    show "\<exists>tx w'. sql_begin d (Some mysql_BEGIN_SQL) w = (Inr tx, w')" for w
      using mysql_begin_total [of w] by (auto simp: sql_begin_def)
    show "\<exists>c tx' w'. mysql_claim d r tx w = (Inr c, tx', w')" if "live tx w" for r tx w
      using mysql_claim_total [OF that] by metis
  qed (rule sql_tx_total mysql_claim_many_total; assumption)+
  show "reliable_savepoints_axioms (mysql_store d) live (\<lambda>tx. saved_of (st tx))"
  proof (unfold_locales, unfold mysql_store_simps mysql_unclaim_def mysql_sql_defs)
    show "saved_of (st tx') = saved_of (st tx)"
      if "live tx w" "mysql_claim d r tx w = (Inr a, tx', w')" for tx w r a tx' w'
      using mysql_claim_total [OF that(1), of r] that(2) by (metis prod.inject)
  qed (rule savepoint_ops_total; assumption)+
qed

end

sublocale reliable_mysql_driver \<subseteq> mysql_reliable: reliable_savepoints "mysql_store d" "\<lambda>w. abs_db (com w)"
  "\<lambda>tx. abs_db (txn_db (st tx))" live stocked "\<lambda>tx. saved_of (st tx)"
  by (rule mysql_keeps_reliable)

text \<open>The reference database without faults.\<close>

lemma run_sql_total:
  "serviceable q (ref_st tx) \<Longrightarrow> \<exists>r tx'. run_sql now q tx = Some (r, tx')"
  by (induction q "ref_st tx" arbitrary: tx rule: serviceable.induct)
    (auto simp: after_savepoint_map split: option.splits)

interpretation ref_calm: reliable_driver "ref_driver calm" ref_com ref_st ref_live
proof (unfold_locales, goal_cases)
  case (4 tx w q)
  then obtain r tx' where "run_sql (int (w_step w)) q tx = Some (r, tx')" using run_sql_total by blast
  with 4(1) show ?case by (auto simp: ref_exec_def Let_def calm_def ref_live_def)
qed (simp_all add: ref_begin_def ref_commit_def ref_rollback_def Let_def calm_def)

text \<open>Tokens are left: the next one is a token, and none from it on is in use.\<close>

definition ref_stocked :: "'u ref_world \<Rightarrow> bool" where
  "ref_stocked w \<longleftrightarrow> list_all (\<lambda>n. n < w_next w) (tokens_of (w_data w)) \<and> int (w_next w) < 18446744073709551616"

lemma fold_max_Suc: "list_all (\<lambda>m. m < n) xs \<Longrightarrow> fold max (map Suc xs) n = (n :: nat)"
  by (induction xs) (auto simp: max_def)

lemma tick_next: "list_all (\<lambda>n. n < w_next w) (tokens_of p) \<Longrightarrow> w_next (tick p w) = w_next w"
  by (simp add: tick_def fold_max_Suc)

lemma ref_stocked_tick:
  "list_all (\<lambda>n. n < w_next w) (tokens_of p) \<Longrightarrow> ref_stocked (tick p w) = ref_stocked w"
  by (simp add: ref_stocked_def tick_next)

lemma tokens_of_insert: "tokens_of (apfst (rows_insert c \<lparr>processed_at = t, claim_token = None\<rparr> [m]) p) = tokens_of p"
  by (cases p) (simp add: tokens_of_def List.map_filter_simps)

interpretation ref_calm_mysql: reliable_mysql_driver "ref_driver calm" ref_com ref_st ref_live ref_stocked
proof (unfold_locales, goal_cases)
  case (1 w)
  show ?case by (simp add: ref_begin_def Let_def calm_def mysql_BEGIN_SQL_def split: option.splits)
next
  case (2 w tx)
  then show ?case by (simp add: ref_random_def ref_stocked_def)
next
  case (3 w q tx w')
  then have "w' = tick (w_data w) w"
    by (auto simp: ref_begin_def Let_def split: fault.splits option.splits stmt.splits)
  with 3(1) show ?case by (simp add: ref_stocked_def tick_next)
next
  case (4 w tx w')
  then show ?case by (auto simp: ref_commit_def Let_def calm_def ref_live_def ref_stocked_def tick_next)
next
  case (5 w tx w')
  then show ?case by (auto simp: ref_rollback_def calm_def ref_live_def ref_stocked_def tick_next)
next
  case (6 w tx)
  then show ?case by (auto simp: ref_drop_def ref_live_def ref_stocked_def tick_next)
next
  case (7 w tx q r tx' w')
  then show ?case
    by (cases q) (auto simp: ref_exec_def Let_def calm_def ref_live_def ref_stocked_tick tokens_of_insert
        split: option.splits)
qed

subsection \<open>The consumer on the backends\<close>

text \<open>The backends whose statements do not fail; \<open>stocked\<close> are the worlds in which MySQL has an unused token.\<close>

definition reliable_backend ::
  "('tx, 'w) driver \<Rightarrow> ('w \<Rightarrow> 'u database) \<Rightarrow> ('tx \<Rightarrow> 'u txn) \<Rightarrow> ('tx \<Rightarrow> 'w \<Rightarrow> bool) \<Rightarrow>
   ('w \<Rightarrow> bool) \<Rightarrow> ('tx, 'w) savepoint_ops \<Rightarrow> bool" where
  "reliable_backend d com st live stocked S \<longleftrightarrow>
     reliable_driver d com st live \<and> (S = pg_store d \<or> S = sqlite_store d) \<or>
     reliable_mysql_driver d com st live stocked \<and> S = mysql_store d"

lemma reliable_backend_savepoints:
  assumes "reliable_backend d com st live stocked S"
  obtains K where "reliable_savepoints S (db_committed com) (tx_view st) live K (tx_savepoint st)"
    "\<And>w. stocked w \<Longrightarrow> K w"
  using assms unfolding reliable_backend_def
  by (blast dest: reliable_driver.pg_keeps_reliable reliable_driver.sqlite_keeps_reliable
      reliable_mysql_driver.mysql_keeps_reliable)

lemma reliable_backend_ref [simp]:
  "reliable_backend (ref_driver calm) ref_com ref_st ref_live ref_stocked (pg_store (ref_driver calm))"
  "reliable_backend (ref_driver calm) ref_com ref_st ref_live ref_stocked (sqlite_store (ref_driver calm))"
  "reliable_backend (ref_driver calm) ref_com ref_st ref_live ref_stocked (mysql_store (ref_driver calm))"
  by (simp_all add: reliable_backend_def ref_calm.reliable_driver_axioms ref_calm_mysql.reliable_mysql_driver_axioms)

lemma ref_handler_decided:
  "decided_handler (db_committed ref_com) (tx_view ref_st) ref_live (tx_savepoint ref_st)
     (\<lambda>m. if m \<in> set bad then Some (lit ''refused'') else None) (\<lambda>m s. s\<lparr>app := eff m (app s)\<rparr>) (ref_handler eff bad)"
  by (auto simp: decided_handler_def ref_handler_def ref_live_def abs_db_def saved_of_def ref_st_def)

text \<open>C12: without faults \<open>process\<close> always settles the message, on all three backends. A recorded message
  is a duplicate and nothing changes; otherwise the handler's decision is the result: its error is returned
  and nothing changes, or the record and the effect are committed and the message is processed.\<close>

theorem process_decides:
  assumes "reliable_backend d com st live stocked S" and "con_store self = S"
    and "decided_handler (db_committed com) (tx_view st) live (tx_savepoint st) bad eff h"
    and "k = key_of (con_id self) m" and "db_committed com w = s"
  shows "\<exists>w'. process self m (h m) w =
      (if k \<in> seen s then Inr DuplicateOutcome
       else case bad m of Some e \<Rightarrow> Inl (Handler e) | None \<Rightarrow> Inr (Processed ()), w') \<and>
    db_committed com w' = (if k \<in> seen s \<or> bad m \<noteq> None then s else eff m (record_keys {k} s))"
  by (rule reliable_backend_savepoints [OF assms(1)]) (rule reliable_savepoints.process_total [OF _ assms(2-5)])

lemma process_decides_witness:
  "\<exists>w'. process (pg_orders calm) (msg ''m2'') (ref_handler (\<lambda>_. Suc) [msg ''m1''] (msg ''m2'')) recorded_world =
     (Inr (Processed ()), w') \<and>
     db_committed ref_com w' = (record_keys {key_of orders (msg ''m2'')} (db_committed ref_com recorded_world))\<lparr>app := 2\<rparr>"
proof -
  let ?s = "db_committed ref_com recorded_world"
  have "key_of orders (msg ''m2'') \<notin> seen ?s" and "app ?s = 1"
    by (simp_all add: ref_com_def recorded_world_def key_of_def orders_def msg_def)
  with process_decides [OF reliable_backend_ref(1) con_store_pg_orders(1) ref_handler_decided
        [where bad = "[msg ''m1'']" and eff = "\<lambda>_. Suc"] refl refl, of "msg ''m2''" recorded_world]
  show ?thesis by (auto simp: msg_def)
qed

text \<open>C7: without faults \<open>process_many\<close> is equivalent to one \<open>process\<close> call per message, in order: for handlers
  that change the application's data, the batch ends in the same data and reports, position by
  position, the same outcome or the failure of the handler, repeats within the batch included. The batch
  always returns.\<close>

theorem process_many_equals_single_calls:
  assumes "reliable_backend d com st live stocked S" and "con_store self = S"
    and "decided_handler (db_committed com) (tx_view st) live (tx_savepoint st) bad
      (\<lambda>m s. s\<lparr>app := f m (app s)\<rparr>) h"
    and "stocked w"
  shows "\<exists>rs w1 rs' w2. process_many self ids h w = (Some (Inr rs), w1) \<and>
    deliver_all self (\<lambda>m. m) h ids w = (rs', w2) \<and>
    db_committed com w1 = db_committed com w2 \<and> list_all2 same_result rs rs'"
proof -
  let ?eff = "\<lambda>m s. s\<lparr>app := f m (app s)\<rparr>" and ?c = "con_id self" and ?s = "db_committed com w"
  obtain K where rel: "reliable_savepoints S (db_committed com) (tx_view st) live K (tx_savepoint st)" and "K w"
    using reliable_backend_savepoints [OF assms(1)] assms(4) by metis
  obtain w1 where batch: "process_many self ids h w = (Some (Inr (fst (batch_decides ?c bad ?eff ids ?s))), w1)"
    "db_committed com w1 = snd (batch_decides ?c bad ?eff ids ?s)"
    using reliable_savepoints.process_many_total [OF rel assms(2,3) \<open>K w\<close>, of ids] by blast
  obtain w2 where single: "deliver_all self (\<lambda>m. m) h ids w = (fst (single_runs ?c bad ?eff ids ?s), w2)"
    "db_committed com w2 = snd (single_runs ?c bad ?eff ids ?s)"
    using reliable_savepoints.deliver_all_total [OF rel assms(2,3) refl, of ids w] by blast
  have "same_runs (batch_decides ?c bad ?eff ids ?s) (single_runs ?c bad ?eff ids ?s)"
    unfolding batch_decides_def by (rule batch_run_single_runs) auto
  with batch single show ?thesis by (auto simp: same_runs_def)
qed

lemma ref_stocked_recorded: "ref_stocked recorded_world"
  by (simp add: ref_stocked_def recorded_world_def sample_world_def tokens_of_def List.map_filter_simps)

lemma process_many_equals_single_calls_witness:
  "\<exists>rs w1 rs' w2. process_many (inbox_consumer (mysql_store (ref_driver calm)) orders) sample_batch
       (ref_handler (\<lambda>_. Suc) [msg ''bad'']) recorded_world = (Some (Inr rs), w1) \<and>
     deliver_all (inbox_consumer (mysql_store (ref_driver calm)) orders) (\<lambda>m. m) (ref_handler (\<lambda>_. Suc) [msg ''bad''])
       sample_batch recorded_world = (rs', w2) \<and>
     db_committed ref_com w1 = db_committed ref_com w2 \<and> list_all2 same_result rs rs'"
  by (rule process_many_equals_single_calls [OF reliable_backend_ref(3) inbox_consumer_simps(1) ref_handler_decided
        ref_stocked_recorded])

end
