(* ===== verification/Testing.thy ===== *)
theory Testing
  imports Reliable_Backends
begin

text \<open>
  The conformance suite of \<^verbatim>\<open>src/src/testing.rs\<close>, which backend authors run against their store.
  A check is a function on the world that ends in a value or in a panic: \<open>Op_failed\<close> for an
  \<open>expect\<close>, with its label, and \<open>Violated\<close> for an assertion, with its message (the parts that
  are formatted in are left out). The hash that \<open>Run::new\<close> draws from \<open>RandomState\<close> is an
  argument. A panic drops the transaction in scope.

  A store that keeps the contract and whose operations do not fail passes the suite, whatever the
  database holds, as long as the nonce is new.
\<close>

datatype check_failure = Op_failed str | Violated str

type_synonym ('a, 'w) check = "'w \<Rightarrow> (check_failure + 'a) \<times> 'w"

definition ck_return :: "'a \<Rightarrow> ('a, 'w) check" where
  "ck_return a w = (Inr a, w)"

definition ck_bind :: "('a, 'w) check \<Rightarrow> ('a \<Rightarrow> ('b, 'w) check) \<Rightarrow> ('b, 'w) check" where
  "ck_bind f g w = (case f w of (Inl e, w') \<Rightarrow> (Inl e, w') | (Inr a, w') \<Rightarrow> g a w')"

definition ck_seq :: "(unit, 'w) check \<Rightarrow> ('b, 'w) check \<Rightarrow> ('b, 'w) check" where
  "ck_seq f g = ck_bind f (\<lambda>_. g)"

definition ck_assert :: "bool \<Rightarrow> str \<Rightarrow> (unit, 'w) check" where
  "ck_assert b message w = (if b then (Inr (), w) else (Inl (Violated message), w))"

definition ck_expect :: "str \<Rightarrow> ('w \<Rightarrow> ('e + 'a) \<times> 'w) \<Rightarrow> ('a, 'w) check" where
  "ck_expect label f w =
     (case f w of (Inl _, w') \<Rightarrow> (Inl (Op_failed label), w') | (Inr a, w') \<Rightarrow> (Inr a, w'))"

text \<open>\<open>expect\<close> on a claim: the transaction goes on, or is dropped by the panic.\<close>

definition ck_expect_tx ::
  "('tx, 'w, 'z) inbox_ops_scheme \<Rightarrow> str \<Rightarrow> ('w \<Rightarrow> (inbox_error + 'a) \<times> 'tx \<times> 'w) \<Rightarrow> ('a \<times> 'tx, 'w) check" where
  "ck_expect_tx store label f w =
     (case f w of
        (Inl _, tx, w') \<Rightarrow> (Inl (Op_failed label), op_drop store tx w')
      | (Inr a, tx, w') \<Rightarrow> (Inr (a, tx), w'))"

subsection \<open>Run and the shared steps\<close>

text \<open>\<open>format!("{n:016x}")\<close> for the hash \<open>n\<close>.\<close>

definition run_new :: "u64 \<Rightarrow> str" where
  "run_new n = (let digits = show_hex (unat n) in replicate (16 - length digits) 48 @ digits)"

definition run_prefix :: "str \<Rightarrow> str" where
  "run_prefix nonce = lit ''conformance-'' @ nonce @ lit ''-''"

definition run_consumer :: "str \<Rightarrow> string \<Rightarrow> (consumer_id, 'w) check" where
  "run_consumer nonce check_name =
     ck_expect (lit ''valid consumer id'') (Pair (consumer_try_from (run_prefix nonce @ lit check_name)))"

definition test_message :: "str \<Rightarrow> (message_id, 'w) check" where
  "test_message ident = ck_expect (lit ''valid message id'') (Pair (message_try_from ident))"

definition claim_and_commit ::
  "('tx, 'w, 'z) inbox_ops_scheme \<Rightarrow> consumer_id \<Rightarrow> message_id \<Rightarrow> (claim, 'w) check" where
  "claim_and_commit store consumer ident =
     ck_bind (ck_expect (lit ''begin'') (op_begin store)) (\<lambda>tx.
     ck_bind (ck_expect_tx store (lit ''claim'') (op_claim store (claim_request_new consumer ident) tx)) (\<lambda>(c, tx).
     ck_bind (ck_expect (lit ''commit'') (op_commit store tx)) (\<lambda>_.
     ck_return c)))"

definition is_committed ::
  "('tx, 'w, 'z) inbox_ops_scheme \<Rightarrow> consumer_id \<Rightarrow> message_id \<Rightarrow> (bool, 'w) check" where
  "is_committed store consumer ident =
     ck_bind (ck_expect (lit ''begin'') (op_begin store)) (\<lambda>tx.
     ck_bind (ck_expect_tx store (lit ''claim'') (op_claim store (claim_request_new consumer ident) tx)) (\<lambda>(c, tx).
     ck_bind (ck_expect (lit ''rollback'') (op_rollback store tx)) (\<lambda>_.
     ck_return (c = Duplicate))))"

subsection \<open>The checks\<close>

definition ok_handler :: "(unit, 'tx, 'w) handler" where
  "ok_handler tx w = (Inr (), tx, w)"

definition fresh_then_duplicate :: "('tx, 'w, 'z) inbox_ops_scheme \<Rightarrow> str \<Rightarrow> (unit, 'w) check" where
  "fresh_then_duplicate store nonce =
     ck_bind (run_consumer nonce ''fresh'') (\<lambda>consumer_id.
     ck_bind (test_message (lit ''m'')) (\<lambda>ident.
     let consumer = inbox_consumer store consumer_id in
     ck_bind (ck_expect (lit ''first process'') (process consumer ident ok_handler)) (\<lambda>first.
     ck_bind (ck_expect (lit ''second process'') (process consumer ident ok_handler)) (\<lambda>second.
     ck_seq (ck_assert (first = Processed ()) (lit ''a new message must be processed''))
       (ck_assert (second = DuplicateOutcome) (lit ''a redelivered message must be a duplicate''))))))"

text \<open>The handler of the check: an effect on the connection, then a failure. \<open>disp\<close> is the text of a
  backend error.\<close>

definition failing_handler ::
  "(boxed_error \<Rightarrow> str) \<Rightarrow> ('tx, 'w, 'z) inbox_ops_scheme \<Rightarrow> consumer_id \<Rightarrow> message_id \<Rightarrow> (unit, 'tx, 'w) handler" where
  "failing_handler disp effect_store effect_consumer effect_id tx w =
     (case op_claim effect_store (claim_request_new effect_consumer effect_id) tx w of
        (Inl e, tx', w') \<Rightarrow> (Inl (display_inbox_error disp e), tx', w')
      | (Inr _, tx', w') \<Rightarrow> (Inl (lit ''deliberate handler failure''), tx', w'))"

fun is_handler_error :: "inbox_error + 'a \<Rightarrow> bool" where
  "is_handler_error (Inl (Handler e)) = True"
| "is_handler_error _ = False"

definition handler_failure_rolls_back ::
  "(boxed_error \<Rightarrow> str) \<Rightarrow> ('tx, 'w, 'z) inbox_ops_scheme \<Rightarrow> str \<Rightarrow> (unit, 'w) check" where
  "handler_failure_rolls_back disp store nonce =
     ck_bind (run_consumer nonce ''handler-failure'') (\<lambda>inbox.
     ck_bind (run_consumer nonce ''handler-failure-effect'') (\<lambda>effects.
     ck_bind (test_message (lit ''m'')) (\<lambda>ident.
     ck_bind (\<lambda>w. case process (inbox_consumer store inbox) ident (failing_handler disp store effects ident) w of
         (r, w') \<Rightarrow> (Inr r, w')) (\<lambda>result.
     ck_seq (ck_assert (is_handler_error result) (lit ''a failing handler must surface as InboxError::Handler''))
     (ck_bind (is_committed store inbox ident) (\<lambda>b.
     ck_seq (ck_assert (\<not> b) (lit ''a failed handler's claim must roll back''))
     (ck_bind (is_committed store effects ident) (\<lambda>b.
     ck_assert (\<not> b) (lit ''a failed handler's effect must roll back with its claim''))))))))) "

definition explicit_rollback_discards :: "('tx, 'w, 'z) inbox_ops_scheme \<Rightarrow> str \<Rightarrow> (unit, 'w) check" where
  "explicit_rollback_discards store nonce =
     ck_bind (run_consumer nonce ''rollback'') (\<lambda>consumer_id.
     ck_bind (test_message (lit ''m'')) (\<lambda>ident.
     let consumer = inbox_consumer store consumer_id in
     ck_bind (ck_expect (lit ''begin'') (consumer_begin consumer)) (\<lambda>tx.
     ck_bind (ck_expect_tx store (lit ''claim'') (consumer_claim consumer ident tx)) (\<lambda>(_, tx).
     ck_bind (ck_expect (lit ''rollback'') (consumer_rollback consumer tx)) (\<lambda>_.
     ck_bind (is_committed store consumer_id ident) (\<lambda>b.
     ck_assert (\<not> b) (lit ''InboxStore::rollback must discard the claim'')))))))"

definition dropped_transaction_does_not_persist ::
  "('tx, 'w, 'z) inbox_ops_scheme \<Rightarrow> str \<Rightarrow> (unit, 'w) check" where
  "dropped_transaction_does_not_persist store nonce =
     ck_bind (run_consumer nonce ''dropped'') (\<lambda>consumer_id.
     ck_bind (test_message (lit ''dropped'')) (\<lambda>dropped.
     ck_bind (test_message (lit ''later'')) (\<lambda>later.
     let consumer = inbox_consumer store consumer_id in
     ck_bind (ck_expect (lit ''begin'') (consumer_begin consumer)) (\<lambda>tx.
     ck_bind (ck_expect_tx store (lit ''claim'') (consumer_claim consumer dropped tx)) (\<lambda>(_, tx).
     ck_bind (\<lambda>w. (Inr (), op_drop store tx w)) (\<lambda>_.
     ck_bind (ck_expect (lit ''begin'') (consumer_begin consumer)) (\<lambda>tx.
     ck_bind (ck_expect_tx store (lit ''claim'') (consumer_claim consumer later tx)) (\<lambda>(_, tx).
     ck_bind (ck_expect (lit ''commit'') (consumer_commit consumer tx)) (\<lambda>_.
     ck_bind (is_committed store consumer_id later) (\<lambda>b.
     ck_seq (ck_assert b (lit ''a committed claim must persist''))
     (ck_bind (is_committed store consumer_id dropped) (\<lambda>b.
     ck_assert (\<not> b) (lit ''a transaction dropped without commit must roll back''))))))))))))) "

definition max_length_pair ::
  "('tx, 'w, 'z) inbox_ops_scheme \<Rightarrow> consumer_id \<Rightarrow> message_id \<Rightarrow> (unit, 'w) check" where
  "max_length_pair store consumer ident =
     ck_bind (claim_and_commit store consumer ident) (\<lambda>c.
     ck_seq (ck_assert (c = Fresh) (lit ''a max-length id must be accepted''))
     (ck_bind (claim_and_commit store consumer ident) (\<lambda>c.
     ck_assert (c = Duplicate) (lit ''a max-length id must deduplicate''))))"

definition max_length_ids_are_accepted :: "('tx, 'w, 'z) inbox_ops_scheme \<Rightarrow> str \<Rightarrow> (unit, 'w) check" where
  "max_length_ids_are_accepted store nonce =
     (let prefix = run_prefix nonce;
          room = consumer_MAX_LEN - str_len prefix
      in ck_bind (ck_expect (lit ''max consumer id'')
           (Pair (consumer_try_from (prefix @ replicate room 120)))) (\<lambda>ascii_consumer.
         ck_bind (ck_expect (lit ''max consumer id'')
           (Pair (consumer_try_from (prefix @ replicate (room div 4) 0x1F600 @ replicate (room mod 4) 121)))) (\<lambda>wide_consumer.
         ck_bind (test_message (replicate message_MAX_LEN 109)) (\<lambda>ascii_id.
         ck_bind (test_message (replicate (message_MAX_LEN div 4) 0x1F600)) (\<lambda>wide_id.
         ck_seq (max_length_pair store ascii_consumer ascii_id)
           (max_length_pair store wide_consumer wide_id))))))"

fun claim_all_fresh ::
  "('tx, 'w, 'z) inbox_ops_scheme \<Rightarrow> consumer_id \<Rightarrow> str list \<Rightarrow> (unit, 'w) check" where
  "claim_all_fresh store consumer [] = ck_return ()"
| "claim_all_fresh store consumer (i # ids) =
     ck_bind (test_message i) (\<lambda>ident.
     ck_bind (claim_and_commit store consumer ident) (\<lambda>c.
     ck_seq (ck_assert (c = Fresh) (lit ''collided with an earlier, different id: ids must compare byte for byte''))
       (claim_all_fresh store consumer ids)))"

definition byte_ids :: "str list" where
  "byte_ids =
     (let long = replicate (message_MAX_LEN - 1) 109
      in [long @ lit ''a'', long @ lit ''b'', lit ''Order-1'', lit ''order-1'', lit ''caf'' @ [0xe9], lit ''cafe''])"

definition ids_compare_byte_for_byte :: "('tx, 'w, 'z) inbox_ops_scheme \<Rightarrow> str \<Rightarrow> (unit, 'w) check" where
  "ids_compare_byte_for_byte store nonce =
     ck_bind (run_consumer nonce ''bytes'') (\<lambda>consumer. claim_all_fresh store consumer byte_ids)"

text \<open>\<open>claim_many\<close> may panic itself (\<open>None\<close>).\<close>

definition ck_claim_many ::
  "('tx, 'w, 'z) inbox_ops_scheme \<Rightarrow> consumer_id \<Rightarrow> message_id list \<Rightarrow> 'tx \<Rightarrow> (claim list \<times> 'tx, 'w) check" where
  "ck_claim_many store consumer_id batch tx w =
     (case consumer_claim_many (inbox_consumer store consumer_id) batch tx w of
        (None, tx', w') \<Rightarrow> (Inl (Op_failed (lit ''every id was sent to the backend'')), op_drop store tx' w')
      | (Some (Inl _), tx', w') \<Rightarrow> (Inl (Op_failed (lit ''claim_many'')), op_drop store tx' w')
      | (Some (Inr claims), tx', w') \<Rightarrow> (Inr (claims, tx'), w'))"

definition claim_many_matches_single_claims :: "('tx, 'w, 'z) inbox_ops_scheme \<Rightarrow> str \<Rightarrow> (unit, 'w) check" where
  "claim_many_matches_single_claims store nonce =
     ck_bind (run_consumer nonce ''claim-many'') (\<lambda>consumer_id.
     ck_bind (test_message (lit ''b'')) (\<lambda>known.
     ck_bind (claim_and_commit store consumer_id known) (\<lambda>c.
     ck_seq (ck_assert (c = Fresh) (lit ''assertion failed: left == right''))
     (ck_bind (test_message (lit ''c'')) (\<lambda>mc.
     ck_bind (test_message (lit ''b'')) (\<lambda>mb.
     ck_bind (test_message (lit ''a'')) (\<lambda>ma.
     ck_bind (ck_expect (lit ''begin'') (op_begin store)) (\<lambda>tx.
     ck_bind (ck_claim_many store consumer_id [mc, mb, ma, mc] tx) (\<lambda>(claims, tx).
     ck_bind (ck_expect (lit ''commit'') (op_commit store tx)) (\<lambda>_.
     ck_seq (ck_assert (claims = [Fresh, Duplicate, Fresh, Duplicate])
         (lit ''claim_many must answer like one claim per id, in input order, with repeats as duplicates''))
     (ck_bind (is_committed store consumer_id ma) (\<lambda>b.
     ck_seq (ck_assert b (lit ''claim_many's fresh claims must commit''))
     (ck_bind (is_committed store consumer_id mc) (\<lambda>b.
     ck_assert b (lit ''claim_many's fresh claims must commit'')))))))))))))))"

definition conformance ::
  "(boxed_error \<Rightarrow> str) \<Rightarrow> ('tx, 'w, 'z) inbox_ops_scheme \<Rightarrow> u64 \<Rightarrow> (unit, 'w) check" where
  "conformance disp store n =
     (let run = run_new n in
      ck_seq (fresh_then_duplicate store run)
     (ck_seq (handler_failure_rolls_back disp store run)
     (ck_seq (explicit_rollback_discards store run)
     (ck_seq (dropped_transaction_does_not_persist store run)
     (ck_seq (max_length_ids_are_accepted store run)
     (ck_seq (ids_compare_byte_for_byte store run)
     (claim_many_matches_single_claims store run)))))))"

subsection \<open>savepoints\_conformance\<close>

definition batch_names :: "str list" where
  "batch_names = map (\<lambda>i. lit ''m'' @ show_nat i) [0..<10] @ [lit ''m5'', lit ''m3'']"

definition batch_poisons :: "str list" where
  "batch_poisons = [lit ''m0'', lit ''m5'', lit ''m9'']"

definition batch_known :: str where
  "batch_known = lit ''m7''"

fun test_messages :: "str list \<Rightarrow> (message_id list, 'w) check" where
  "test_messages [] = ck_return []"
| "test_messages (i # ids) =
     ck_bind (test_message i) (\<lambda>m. ck_bind (test_messages ids) (\<lambda>ms. ck_return (m # ms)))"

definition poison_handler ::
  "(boxed_error \<Rightarrow> str) \<Rightarrow> ('tx, 'w, 'z) inbox_ops_scheme \<Rightarrow> consumer_id \<Rightarrow> message_id \<Rightarrow> (unit, 'tx, 'w) handler" where
  "poison_handler disp effect_store effect_consumer ident tx w =
     (case op_claim effect_store (claim_request_new effect_consumer ident) tx w of
        (Inl e, tx', w') \<Rightarrow> (Inl (display_inbox_error disp e), tx', w')
      | (Inr _, tx', w') \<Rightarrow>
          (if message_str ident \<in> set batch_poisons then Inl (lit ''poison'') else Inr (), tx', w'))"

definition ck_process_many ::
  "('tx, 'w, 'z) savepoint_ops_scheme \<Rightarrow> consumer_id \<Rightarrow> message_id list \<Rightarrow> (message_id \<Rightarrow> (unit, 'tx, 'w) handler) \<Rightarrow>
   (unit process_result list, 'w) check" where
  "ck_process_many store inbox ids handler w =
     (case process_many (inbox_consumer store inbox) ids handler w of
        (None, w') \<Rightarrow> (Inl (Op_failed (lit ''panic in process_many'')), w')
      | (Some (Inl _), w') \<Rightarrow> (Inl (Op_failed (lit ''process_many'')), w')
      | (Some (Inr results), w') \<Rightarrow> (Inr results, w'))"

fun check_batch ::
  "('tx, 'w, 'z) inbox_ops_scheme \<Rightarrow> consumer_id \<Rightarrow> consumer_id \<Rightarrow> (message_id \<times> unit process_result) list \<Rightarrow>
   (unit, 'w) check" where
  "check_batch store inbox effects [] = ck_return ()"
| "check_batch store inbox effects ((ident, result) # ps) =
     (if message_str ident = batch_known then
        ck_seq (ck_assert (result = Inr DuplicateOutcome) (lit ''was processed before the batch and must be a duplicate''))
        (ck_bind (is_committed store effects ident) (\<lambda>b.
         ck_seq (ck_assert (\<not> b) (lit ''the handler must not run for an already-processed message''))
           (check_batch store inbox effects ps)))
      else
        let poisoned = message_str ident \<in> set batch_poisons
        in ck_seq (ck_assert ((isl result) = poisoned) (lit ''must be an error iff it is a poison''))
           (ck_bind (is_committed store inbox ident) (\<lambda>b.
            ck_seq (ck_assert (b = (\<not> poisoned)) (lit ''claim must commit iff its handler succeeded''))
           (ck_bind (is_committed store effects ident) (\<lambda>b.
            ck_seq (ck_assert (b = (\<not> poisoned)) (lit ''effect must commit iff its handler succeeded''))
              (check_batch store inbox effects ps))))))"

definition savepoints_conformance ::
  "(boxed_error \<Rightarrow> str) \<Rightarrow> ('tx, 'w, 'z) savepoint_ops_scheme \<Rightarrow> u64 \<Rightarrow> (unit, 'w) check" where
  "savepoints_conformance disp store n =
     (let run = run_new n in
     ck_bind (run_consumer run ''process-many'') (\<lambda>inbox.
     ck_bind (run_consumer run ''process-many-effect'') (\<lambda>effects.
     ck_bind (test_messages batch_names) (\<lambda>ids.
     ck_bind (test_message batch_known) (\<lambda>known.
     ck_bind (claim_and_commit store inbox known) (\<lambda>c.
     ck_seq (ck_assert (c = Fresh) (lit ''assertion failed: left == right''))
     (ck_bind (ck_process_many store inbox ids (poison_handler disp store effects)) (\<lambda>results.
     check_batch store inbox effects (zip ids results)))))))))"

subsection \<open>Reasoning about checks\<close>

text \<open>\<open>runs I J f s a s'\<close>: from every world in \<open>I s\<close> the check \<open>f\<close> returns \<open>a\<close> and leaves a world in
  \<open>J s'\<close>. (\<open>s\<close> will be the committed data.)\<close>

definition runs :: "('s \<Rightarrow> 'w \<Rightarrow> bool) \<Rightarrow> ('s \<Rightarrow> 'w \<Rightarrow> bool) \<Rightarrow> ('a, 'w) check \<Rightarrow> 's \<Rightarrow> 'a \<Rightarrow> 's \<Rightarrow> bool" where
  "runs I J f s a s' \<longleftrightarrow> (\<forall>w. I s w \<longrightarrow> (\<exists>w'. f w = (Inr a, w') \<and> J s' w'))"

lemma runs_bind [check_rules]: "runs I J f s a s1 \<Longrightarrow> runs J K (g a) s1 b s2 \<Longrightarrow> runs I K (ck_bind f g) s b s2"
  unfolding runs_def ck_bind_def by fastforce

lemma runs_seq [check_rules]: "runs I J f s () s1 \<Longrightarrow> runs J K g s1 b s2 \<Longrightarrow> runs I K (ck_seq f g) s b s2"
  unfolding ck_seq_def by (erule runs_bind)

lemma runs_return [check_rules]: "runs I I (ck_return a) s a s"
  by (simp add: runs_def ck_return_def)

lemma runs_assert [check_rules]: "b \<Longrightarrow> runs I I (ck_assert b label) s () s"
  by (simp add: runs_def ck_assert_def)

lemma runs_weaken: "runs I J f s a s' \<Longrightarrow> (\<And>w. I' s w \<Longrightarrow> I s w) \<Longrightarrow> runs I' J f s a s'"
  by (simp add: runs_def)

lemma runs_expect_id: "x = Inr a \<Longrightarrow> runs I I (ck_expect l (Pair x)) s a s"
  by (simp add: runs_def ck_expect_def)

lemma runs_message: "valid_id message_MAX_LEN i \<Longrightarrow> runs I I (test_message i) s (MessageId i) s"
  unfolding test_message_def
  by (rule runs_expect_id) (simp add: message_try_from_def check_id_ok_iff [THEN iffD2])

text \<open>A nonce as the suite makes it: sixteen hexadecimal digits.\<close>

definition hex_nonce :: "str \<Rightarrow> bool" where
  "hex_nonce nonce \<longleftrightarrow> length nonce = 16 \<and> list_all (\<lambda>c. 48 \<le> c \<and> c \<le> 57 \<or> 97 \<le> c \<and> c \<le> 102) nonce"

lemma hex_run_new [simp]: "hex_nonce (run_new n)"
proof -
  have "unat n < 2 ^ LENGTH(64)" by (rule unsigned_less)
  then have "unat n < 16 ^ Suc 15" by simp
  from length_show_hex [OF this] show ?thesis
    by (auto simp: hex_nonce_def run_new_def Let_def list_all_iff dest: show_hex_digits)
qed

lemma run_new_inject: "run_new m = run_new n \<longleftrightarrow> m = n"
proof
  assume "run_new m = run_new n"
  then have "read_hex (run_new m) = read_hex (run_new n)" by simp
  then have "unat m = unat n" by (simp add: run_new_def Let_def)
  then show "m = n" by (rule word_unat_eq_iff [THEN iffD2])
qed simp

lemma str_len_nonce: "hex_nonce nonce \<Longrightarrow> str_len nonce = 16"
  by (subst str_len_ascii) (auto simp: hex_nonce_def list_all_iff)

lemma str_len_prefix: "hex_nonce nonce \<Longrightarrow> str_len (run_prefix nonce) = 29"
  by (simp add: run_prefix_def str_len_nonce utf8_char_def)

abbreviation check_consumer :: "str \<Rightarrow> string \<Rightarrow> consumer_id" where
  "check_consumer nonce name \<equiv> ConsumerId (run_prefix nonce @ lit name)"

lemma not_ws_prefix: "\<not> is_whitespace (hd (run_prefix nonce @ t))"
  by (simp add: run_prefix_def is_whitespace_def)

lemma runs_consumer:
  assumes "hex_nonce nonce" and "lit name \<noteq> []" and "\<not> is_whitespace (last (lit name))"
    and "str_len (lit name) \<le> 226"
  shows "runs I I (run_consumer nonce name) s (check_consumer nonce name) s"
proof -
  have "valid_id consumer_MAX_LEN (run_prefix nonce @ lit name)"
    using assms not_ws_prefix [of nonce] by (auto simp: valid_id_def str_len_prefix consumer_MAX_LEN_def)
  then show ?thesis
    unfolding run_consumer_def
    by (intro runs_expect_id) (simp add: consumer_try_from_def check_id_ok_iff [THEN iffD2])
qed

subsection \<open>The shared steps of the checks\<close>

text \<open>Worlds with given data among the worlds \<open>K\<close> that the operations of a check do not leave.\<close>

locale steady_store = reliable_store S committed view live stocked + kept: steady_worlds S live K
  for S :: "('tx, 'w, 'z) inbox_ops_scheme"
    and committed :: "'w \<Rightarrow> 'u inbox_state" and view :: "'tx \<Rightarrow> 'u inbox_state"
    and live :: "'tx \<Rightarrow> 'w \<Rightarrow> bool" and stocked :: "'w \<Rightarrow> bool" and K :: "'w \<Rightarrow> bool"
begin

abbreviation within :: "'u inbox_state \<Rightarrow> 'w \<Rightarrow> bool" where
  "within s w \<equiv> committed w = s \<and> K w"

lemma begin_claim_kept:
  assumes "within s w"
  obtains tx w1 tx2 w2 where "op_begin S w = (Inr tx, w1)"
    "op_claim S (claim_request_new c m) tx w1 = (Inr (answer (key_of c m) s), tx2, w2)"
    "live tx2 w2" "view tx2 = record_keys {key_of c m} s" "within s w2"
proof -
  obtain tx w1 tx2 w2 where run: "op_begin S w = (Inr tx, w1)"
    "op_claim S (claim_request_new c m) tx w1 = (Inr (answer (key_of c m) s), tx2, w2)"
    and l: "live tx2 w2" "view tx2 = record_keys {key_of c m} s" "committed w2 = s"
    using begin_claim [of w s c m] assms by blast
  have "K w2"
    using kept.claim_steady [OF kept.begin_steady [OF _ run(1)] conjunct1 [OF begin_ok [OF run(1)]] run(2)] assms by blast
  with run l show ?thesis by (intro that) simp_all
qed

lemma runs_claim_and_commit:
  "runs within within (claim_and_commit S c m) s (answer (key_of c m) s) (record_keys {key_of c m} s)"
  unfolding runs_def
proof (intro allI impI)
  fix w assume "within s w"
  then obtain tx w1 tx2 w2 where
    run: "op_begin S w = (Inr tx, w1)" "op_claim S (claim_request_new c m) tx w1 = (Inr (answer (key_of c m) s), tx2, w2)"
    and l: "live tx2 w2" and v: "view tx2 = record_keys {key_of c m} s" "within s w2" by (rule begin_claim_kept)
  obtain w3 where "op_commit S tx2 w2 = (Inr (), w3)" using commit_total [OF l] by blast
  with run commit_ok [OF this] kept.commit_steady [OF _ l this] l v
  show "\<exists>w'. claim_and_commit S c m w = (Inr (answer (key_of c m) s), w') \<and> within (record_keys {key_of c m} s) w'"
    by (simp add: claim_and_commit_def ck_bind_def ck_expect_def ck_expect_tx_def ck_return_def)
qed

lemma rollback_within: "within s w \<Longrightarrow> live tx w \<Longrightarrow> \<exists>w'. op_rollback S tx w = (Inr (), w') \<and> within s w'"
  using rollback_total [of tx w] rollback_keeps [of tx w] kept.rollback_steady [of w tx] by metis

lemma runs_is_committed: "runs within within (is_committed S c m) s (key_of c m \<in> seen s) s"
  unfolding runs_def
proof (intro allI impI)
  fix w assume "within s w"
  then obtain tx w1 tx2 w2 where
    run: "op_begin S w = (Inr tx, w1)" "op_claim S (claim_request_new c m) tx w1 = (Inr (answer (key_of c m) s), tx2, w2)"
    and l: "live tx2 w2" "view tx2 = record_keys {key_of c m} s" "within s w2" by (rule begin_claim_kept)
  with rollback_within [OF l(3,1)]
  show "\<exists>w'. is_committed S c m w = (Inr (key_of c m \<in> seen s), w') \<and> within s w'"
    by (auto simp: is_committed_def ck_bind_def ck_expect_def ck_expect_tx_def ck_return_def)
qed

lemma runs_process_ok:
  "runs within within (ck_expect l (process (inbox_consumer S c) m ok_handler)) s
     (if key_of c m \<in> seen s then DuplicateOutcome else Processed ()) (record_keys {key_of c m} s)"
  unfolding runs_def
proof (intro allI impI)
  fix w assume "within s w"
  then obtain tx w1 tx2 w2 where
    run: "op_begin S w = (Inr tx, w1)" "op_claim S (claim_request_new c m) tx w1 = (Inr (answer (key_of c m) s), tx2, w2)"
    and l: "live tx2 w2" "view tx2 = record_keys {key_of c m} s" "within s w2" by (rule begin_claim_kept)
  obtain w3 where w3: "op_commit S tx2 w2 = (Inr (), w3)" using commit_total [OF l(1)] by blast
  obtain w4 where w4: "op_rollback S tx2 w2 = (Inr (), w4)" "within s w4" using rollback_within [OF l(3,1)] by blast
  from run w3 w4 commit_ok [OF w3] kept.commit_steady [OF _ l(1) w3] l
  show "\<exists>w'. ck_expect l (process (inbox_consumer S c) m ok_handler) w =
      (Inr (if key_of c m \<in> seen s then DuplicateOutcome else Processed ()), w') \<and>
      within (record_keys {key_of c m} s) w'"
    by (auto simp: ck_expect_def process_def process_fresh_def ok_handler_def record_keys_absorb)
qed

text \<open>A transaction of a check: begin, claim, then some way \<open>f\<close> to end it.\<close>

lemma runs_tx:
  assumes f: "\<And>tx w. live tx w \<Longrightarrow> view tx = record_keys {key_of c m} s \<Longrightarrow> within s w \<Longrightarrow>
      \<exists>w'. f tx w = (Inr u, w') \<and> within s1 w'"
    and g: "runs within J (g u) s1 a s2"
  shows "runs within J
    (ck_bind (ck_expect l1 (consumer_begin (inbox_consumer S c))) (\<lambda>tx.
     ck_bind (ck_expect_tx S l2 (consumer_claim (inbox_consumer S c) m tx)) (\<lambda>(_, tx).
     ck_bind (f tx) g))) s a s2"
  unfolding runs_def
proof (intro allI impI)
  fix w assume "within s w"
  then obtain tx w1 tx2 w2 where
    run: "op_begin S w = (Inr tx, w1)" "op_claim S (claim_request_new c m) tx w1 = (Inr (answer (key_of c m) s), tx2, w2)"
    and l: "live tx2 w2" "view tx2 = record_keys {key_of c m} s" "within s w2" by (rule begin_claim_kept)
  obtain w3 where w3: "f tx2 w2 = (Inr u, w3)" "within s1 w3" using f [OF l] by blast
  obtain w4 where "g u w3 = (Inr a, w4)" "J s2 w4" using g w3(2) unfolding runs_def by blast
  with run w3 show "\<exists>w'. ck_bind (ck_expect l1 (consumer_begin (inbox_consumer S c))) (\<lambda>tx.
      ck_bind (ck_expect_tx S l2 (consumer_claim (inbox_consumer S c) m tx)) (\<lambda>(_, tx). ck_bind (f tx) g)) w =
      (Inr a, w') \<and> J s2 w'"
    by (simp add: ck_bind_def ck_expect_def ck_expect_tx_def consumer_begin_def)
qed

lemma end_by_rollback:
  "live tx w \<Longrightarrow> within s w \<Longrightarrow>
    \<exists>w'. ck_expect l (consumer_rollback (inbox_consumer S c) tx) w = (Inr (), w') \<and> within s w'"
  using rollback_within [of w s tx] by (force simp: ck_expect_def consumer_rollback_def)

lemma end_by_commit:
  "live tx w \<Longrightarrow> view tx = v \<Longrightarrow> within s w \<Longrightarrow>
    \<exists>w'. ck_expect l (consumer_commit (inbox_consumer S c) tx) w = (Inr (), w') \<and> within v w'"
  using commit_total [of tx w] commit_ok [of tx w] kept.commit_steady [of w tx]
  by (force simp: ck_expect_def consumer_commit_def)

lemma end_by_drop:
  "live tx w \<Longrightarrow> within s w \<Longrightarrow> \<exists>w'. (Inr (), op_drop S tx w) = (Inr (), w') \<and> within s w'"
  using drop_keeps [of tx w] kept.drop_steady [of w tx] by simp

lemma runs_process_failing:
  assumes "key_of c m \<notin> seen s"
  shows "runs within within (\<lambda>w. case process (inbox_consumer S c) m (failing_handler disp S e m) w of (r, w') \<Rightarrow> (Inr r, w')) s
    (Inl (Handler (lit ''deliberate handler failure''))) s"
  unfolding runs_def
proof (intro allI impI)
  fix w assume "within s w"
  then obtain tx w1 tx2 w2 where
    run: "op_begin S w = (Inr tx, w1)" "op_claim S (claim_request_new c m) tx w1 = (Inr (answer (key_of c m) s), tx2, w2)"
    and l: "live tx2 w2" "view tx2 = record_keys {key_of c m} s" "within s w2" by (rule begin_claim_kept)
  obtain a tx3 w3 where a: "op_claim S (claim_request_new e m) tx2 w2 = (Inr a, tx3, w3)"
    using claim_total [OF l(1)] by blast
  have "within s w3" "live tx3 w3" using claim_ok [OF l(1) a] kept.claim_steady [OF _ l(1) a] l(3) by simp_all
  with run a rollback_within [of w3 s tx3] assms
  show "\<exists>w'. (case process (inbox_consumer S c) m (failing_handler disp S e m) w of (r, w') \<Rightarrow> (Inr r, w')) =
      (Inr (Inl (Handler (lit ''deliberate handler failure''))), w') \<and> within s w'"
    by (auto simp: process_def process_fresh_def failing_handler_def)
qed

end

sublocale reliable_store \<subseteq> stock: steady_store S committed view live stocked stocked
  by unfold_locales

sublocale reliable_store \<subseteq> anywhere: steady_store S committed view live stocked "\<lambda>_. True"
  by (intro steady_store.intro reliable_store_axioms steady_worlds_True)

context reliable_store
begin

lemma runs_claim_many:
  assumes g: "runs anywhere.within J (g ()) (record_keys (key_of c ` set ids) s) a s2"
  shows "runs stock.within J
    (ck_bind (ck_expect l1 (op_begin S)) (\<lambda>tx.
     ck_bind (ck_claim_many S c ids tx) (\<lambda>(claims, tx).
     ck_bind (ck_expect l2 (op_commit S tx)) (\<lambda>_.
     ck_seq (ck_assert (claims = answer_each c (seen s) ids) l3) (g ()))))) s a s2"
  unfolding runs_def
proof (intro allI impI)
  fix w assume s: "stock.within s w"
  obtain tx w1 where b: "op_begin S w = (Inr tx, w1)" using begin_total by blast
  note begun = begin_ok [OF b]
  let ?call = "consumer_claim_many (inbox_consumer S c) ids tx w1"
  obtain r tx2 w2 where r: "?call = (r, tx2, w2)" by (metis prod.collapse)
  have r2: "\<exists>cs. r = Some (Inr cs)"
    using consumer_claim_many_total [OF inbox_consumer_simps(1) _ r] begun begin_steady [OF _ b] s by blast
  then have ans: "r = Some (Inr (answer_each c (seen s) ids))"
    and tx2: "view tx2 = record_keys (key_of c ` set ids) s" "live tx2 w2"
    using consumer_claim_many_ok [OF inbox_consumer_simps(1) conjunct1 [OF begun] r] begun s by auto
  obtain w3 where w3: "op_commit S tx2 w2 = (Inr (), w3)" using commit_total [OF tx2(2)] by blast
  have "committed w3 = record_keys (key_of c ` set ids) s" using commit_ok [OF w3] tx2 by simp
  then obtain w4 where "g () w3 = (Inr a, w4)" "J s2 w4" using g unfolding runs_def by blast
  with b r ans w3 show "\<exists>w'. ck_bind (ck_expect l1 (op_begin S)) (\<lambda>tx.
     ck_bind (ck_claim_many S c ids tx) (\<lambda>(claims, tx).
     ck_bind (ck_expect l2 (op_commit S tx)) (\<lambda>_.
     ck_seq (ck_assert (claims = answer_each c (seen s) ids) l3) (g ())))) w = (Inr a, w') \<and> J s2 w'"
    by (simp add: ck_bind_def ck_seq_def ck_expect_def ck_claim_many_def ck_assert_def)
qed

end

subsection \<open>The checks pass\<close>

text \<open>A consumer id nothing is recorded under, and which consumers a step has recorded under.\<close>

definition untouched :: "consumer_id \<Rightarrow> 'u inbox_state \<Rightarrow> bool" where
  "untouched c s \<longleftrightarrow> (\<forall>m. key_of c m \<notin> seen s)"

definition only_under :: "consumer_id set \<Rightarrow> 'u inbox_state \<Rightarrow> 'u inbox_state \<Rightarrow> bool" where
  "only_under cs s s' \<longleftrightarrow> (\<forall>c. c \<notin> cs \<longrightarrow> (\<forall>m. key_of c m \<in> seen s' \<longrightarrow> key_of c m \<in> seen s))"

lemma only_under_refl [simp]: "only_under cs s s"
  by (simp add: only_under_def)

lemma only_under_record: "only_under {c} s (record_keys {key_of c m} s)"
  "only_under {c} s (record_keys (key_of c ` ms) s)"
  by (auto simp: only_under_def)

lemma only_under_trans: "only_under cs s s1 \<Longrightarrow> only_under ds s1 s2 \<Longrightarrow> only_under (cs \<union> ds) s s2"
  by (simp add: only_under_def)

lemma untouched_step: "untouched c s \<Longrightarrow> only_under cs s s' \<Longrightarrow> c \<notin> cs \<Longrightarrow> untouched c s'"
  by (auto simp: untouched_def only_under_def)

lemma untouchedD [simp]: "untouched c s \<Longrightarrow> key_of c m \<notin> seen s"
  by (simp add: untouched_def)

lemma str_len_replicate: "str_len (replicate n c) = n * length (utf8_char c)"
  by (induction n) auto

lemma valid_short:
  "s \<noteq> [] \<Longrightarrow> \<not> is_whitespace (hd s) \<Longrightarrow> \<not> is_whitespace (last s) \<Longrightarrow> str_len s \<le> 512 \<Longrightarrow> valid_id message_MAX_LEN s"
  by (simp add: valid_id_def message_MAX_LEN_def)

lemma valid_byte_ids: "list_all (valid_id message_MAX_LEN) byte_ids"
  by (simp add: byte_ids_def Let_def valid_id_def message_MAX_LEN_def str_len_replicate utf8_char_def
      is_whitespace_def hd_append)

lemma distinct_byte_ids: "distinct byte_ids"
  by (auto simp: byte_ids_def Let_def message_MAX_LEN_def dest: arg_cong [where f = length])

lemma last_lit_not_ws:
  "\<not> is_whitespace (last (lit ''fresh''))" "\<not> is_whitespace (last (lit ''handler-failure''))"
  "\<not> is_whitespace (last (lit ''handler-failure-effect''))" "\<not> is_whitespace (last (lit ''rollback''))"
  "\<not> is_whitespace (last (lit ''dropped''))" "\<not> is_whitespace (last (lit ''bytes''))"
  "\<not> is_whitespace (last (lit ''claim-many''))"
  by (simp_all add: is_whitespace_def)

lemma runs_test_message [check_rules]:
  "runs I I (test_message (lit ''m'')) s (MessageId (lit ''m'')) s"
  "runs I I (test_message (lit ''a'')) s (MessageId (lit ''a'')) s"
  "runs I I (test_message (lit ''b'')) s (MessageId (lit ''b'')) s"
  "runs I I (test_message (lit ''c'')) s (MessageId (lit ''c'')) s"
  "runs I I (test_message (lit ''dropped'')) s (MessageId (lit ''dropped'')) s"
  "runs I I (test_message (lit ''later'')) s (MessageId (lit ''later'')) s"
  by (rule runs_message; simp add: valid_id_def message_MAX_LEN_def is_whitespace_def utf8_char_def)+

lemma runs_check_consumer:
  assumes "hex_nonce nonce"
  shows "runs I I (run_consumer nonce ''fresh'') s (check_consumer nonce ''fresh'') s"
    "runs I I (run_consumer nonce ''handler-failure'') s (check_consumer nonce ''handler-failure'') s"
    "runs I I (run_consumer nonce ''handler-failure-effect'') s (check_consumer nonce ''handler-failure-effect'') s"
    "runs I I (run_consumer nonce ''rollback'') s (check_consumer nonce ''rollback'') s"
    "runs I I (run_consumer nonce ''dropped'') s (check_consumer nonce ''dropped'') s"
    "runs I I (run_consumer nonce ''bytes'') s (check_consumer nonce ''bytes'') s"
    "runs I I (run_consumer nonce ''claim-many'') s (check_consumer nonce ''claim-many'') s"
  by (rule runs_consumer [OF assms _ last_lit_not_ws(1)] runs_consumer [OF assms _ last_lit_not_ws(2)]
      runs_consumer [OF assms _ last_lit_not_ws(3)] runs_consumer [OF assms _ last_lit_not_ws(4)]
      runs_consumer [OF assms _ last_lit_not_ws(5)] runs_consumer [OF assms _ last_lit_not_ws(6)]
      runs_consumer [OF assms _ last_lit_not_ws(7)]; simp add: utf8_char_def)+

text \<open>The ids of maximal length, and what the check does with them.\<close>

lemma runs_max_length:
  fixes nonce
  defines "c1 \<equiv> ConsumerId (run_prefix nonce @ replicate 226 120)"
    and "c2 \<equiv> ConsumerId (run_prefix nonce @ replicate 56 0x1F600 @ replicate 2 121)"
  assumes hex: "hex_nonce nonce"
    and pair1: "runs I J (max_length_pair S c1 (MessageId (replicate 512 109))) s () s1"
    and pair2: "runs J K (max_length_pair S c2 (MessageId (replicate 128 0x1F600))) s1 () s2"
  shows "runs I K (max_length_ids_are_accepted S nonce) s () s2"
proof -
  have len: "consumer_MAX_LEN - str_len (run_prefix nonce) = 226"
    using hex by (simp add: str_len_prefix consumer_MAX_LEN_def)
  have div_mod: "(226::nat) div 4 = 56" "(226::nat) mod 4 = 2" "(512::nat) div 4 = 128" by simp_all
  have c1: "consumer_try_from (run_prefix nonce @ replicate 226 120) = Inr c1"
    and c2: "consumer_try_from (run_prefix nonce @ replicate 56 0x1F600 @ replicate 2 121) = Inr c2"
    unfolding c1_def c2_def consumer_try_from_def using hex not_ws_prefix [of nonce]
    by (simp_all add: check_id_ok_iff [THEN iffD2] valid_id_def str_len_prefix str_len_replicate utf8_char_def
        consumer_MAX_LEN_def is_whitespace_def)
  have m: "runs I I (test_message (replicate 512 109)) s (MessageId (replicate 512 109)) s"
    "runs I I (test_message (replicate 128 0x1F600)) s (MessageId (replicate 128 0x1F600)) s"
    by (rule runs_message; simp add: valid_id_def message_MAX_LEN_def str_len_replicate utf8_char_def is_whitespace_def)+
  show ?thesis
    unfolding max_length_ids_are_accepted_def Let_def len message_MAX_LEN_def div_mod
    by (rule runs_bind [OF runs_expect_id [OF c1]] runs_bind [OF runs_expect_id [OF c2]] runs_bind [OF m(1)]
        runs_bind [OF m(2)] runs_seq [OF pair1 pair2])+
qed

lemma max_consumers_distinct:
  "ConsumerId (p @ replicate 226 120) \<noteq> ConsumerId (p @ replicate 56 0x1F600 @ replicate 2 121)"
  by (auto dest: arg_cong [where f = length])

context steady_store
begin

lemma fresh_then_duplicate_passes:
  fixes nonce s
  defines "c \<equiv> check_consumer nonce ''fresh''"
  assumes "hex_nonce nonce" and "untouched c s"
  shows "\<exists>s'. runs within within (fresh_then_duplicate S nonce) s () s' \<and> only_under {c} s s'"
proof -
  let ?k = "key_of c (MessageId (lit ''m''))"
  have "runs within within (fresh_then_duplicate S nonce) s () (record_keys {?k} (record_keys {?k} s))"
    unfolding fresh_then_duplicate_def Let_def
    by (rule check_rules runs_check_consumer [OF assms(2)] runs_process_ok
        | use assms in simp)+
  then show ?thesis using only_under_record(1) [of c s] by auto
qed

lemma handler_failure_passes:
  fixes nonce s
  defines "c \<equiv> check_consumer nonce ''handler-failure''" and "e \<equiv> check_consumer nonce ''handler-failure-effect''"
  assumes "hex_nonce nonce" and "untouched c s" and "untouched e s"
  shows "runs within within (handler_failure_rolls_back disp S nonce) s () s"
  unfolding handler_failure_rolls_back_def
  by (rule check_rules runs_check_consumer [OF assms(3)] runs_process_failing runs_is_committed
      | use assms in simp)+

lemma explicit_rollback_passes:
  fixes nonce s
  defines "c \<equiv> check_consumer nonce ''rollback''"
  assumes "hex_nonce nonce" and "untouched c s"
  shows "runs within within (explicit_rollback_discards S nonce) s () s"
  unfolding explicit_rollback_discards_def Let_def
  by (rule runs_tx end_by_rollback check_rules runs_check_consumer [OF assms(2)] runs_is_committed
      | assumption | use assms in simp)+

lemma dropped_transaction_passes:
  fixes nonce s
  defines "c \<equiv> check_consumer nonce ''dropped''"
  assumes "hex_nonce nonce" and "untouched c s"
  shows "\<exists>s'. runs within within (dropped_transaction_does_not_persist S nonce) s () s' \<and> only_under {c} s s'"
proof -
  let ?k = "key_of c (MessageId (lit ''later''))"
  have "runs within within (dropped_transaction_does_not_persist S nonce) s () (record_keys {?k} s)"
    unfolding dropped_transaction_does_not_persist_def Let_def
    by (rule runs_tx end_by_commit end_by_drop check_rules runs_check_consumer [OF assms(2)] runs_is_committed
        | assumption | use assms in simp)+
  then show ?thesis using only_under_record(1) [of c s] by auto
qed

lemma max_length_pair_passes:
  assumes "untouched c s"
  shows "\<exists>s'. runs within within (max_length_pair S c m) s () s' \<and> only_under {c} s s'"
proof -
  have "runs within within (max_length_pair S c m) s () (record_keys {key_of c m} (record_keys {key_of c m} s))"
    unfolding max_length_pair_def
    by (rule check_rules runs_claim_and_commit | use assms in simp)+
  then show ?thesis using only_under_record(1) [of c s] by auto
qed

lemma claim_all_fresh_passes:
  assumes "list_all (valid_id message_MAX_LEN) ids" and "distinct ids"
    and "\<forall>i\<in>set ids. key_of c (MessageId i) \<notin> seen s"
  shows "\<exists>s'. runs within within (claim_all_fresh S c ids) s () s' \<and> only_under {c} s s'"
  using assms
proof (induction ids arbitrary: s)
  case Nil
  show ?case unfolding claim_all_fresh.simps by (intro exI [of _ s] conjI runs_return only_under_refl)
next
  case (Cons i ids)
  let ?s = "record_keys {key_of c (MessageId i)} s"
  obtain s' where s': "runs within within (claim_all_fresh S c ids) ?s () s'" "only_under {c} ?s s'"
    using Cons.IH [of ?s] Cons.prems by auto
  have "runs within within (claim_all_fresh S c (i # ids)) s () s'"
    unfolding claim_all_fresh.simps
    by (rule s' check_rules runs_message runs_claim_and_commit | use Cons.prems in simp)+
  moreover have "only_under {c} s s'" using s'(2) by (auto simp: only_under_def)
  ultimately show ?case by blast
qed

lemma ids_compare_passes:
  fixes nonce s
  defines "c \<equiv> check_consumer nonce ''bytes''"
  assumes "hex_nonce nonce" and "untouched c s"
  shows "\<exists>s'. runs within within (ids_compare_byte_for_byte S nonce) s () s' \<and> only_under {c} s s'"
proof -
  obtain s' where "runs within within (claim_all_fresh S c byte_ids) s () s'" "only_under {c} s s'"
    using claim_all_fresh_passes [OF valid_byte_ids distinct_byte_ids, of c s] assms(3) by auto
  then show ?thesis
    unfolding ids_compare_byte_for_byte_def c_def
    by (intro exI conjI runs_bind [OF runs_check_consumer(6) [OF assms(2)]])
qed

lemma max_length_passes:
  fixes nonce s
  defines "c1 \<equiv> ConsumerId (run_prefix nonce @ replicate 226 120)"
    and "c2 \<equiv> ConsumerId (run_prefix nonce @ replicate 56 0x1F600 @ replicate 2 121)"
  assumes "hex_nonce nonce" and "untouched c1 s" and "untouched c2 s"
  shows "\<exists>s'. runs within within (max_length_ids_are_accepted S nonce) s () s' \<and> only_under {c1, c2} s s'"
proof -
  let ?m1 = "MessageId (replicate 512 109)" and ?m2 = "MessageId (replicate 128 0x1F600)"
  obtain s1 where s1: "runs within within (max_length_pair S c1 ?m1) s () s1" "only_under {c1} s s1"
    using max_length_pair_passes [OF assms(4)] by blast
  have "untouched c2 s1"
    using untouched_step [OF assms(5) s1(2)] max_consumers_distinct [of "run_prefix nonce"] by (auto simp: c1_def c2_def)
  then obtain s2 where s2: "runs within within (max_length_pair S c2 ?m2) s1 () s2" "only_under {c2} s1 s2"
    using max_length_pair_passes by blast
  have "runs within within (max_length_ids_are_accepted S nonce) s () s2"
    by (rule runs_max_length [OF assms(3) s1(1) [unfolded c1_def] s2(1) [unfolded c2_def]])
  with only_under_trans [OF s1(2) s2(2)] show ?thesis by (auto simp: insert_commute)
qed

end

context reliable_store
begin

lemma claim_many_passes:
  fixes nonce s
  defines "c \<equiv> check_consumer nonce ''claim-many''"
  assumes "hex_nonce nonce" and "untouched c s"
  shows "\<exists>s'. runs stock.within anywhere.within (claim_many_matches_single_claims S nonce) s () s' \<and> only_under {c} s s'"
proof -
  let ?a = "MessageId (lit ''a'')" and ?b = "MessageId (lit ''b'')" and ?c = "MessageId (lit ''c'')"
  let ?s = "record_keys {key_of c ?b} s"
  have ans: "answer_each c (seen ?s) [?c, ?b, ?a, ?c] = [Fresh, Duplicate, Fresh, Duplicate]"
    using assms(3) by simp
  have "runs stock.within anywhere.within (claim_many_matches_single_claims S nonce) s ()
      (record_keys (key_of c ` set [?c, ?b, ?a, ?c]) ?s)"
    unfolding claim_many_matches_single_claims_def ans [symmetric] unfolding c_def
    by (rule runs_claim_many check_rules runs_check_consumer [OF assms(2)]
        stock.runs_claim_and_commit anywhere.runs_is_committed | use assms in simp)+
  moreover have "only_under {c} s (record_keys (key_of c ` set [?c, ?b, ?a, ?c]) ?s)"
    by (auto simp: only_under_def)
  ultimately show ?thesis by blast
qed

end

subsection \<open>The whole suite\<close>

text \<open>Nothing is recorded under the run's prefix; what a step records is.\<close>

definition fresh_run :: "str \<Rightarrow> 'u inbox_state \<Rightarrow> bool" where
  "fresh_run nonce s \<longleftrightarrow> (\<forall>t. untouched (ConsumerId (run_prefix nonce @ t)) s)"

definition run_consumers :: "str \<Rightarrow> consumer_id set" where
  "run_consumers nonce = {c. \<exists>t. c = ConsumerId (run_prefix nonce @ t)}"

lemma run_consumersI [simp]: "ConsumerId (run_prefix nonce @ t) \<in> run_consumers nonce"
  by (auto simp: run_consumers_def)

lemma only_under_mono: "only_under cs s s' \<Longrightarrow> cs \<subseteq> ds \<Longrightarrow> only_under ds s s'"
  by (auto simp: only_under_def)

lemma wide_names:
  "lit ''bytes'' \<noteq> replicate 226 120" "lit ''claim-many'' \<noteq> replicate 226 120"
  "lit ''bytes'' \<noteq> replicate 56 0x1F600 @ replicate 2 121" "lit ''claim-many'' \<noteq> replicate 56 0x1F600 @ replicate 2 121"
  by (auto dest: arg_cong [where f = length])

context reliable_store
begin

lemma conformance_passes:
  assumes new: "fresh_run (run_new n) s"
  shows "\<exists>s'. runs stock.within anywhere.within (conformance disp S n) s () s' \<and> only_under (run_consumers (run_new n)) s s'"
proof -
  define nonce where "nonce = run_new n"
  have hex: "hex_nonce nonce" by (simp add: nonce_def)
  let ?c = "check_consumer nonce"
  let ?ascii = "ConsumerId (run_prefix nonce @ replicate 226 120)"
  let ?wide = "ConsumerId (run_prefix nonce @ replicate 56 0x1F600 @ replicate 2 121)"
  have u: "untouched (ConsumerId (run_prefix nonce @ t)) s" for t using new by (simp add: fresh_run_def nonce_def)
  obtain s1 where s1: "runs stock.within stock.within (fresh_then_duplicate S nonce) s () s1" "only_under {?c ''fresh''} s s1"
    using stock.fresh_then_duplicate_passes [OF hex u] by blast
  have u1: "untouched (ConsumerId (run_prefix nonce @ t)) s1" if "t \<noteq> lit ''fresh''" for t
    by (rule untouched_step [OF u s1(2)]) (use that in simp)
  have s2: "runs stock.within stock.within (handler_failure_rolls_back disp S nonce) s1 () s1"
    by (rule stock.handler_failure_passes [OF hex]; rule u1; simp)
  have s3: "runs stock.within stock.within (explicit_rollback_discards S nonce) s1 () s1"
    by (rule stock.explicit_rollback_passes [OF hex]; rule u1; simp)
  have "untouched (?c ''dropped'') s1" by (rule u1) simp
  then obtain s4 where s4: "runs stock.within stock.within (dropped_transaction_does_not_persist S nonce) s1 () s4"
    "only_under {?c ''dropped''} s1 s4"
    using stock.dropped_transaction_passes [OF hex] by blast
  have u4: "untouched (ConsumerId (run_prefix nonce @ t)) s4" if "t \<noteq> lit ''fresh''" "t \<noteq> lit ''dropped''" for t
    by (rule untouched_step [OF u1 s4(2)]) (use that in simp_all)
  have "untouched ?ascii s4" "untouched ?wide s4"
    by (rule u4; auto dest: arg_cong [where f = length])+
  then obtain s5 where s5: "runs stock.within stock.within (max_length_ids_are_accepted S nonce) s4 () s5"
    "only_under {?ascii, ?wide} s4 s5"
    using stock.max_length_passes [OF hex] by blast
  have names: "untouched (?c ''bytes'') s4" "untouched (?c ''claim-many'') s4" by (rule u4; simp)+
  have u5: "untouched (?c ''bytes'') s5" "untouched (?c ''claim-many'') s5"
    by (rule untouched_step [OF names(1) s5(2)] untouched_step [OF names(2) s5(2)]; simp only: insert_iff empty_iff consumer_id.inject append_same_eq same_append_eq
        wide_names simp_thms)+
  obtain s6 where s6: "runs stock.within stock.within (ids_compare_byte_for_byte S nonce) s5 () s6" "only_under {?c ''bytes''} s5 s6"
    using stock.ids_compare_passes [OF hex u5(1)] by blast
  have "untouched (?c ''claim-many'') s6" by (rule untouched_step [OF u5(2) s6(2)]) simp
  then obtain s7 where s7: "runs stock.within anywhere.within (claim_many_matches_single_claims S nonce) s6 () s7"
    "only_under {?c ''claim-many''} s6 s7"
    using claim_many_passes [OF hex] by blast
  have "runs stock.within anywhere.within (conformance disp S n) s () s7"
    unfolding conformance_def Let_def nonce_def [symmetric]
    by (rule runs_seq [OF s1(1)] runs_seq [OF s2] runs_seq [OF s3] runs_seq [OF s4(1)] runs_seq [OF s5(1)]
        runs_seq [OF s6(1)] s7(1))+
  moreover note only_under_trans [OF s1(2) only_under_trans [OF s4(2) only_under_trans [OF s5(2)
        only_under_trans [OF s6(2) s7(2)]]]]
  then have "only_under (run_consumers nonce) s s7" by (rule only_under_mono) simp
  ultimately show ?thesis unfolding nonce_def by blast
qed

end

subsection \<open>The batch suite\<close>

lemma batch_names_eq:
  "batch_names = [lit ''m0'', lit ''m1'', lit ''m2'', lit ''m3'', lit ''m4'', lit ''m5'', lit ''m6'', lit ''m7'',
     lit ''m8'', lit ''m9'', lit ''m5'', lit ''m3'']"
  by code_simp

lemma runs_test_messages:
  "list_all (valid_id message_MAX_LEN) ids \<Longrightarrow> runs I I (test_messages ids) s (map MessageId ids) s"
proof (induction ids)
  case (Cons i ids)
  then show ?case by (auto intro!: runs_bind [OF runs_message] runs_bind [OF Cons.IH] runs_return)
qed (simp add: runs_return)

lemma valid_batch_names: "list_all (valid_id message_MAX_LEN) batch_names" "valid_id message_MAX_LEN batch_known"
  by (simp_all add: batch_names_eq batch_known_def valid_id_def message_MAX_LEN_def utf8_char_def is_whitespace_def)

lemma runs_batch_consumers:
  assumes "hex_nonce nonce"
  shows "runs I I (run_consumer nonce ''process-many'') s (check_consumer nonce ''process-many'') s"
    "runs I I (run_consumer nonce ''process-many-effect'') s (check_consumer nonce ''process-many-effect'') s"
  by (rule runs_consumer [OF assms]; simp add: utf8_char_def is_whitespace_def)+

definition batch_bad :: "message_id \<Rightarrow> handler_error option" where
  "batch_bad m = (if message_str m \<in> set batch_poisons then Some (lit ''poison'') else None)"

text \<open>What the batch has to come to: position by position, and in the data.\<close>

definition batch_settled ::
  "consumer_id \<Rightarrow> consumer_id \<Rightarrow> 'u inbox_state \<Rightarrow> message_id \<times> unit process_result \<Rightarrow> bool" where
  "batch_settled inbox effects s p \<longleftrightarrow>
     (let poisoned = message_str (fst p) \<in> set batch_poisons
      in if message_str (fst p) = batch_known then snd p = Inr DuplicateOutcome \<and> key_of effects (fst p) \<notin> seen s
         else isl (snd p) = poisoned \<and> (key_of inbox (fst p) \<in> seen s) = (\<not> poisoned) \<and>
           (key_of effects (fst p) \<in> seen s) = (\<not> poisoned))"

lemma batch_settles:
  fixes s :: "'u inbox_state"
  assumes "untouched c s" and "untouched e s" and "c \<noteq> e"
  defines "eff \<equiv> \<lambda>m. record_keys {key_of e m}" and "ids \<equiv> map MessageId batch_names"
  defines "run \<equiv> batch_decides c batch_bad eff ids (record_keys {key_of c (MessageId batch_known)} s)"
  shows "list_all (batch_settled c e (snd run)) (zip ids (fst run))"
  using assms(1-3)
  by (simp add: run_def batch_decides_def ids_def eff_def batch_names_eq batch_known_def batch_bad_def
      batch_poisons_def batch_settled_def Let_def)

context steady_store
begin

lemma check_batch_passes:
  "list_all (batch_settled inbox effects s) ps \<Longrightarrow> runs within within (check_batch S inbox effects ps) s () s"
proof (induction ps)
  case (Cons p ps)
  obtain m r where p: "p = (m, r)" by (cases p)
  have "batch_settled inbox effects s (m, r)" and IH: "runs within within (check_batch S inbox effects ps) s () s"
    using Cons p by simp_all
  then show ?case
    unfolding p check_batch.simps batch_settled_def Let_def
    by (auto intro!: runs_seq [OF runs_assert] runs_bind [OF runs_is_committed] split: if_splits)
qed (simp add: runs_return)

end

context reliable_savepoints
begin

lemma poison_handler_decided:
  "decided_handler committed view live saved batch_bad (\<lambda>m. record_keys {key_of e m}) (poison_handler disp S e)"
  unfolding decided_handler_def
proof (intro allI impI)
  fix m tx w assume l: "live tx w"
  obtain a tx' w' where run: "op_claim S (claim_request_new e m) tx w = (Inr a, tx', w')"
    using claim_total [OF l] by blast
  from claim_ok [OF l run] claim_keeps_savepoint [OF l run] run
  show "\<exists>tx' w'. poison_handler disp S e m tx w = (case batch_bad m of Some e \<Rightarrow> Inl e | None \<Rightarrow> Inr (), tx', w') \<and>
      live tx' w' \<and> view tx' = record_keys {key_of e m} (view tx) \<and> saved tx' = saved tx \<and> committed w' = committed w"
    by (simp add: poison_handler_def batch_bad_def)
qed

lemma runs_process_many:
  assumes "decided_handler committed view live saved bad eff h"
  shows "runs stock.within anywhere.within (ck_process_many S c ids h) s (fst (batch_decides c bad eff ids s)) (snd (batch_decides c bad eff ids s))"
  unfolding runs_def
proof (intro allI impI)
  fix w assume "stock.within s w"
  with process_many_total [OF inbox_consumer_simps(1) assms, of w c ids]
  show "\<exists>w'. ck_process_many S c ids h w = (Inr (fst (batch_decides c bad eff ids s)), w') \<and>
      anywhere.within (snd (batch_decides c bad eff ids s)) w'"
    by (auto simp: ck_process_many_def)
qed

lemma savepoints_conformance_passes:
  assumes new: "fresh_run (run_new n) s"
  shows "\<exists>s'. runs stock.within anywhere.within (savepoints_conformance disp S n) s () s'"
proof -
  let ?nonce = "run_new n"
  have nonce: "hex_nonce ?nonce" by simp
  let ?c = "check_consumer ?nonce ''process-many''" and ?e = "check_consumer ?nonce ''process-many-effect''"
  let ?s = "record_keys {key_of ?c (MessageId batch_known)} s"
  let ?run = "batch_decides ?c batch_bad (\<lambda>m. record_keys {key_of ?e m}) (map MessageId batch_names) ?s"
  have u: "untouched ?c s" "untouched ?e s" using new by (simp_all only: fresh_run_def)
  have "list_all (batch_settled ?c ?e (snd ?run)) (zip (map MessageId batch_names) (fst ?run))"
    by (rule batch_settles [OF u]) simp
  then have checked: "runs anywhere.within anywhere.within (check_batch S ?c ?e (zip (map MessageId batch_names) (fst ?run))) (snd ?run) () (snd ?run)"
    by (rule anywhere.check_batch_passes)
  have known: "runs stock.within stock.within (claim_and_commit S ?c (MessageId batch_known)) s Fresh ?s"
    using stock.runs_claim_and_commit [of ?c "MessageId batch_known" s] untouchedD [OF u(1)] by (simp del: append_assoc)
  have "runs stock.within anywhere.within (savepoints_conformance disp S n) s () (snd ?run)"
    unfolding savepoints_conformance_def Let_def
    by (intro runs_bind [OF runs_batch_consumers(1) [OF nonce]] runs_bind [OF runs_batch_consumers(2) [OF nonce]]
        runs_bind [OF runs_test_messages [OF valid_batch_names(1)]] runs_bind [OF runs_message [OF valid_batch_names(2)]]
        runs_bind [OF known] runs_seq [OF runs_assert] runs_bind [OF runs_process_many [OF poison_handler_decided]]
        checked refl)
  then show ?thesis by blast
qed

end

subsection \<open>The backends pass\<close>

text \<open>Runs with different hashes do not see each other's rows.\<close>

lemma fresh_run_other:
  assumes "m \<noteq> n" and "fresh_run (run_new m) s" and "only_under (run_consumers (run_new n)) s s'"
  shows "fresh_run (run_new m) s'"
proof -
  have "ConsumerId (run_prefix (run_new m) @ t) \<notin> run_consumers (run_new n)" for t
  proof
    assume "ConsumerId (run_prefix (run_new m) @ t) \<in> run_consumers (run_new n)"
    then obtain t' where "run_new m @ lit ''-'' @ t = run_new n @ lit ''-'' @ t'"
      by (auto simp: run_consumers_def run_prefix_def)
    moreover have "length (run_new m) = length (run_new n)"
      using hex_run_new [of m] hex_run_new [of n] by (simp add: hex_nonce_def)
    ultimately show False using assms(1) run_new_inject by simp
  qed
  with assms(2) untouched_step [OF _ assms(3)] show ?thesis by (simp add: fresh_run_def)
qed

text \<open>C15: a backend whose statements do not fail passes the conformance suite, whatever its database holds, as
  long as the run's hash is new: none of the seven checks panics. The run records nothing under consumer
  ids that do not start with its prefix, so a run with another hash can follow on the same database.\<close>

theorem backends_pass_conformance:
  assumes "reliable_backend d com st live stocked S" and "fresh_run (run_new n) (db_committed com w)" and "stocked w"
  shows "\<exists>w'. conformance disp S n w = (Inr (), w') \<and>
    only_under (run_consumers (run_new n)) (db_committed com w) (db_committed com w') \<and>
    (\<forall>m. m \<noteq> n \<and> fresh_run (run_new m) (db_committed com w) \<longrightarrow> fresh_run (run_new m) (db_committed com w'))"
proof -
  obtain K where "reliable_store S (db_committed com) (tx_view st) live K" and "K w"
    using reliable_backend_savepoints [OF assms(1)] assms(3) by (metis reliable_savepoints_def)
  with reliable_store.conformance_passes [OF this(1) assms(2)] fresh_run_other show ?thesis
    unfolding runs_def by blast
qed

definition sample_hash :: u64 where
  "sample_hash = 0x00c0ffee00c0ffee"

lemma fresh_sample_run: "fresh_run nonce (db_committed ref_com recorded_world)"
  by (auto simp: fresh_run_def untouched_def ref_com_def recorded_world_def key_of_def orders_def msg_def run_prefix_def)

lemma backends_pass_conformance_witness:
  "\<exists>w'. conformance (\<lambda>_. []) (mysql_store (ref_driver calm)) sample_hash recorded_world = (Inr (), w') \<and>
    fresh_run (run_new 7) (db_committed ref_com w')"
proof -
  have "(7 :: u64) \<noteq> sample_hash" by (simp add: sample_hash_def)
  with backends_pass_conformance [OF reliable_backend_ref(3) fresh_sample_run ref_stocked_recorded, of "\<lambda>_. []" sample_hash]
    fresh_sample_run [of "run_new 7"]
  show ?thesis by blast
qed

text \<open>C16: a backend whose statements do not fail passes \<open>savepoints_conformance\<close>: in a batch with poisons at the
  first, a middle and the last position, repeats of a poison and of a success, and a message processed
  before, every assertion on the results, the claims and the effects holds.\<close>

theorem backends_pass_savepoints_conformance:
  assumes "reliable_backend d com st live stocked S" and "fresh_run (run_new n) (db_committed com w)" and "stocked w"
  shows "\<exists>w'. savepoints_conformance disp S n w = (Inr (), w')"
proof -
  obtain K where "reliable_savepoints S (db_committed com) (tx_view st) live K (tx_savepoint st)" and "K w"
    using reliable_backend_savepoints [OF assms(1)] assms(3) by metis
  with reliable_savepoints.savepoints_conformance_passes [OF this(1) assms(2)] show ?thesis unfolding runs_def by blast
qed

lemma backends_pass_savepoints_conformance_witness:
  "\<exists>w'. savepoints_conformance (\<lambda>_. []) (mysql_store (ref_driver calm)) sample_hash recorded_world = (Inr (), w')"
  by (rule backends_pass_savepoints_conformance [OF reliable_backend_ref(3) fresh_sample_run ref_stocked_recorded])

end
