(* ===== verification/Store_Tests.thy ===== *)
theory Store_Tests
  imports Testing Purge
begin

text \<open>
  Nine tests of \<^verbatim>\<open>src/tests/it/sqlite_store.rs\<close> and \<^verbatim>\<open>src/tests/it/postgres_store.rs\<close> that use one connection at a time,
  written as checks over a store. Where a test runs SQL of its own (backdating rows) it acts on
  the rows of the reference database. The model of every backend passes every test there, the
  backend it was written for and the other two. The tests that race several connections are covered by
  \<open>Interference\<close> and \<open>Lock_Timeout\<close>, in general, and batches of any ids by \<open>Delivery\<close>.
\<close>

type_synonym test_store = "(str list ref_tx, str list ref_world) savepoint_ops"
type_synonym test_world = "str list ref_world"
type_synonym store_test = "test_store \<Rightarrow> (unit, test_world) check"

text \<open>\<open>unwrap\<close>, on a value and on a claim in a transaction, and \<open>assert_eq!\<close>.\<close>

definition unwrap :: "('w \<Rightarrow> ('e + 'a) \<times> 'w) \<Rightarrow> ('a, 'w) check" where
  "unwrap f = ck_expect (lit ''unwrap'') f"

definition unwrap_tx ::
  "('tx, 'w, 'z) inbox_ops_scheme \<Rightarrow> ('w \<Rightarrow> (inbox_error + 'a) \<times> 'tx \<times> 'w) \<Rightarrow> ('a \<times> 'tx, 'w) check" where
  "unwrap_tx store f = ck_expect_tx store (lit ''unwrap'') f"

definition must :: "bool \<Rightarrow> (unit, 'w) check" where
  "must b = ck_assert b (lit ''assertion failed'')"

text \<open>A call whose panic (\<open>None\<close>) fails the test.\<close>

definition no_panic :: "('w \<Rightarrow> 'a option \<times> 'w) \<Rightarrow> 'w \<Rightarrow> (check_failure + 'a) \<times> 'w" where
  "no_panic f w = (case f w of (None, w') \<Rightarrow> (Inl (Op_failed (lit ''panic'')), w') | (Some a, w') \<Rightarrow> (Inr a, w'))"

definition consumer_id_of :: "string \<Rightarrow> (consumer_id, 'w) check" where
  "consumer_id_of s = unwrap (Pair (consumer_try_from (lit s)))"

definition message_id_of :: "str \<Rightarrow> (message_id, 'w) check" where
  "message_id_of s = unwrap (Pair (message_try_from s))"

fun each :: "('a \<Rightarrow> ('b, 'w) check) \<Rightarrow> 'a list \<Rightarrow> ('b list, 'w) check" where
  "each f [] = ck_return []"
| "each f (x # xs) = ck_bind (f x) (\<lambda>y. ck_bind (each f xs) (\<lambda>ys. ck_return (y # ys)))"

definition answering :: "handler_error + 't \<Rightarrow> ('t, 'tx, 'w) handler" where
  "answering r tx w = (r, tx, w)"

subsection \<open>Claims\<close>

definition claim_is_fresh_once_then_duplicate :: store_test where
  "claim_is_fresh_once_then_duplicate inbox =
     ck_bind (consumer_id_of ''billing'') (\<lambda>consumer.
     ck_bind (message_id_of (lit ''m-1'')) (\<lambda>ident.
     ck_bind (claim_and_commit inbox consumer ident) (\<lambda>c.
     ck_seq (must (c = Fresh))
     (ck_bind (claim_and_commit inbox consumer ident) (\<lambda>c.
     must (c = Duplicate))))))"

definition a_rolled_back_claim_leaves_no_trace :: store_test where
  "a_rolled_back_claim_leaves_no_trace inbox =
     ck_bind (consumer_id_of ''billing'') (\<lambda>consumer.
     ck_bind (message_id_of (lit ''m-1'')) (\<lambda>ident.
     ck_bind (unwrap (op_begin inbox)) (\<lambda>tx.
     ck_bind (unwrap_tx inbox (op_claim inbox (claim_request_new consumer ident) tx)) (\<lambda>(c, tx).
     ck_seq (must (c = Fresh))
     (ck_bind (\<lambda>w. (Inr (), op_drop inbox tx w)) (\<lambda>_.
     ck_bind (claim_and_commit inbox consumer ident) (\<lambda>c.
     must (c = Fresh))))))))"

text \<open>The claims of a loop in one transaction.\<close>

fun claim_each ::
  "test_store \<Rightarrow> consumer_id \<Rightarrow> message_id list \<Rightarrow> str list ref_tx \<Rightarrow> (claim list \<times> str list ref_tx, test_world) check" where
  "claim_each inbox consumer [] tx = ck_return ([], tx)"
| "claim_each inbox consumer (ident # ids) tx =
     ck_bind (unwrap_tx inbox (op_claim inbox (claim_request_new consumer ident) tx)) (\<lambda>(c, tx).
     ck_bind (claim_each inbox consumer ids tx) (\<lambda>(cs, tx). ck_return (c # cs, tx)))"

definition a_duplicate_inside_one_batch_is_caught_before_the_commit :: store_test where
  "a_duplicate_inside_one_batch_is_caught_before_the_commit inbox =
     ck_bind (consumer_id_of ''billing'') (\<lambda>consumer.
     ck_bind (each message_id_of [lit ''a'', lit ''b'', lit ''a'']) (\<lambda>batch.
     ck_bind (unwrap (op_begin inbox)) (\<lambda>tx.
     ck_bind (claim_each inbox consumer batch tx) (\<lambda>(claims, tx).
     ck_seq (unwrap (op_commit inbox tx))
     (must (claims = [Fresh, Fresh, Duplicate]))))))"

definition a_committed_claim_is_a_known_duplicate :: store_test where
  "a_committed_claim_is_a_known_duplicate inbox =
     ck_bind (consumer_id_of ''billing'') (\<lambda>consumer.
     ck_bind (message_id_of (lit ''m-1'')) (\<lambda>ident.
     ck_bind (unwrap (op_is_known_duplicate inbox consumer ident)) (\<lambda>known.
     ck_seq (must (\<not> known))
     (ck_bind (claim_and_commit inbox consumer ident) (\<lambda>_.
     ck_bind (unwrap (op_is_known_duplicate inbox consumer ident)) (\<lambda>known.
     must known))))))"

subsection \<open>Handlers\<close>

definition a_failing_handler_lets_the_retry_succeed :: store_test where
  "a_failing_handler_lets_the_retry_succeed inbox =
     ck_bind (consumer_id_of ''billing'') (\<lambda>consumer.
     ck_bind (message_id_of (lit ''m-1'')) (\<lambda>ident.
     ck_bind (\<lambda>w. apfst Inr (process (inbox_consumer inbox consumer) ident
         (answering (Inl (lit ''handler exploded'') :: handler_error + unit)) w)) (\<lambda>failed.
     ck_seq (must (isl failed))
     (ck_bind (unwrap (process (inbox_consumer inbox consumer) ident (answering (Inr (42 :: 8 word))))) (\<lambda>retried.
     must (retried = Processed 42))))))"

text \<open>The calls are noted in the application's data, through the connection.\<close>

definition note_call :: "message_id \<Rightarrow> (unit, str list ref_tx, test_world) handler" where
  "note_call ident tx w = (Inr (), tx\<lparr>tx_data := apsnd (\<lambda>calls. calls @ [message_str ident]) (tx_data tx)\<rparr>, w)"

definition process_many_runs_the_handler_once_per_distinct_id :: store_test where
  "process_many_runs_the_handler_once_per_distinct_id inbox =
     ck_bind (consumer_id_of ''many'') (\<lambda>c.
     ck_bind (each message_id_of [lit ''a'', lit ''b'', lit ''a'']) (\<lambda>ids.
     ck_bind (no_panic (process_many (inbox_consumer inbox c) ids note_call)) (\<lambda>results.
     ck_bind (\<lambda>w. (Inr (snd (w_data w)), w)) (\<lambda>calls.
     ck_seq (must (calls = [lit ''a'', lit ''b'']))
     (must (results = Inr [Inr (Processed ()), Inr (Processed ()), Inr DuplicateOutcome]))))))"

definition process_many_reports_a_repeat_of_a_failed_id_as_failed :: store_test where
  "process_many_reports_a_repeat_of_a_failed_id_as_failed inbox =
     ck_bind (consumer_id_of ''repeat-poison'') (\<lambda>c.
     ck_bind (each message_id_of [lit ''a'', lit ''a'']) (\<lambda>ids.
     ck_bind (no_panic (process_many (inbox_consumer inbox c) ids
         (\<lambda>_. answering (Inl (lit ''boom'') :: handler_error + unit)))) (\<lambda>results.
     ck_bind (unwrap (Pair results)) (\<lambda>results.
     ck_seq (must (list_all isl results))
     (ck_bind (unwrap (op_is_known_duplicate inbox c (hd ids))) (\<lambda>known.
     must (\<not> known)))))))"

subsection \<open>Purges\<close>

text \<open>\<open>UPDATE inbox_messages SET processed_at\<close> to an hour before now, for the ids that match.\<close>

definition backdate :: "(str \<Rightarrow> bool) \<Rightarrow> (unit, test_world) check" where
  "backdate P w =
     (Inr (), w\<lparr>w_data := apfst (map (\<lambda>((c, m), r).
        ((c, m), if P m then r\<lparr>processed_at := int (w_step w) - 3600000000\<rparr> else r))) (w_data w)\<rparr>)"

definition purging :: "test_store \<Rightarrow> retention_policy \<Rightarrow> (u64, test_world) check" where
  "purging inbox policy w =
     (case op_purge inbox policy w of None \<Rightarrow> (Inl (Op_failed (lit ''panic'')), w) | Some r \<Rightarrow> unwrap (\<lambda>_. r) w)"

definition process_named :: "test_store \<Rightarrow> consumer_id \<Rightarrow> string \<Rightarrow> (unit outcome, test_world) check" where
  "process_named inbox consumer name =
     ck_bind (message_id_of (lit name)) (\<lambda>ident.
     unwrap (process (inbox_consumer inbox consumer) ident ok_handler))"

definition purge_deletes_only_entries_outside_the_window :: store_test where
  "purge_deletes_only_entries_outside_the_window inbox =
     ck_bind (consumer_id_of ''billing'') (\<lambda>consumer.
     ck_bind (process_named inbox consumer ''old'') (\<lambda>_.
     ck_seq (backdate (\<lambda>m. m = lit ''old''))
     (ck_bind (process_named inbox consumer ''new'') (\<lambda>_.
     ck_bind (purging inbox (retention_new \<lparr>dur_secs = 600, dur_nanos = 0\<rparr>)) (\<lambda>removed.
     ck_seq (must (removed = 1))
     (ck_bind (process_named inbox consumer ''new'') (\<lambda>outcome.
     must (outcome = DuplicateOutcome))))))))"

definition purge_batches_across_multiple_passes :: store_test where
  "purge_batches_across_multiple_passes inbox =
     ck_bind (consumer_id_of ''billing'') (\<lambda>consumer.
     ck_bind (each (process_named inbox consumer) [''m-1'', ''m-2'', ''m-3'']) (\<lambda>_.
     ck_seq (backdate (\<lambda>_. True))
     (ck_bind (purging inbox (with_batch_size 1 (retention_new \<lparr>dur_secs = 600, dur_nanos = 0\<rparr>))) (\<lambda>removed.
     must (removed = 3)))))"

subsection \<open>Every test passes on every backend\<close>

definition migrated :: test_world where
  "migrated = \<lparr>w_data = ([], []), w_vars = w_vars sample_world, w_step = 0, w_next = 0\<rparr>"

definition passes :: "store_test \<Rightarrow> bool" where
  "passes t \<longleftrightarrow> list_all (\<lambda>inbox. fst (t inbox migrated) = Inr ())
     [pg_store (ref_driver calm), mysql_store (ref_driver calm), sqlite_store (ref_driver calm)]"

lemma claim_tests_pass:
  "passes claim_is_fresh_once_then_duplicate" "passes a_rolled_back_claim_leaves_no_trace"
  "passes a_duplicate_inside_one_batch_is_caught_before_the_commit" "passes a_committed_claim_is_a_known_duplicate"
  by code_simp+

lemma handler_tests_pass:
  "passes a_failing_handler_lets_the_retry_succeed" "passes process_many_runs_the_handler_once_per_distinct_id"
  "passes process_many_reports_a_repeat_of_a_failed_id_as_failed"
  by code_simp+

lemma purge_tests_pass:
  "passes purge_deletes_only_entries_outside_the_window" "passes purge_batches_across_multiple_passes"
  by code_simp+

end
