(* ===== verification/Fake_Store.thy ===== *)
theory Fake_Store
  imports Testing
begin

text \<open>
  The in-memory store of \<^verbatim>\<open>src/tests/it/conformance.rs\<close>, on which the suite itself is tested. With
  \<open>leak_on_drop\<close> a dropped transaction stays open on its pooled connection: its claims are left over and
  the next transaction inherits them. With \<open>fold_case\<close> ids are compared in lower case. \<open>str::to_lowercase\<close> is an
  argument \<open>lower\<close>; all that matters of it is that it lowers ASCII letters.
\<close>

record fake_config =
  fold_case :: bool
  leak_on_drop :: bool

record fake_world =
  fake_committed :: "key list"
  fake_leftover :: "key list"

record fake_tx =
  pending :: "key list"

definition fake_key :: "(str \<Rightarrow> str) \<Rightarrow> fake_config \<Rightarrow> claim_request \<Rightarrow> key" where
  "fake_key lower self request =
     (let ident = message_str (req_id request); ident = (if fold_case self then lower ident else ident)
      in (consumer_str (req_consumer request), ident))"

definition fake_begin :: "fake_world \<Rightarrow> (inbox_error + fake_tx) \<times> fake_world" where
  "fake_begin w = (Inr \<lparr>pending = fake_leftover w\<rparr>, w\<lparr>fake_leftover := []\<rparr>)"

text \<open>\<open>commit\<close> and \<open>rollback\<close> settle the transaction, so that its drop does nothing.\<close>

definition fake_commit :: "fake_tx \<Rightarrow> fake_world \<Rightarrow> (inbox_error + unit) \<times> fake_world" where
  "fake_commit tx w = (Inr (), w\<lparr>fake_committed := pending tx @ fake_committed w\<rparr>)"

definition fake_rollback :: "fake_tx \<Rightarrow> fake_world \<Rightarrow> (inbox_error + unit) \<times> fake_world" where
  "fake_rollback tx w = (Inr (), w)"

definition fake_drop :: "fake_config \<Rightarrow> fake_tx \<Rightarrow> fake_world \<Rightarrow> fake_world" where
  "fake_drop self tx w =
     (if leak_on_drop self then w\<lparr>fake_leftover := pending tx @ fake_leftover w\<rparr> else w)"

definition fake_claim ::
  "(str \<Rightarrow> str) \<Rightarrow> fake_config \<Rightarrow> claim_request \<Rightarrow> fake_tx \<Rightarrow> fake_world \<Rightarrow> (inbox_error + claim) \<times> fake_tx \<times> fake_world" where
  "fake_claim lower self request tx w =
     (let key = fake_key lower self request; known = key \<in> set (fake_committed w)
      in if known then (Inr Duplicate, tx, w)
         else if key \<in> set (pending tx) then (Inr Duplicate, tx, w)
         else (Inr Fresh, tx\<lparr>pending := key # pending tx\<rparr>, w))"

definition fake_store :: "(str \<Rightarrow> str) \<Rightarrow> fake_config \<Rightarrow> (fake_tx, fake_world) inbox_ops" where
  "fake_store lower self =
     \<lparr>op_begin = fake_begin, op_commit = fake_commit, op_rollback = fake_rollback, op_drop = fake_drop self,
      op_claim = fake_claim lower self, op_claim_many = default_claim_many (fake_claim lower self),
      op_is_known_duplicate = default_is_known_duplicate, op_purge = (\<lambda>p w. Some (Inr 0, w))\<rparr>"

lemma fake_store_simps [simp]:
  "op_begin (fake_store lw f) = fake_begin" "op_commit (fake_store lw f) = fake_commit"
  "op_rollback (fake_store lw f) = fake_rollback" "op_drop (fake_store lw f) = fake_drop f"
  "op_claim (fake_store lw f) = fake_claim lw f"
  "op_claim_many (fake_store lw f) = default_claim_many (fake_claim lw f)"
  by (simp_all add: fake_store_def)

lemma consumer_claim_fake [simp]:
  "consumer_claim (inbox_consumer (fake_store lw f) c) m = fake_claim lw f (claim_request_new c m)"
  by (intro ext) (simp add: consumer_claim_def inbox_consumer_def consumer_new_def claim_request_new_def)

subsection \<open>The steps of the checks on this store\<close>

text \<open>A store at rest with the committed keys \<open>s\<close>.\<close>

definition fake_at :: "key set \<Rightarrow> fake_world \<Rightarrow> bool" where
  "fake_at s w \<longleftrightarrow> fake_leftover w = [] \<and> set (fake_committed w) = s"

abbreviation fkey :: "(str \<Rightarrow> str) \<Rightarrow> fake_config \<Rightarrow> consumer_id \<Rightarrow> message_id \<Rightarrow> key" where
  "fkey lw f c m \<equiv> fake_key lw f (claim_request_new c m)"

lemma fst_fkey [simp]: "fst (fkey lw f c m) = consumer_str c"
  by (simp add: fake_key_def claim_request_new_def Let_def)

lemmas fake_defs = fake_begin_def fake_commit_def fake_rollback_def fake_drop_def fake_claim_def fake_at_def
lemmas eval_check = runs_def ck_bind_def ck_seq_def ck_expect_def ck_expect_tx_def ck_assert_def ck_return_def

lemma fake_claim_and_commit:
  "runs fake_at fake_at (claim_and_commit (fake_store lw f) c m) s (if fkey lw f c m \<in> s then Duplicate else Fresh)
     (insert (fkey lw f c m) s)"
  by (auto simp: claim_and_commit_def eval_check fake_defs Let_def)

lemma fake_is_committed:
  "runs fake_at fake_at (is_committed (fake_store lw f) c m) s (fkey lw f c m \<in> s) s"
  by (auto simp: is_committed_def eval_check fake_defs Let_def)

lemma fake_process_ok:
  "runs fake_at fake_at (ck_expect l (process (inbox_consumer (fake_store lw f) c) m ok_handler)) s
     (if fkey lw f c m \<in> s then DuplicateOutcome else Processed ()) (insert (fkey lw f c m) s)"
  by (auto simp: process_def process_fresh_def ok_handler_def eval_check fake_defs Let_def)

lemma fake_process_failing:
  assumes "fkey lw f c m \<notin> s"
  shows "runs fake_at fake_at (\<lambda>w. case process (inbox_consumer (fake_store lw f) c) m
      (failing_handler disp (fake_store lw f) e m) w of (r, w') \<Rightarrow> (Inr r, w')) s
    (Inl (Handler (lit ''deliberate handler failure''))) s"
  using assms
  by (auto simp: process_def process_fresh_def failing_handler_def runs_def fake_defs Let_def simp del: lit_simps)

text \<open>A transaction of a check: begin, claim a new message, then some way \<open>g\<close> to end it.\<close>

lemma fake_runs_tx:
  assumes new: "fkey lw f c m \<notin> s"
    and g: "\<And>w tx. fake_at s w \<Longrightarrow> pending tx = [fkey lw f c m] \<Longrightarrow> \<exists>w'. g tx w = (Inr u, w') \<and> fake_at s1 w'"
    and h: "runs fake_at J (h u) s1 a s2"
  shows "runs fake_at J
    (ck_bind (ck_expect l1 (consumer_begin (inbox_consumer (fake_store lw f) c))) (\<lambda>tx.
     ck_bind (ck_expect_tx (fake_store lw f) l2 (consumer_claim (inbox_consumer (fake_store lw f) c) m tx)) (\<lambda>(_, tx).
     ck_bind (g tx) h))) s a s2"
  unfolding runs_def
proof (intro allI impI)
  fix w assume w: "fake_at s w"
  then have run: "fake_begin w = (Inr \<lparr>pending = []\<rparr>, w)"
    "fake_claim lw f (claim_request_new c m) \<lparr>pending = []\<rparr> w = (Inr Fresh, \<lparr>pending = [fkey lw f c m]\<rparr>, w)"
    using new by (auto simp: fake_defs Let_def)
  obtain w1 where w1: "g \<lparr>pending = [fkey lw f c m]\<rparr> w = (Inr u, w1)" "fake_at s1 w1"
    using g [OF w, of "\<lparr>pending = [fkey lw f c m]\<rparr>"] by auto
  obtain w2 where "h u w1 = (Inr a, w2)" "J s2 w2" using h w1(2) unfolding runs_def by blast
  with run w1 show "\<exists>w'. ck_bind (ck_expect l1 (consumer_begin (inbox_consumer (fake_store lw f) c))) (\<lambda>tx.
     ck_bind (ck_expect_tx (fake_store lw f) l2 (consumer_claim (inbox_consumer (fake_store lw f) c) m tx)) (\<lambda>(_, tx).
     ck_bind (g tx) h)) w = (Inr a, w') \<and> J s2 w'"
    by (simp add: eval_check consumer_begin_def)
qed

lemma fake_end:
  "fake_at s w \<Longrightarrow> \<exists>w'. ck_expect l (consumer_rollback (inbox_consumer (fake_store lw f) c) tx) w = (Inr (), w') \<and> fake_at s w'"
  "fake_at s w \<Longrightarrow> pending tx = [k] \<Longrightarrow>
    \<exists>w'. ck_expect l (consumer_commit (inbox_consumer (fake_store lw f) c) tx) w = (Inr (), w') \<and> fake_at (insert k s) w'"
  by (simp_all add: ck_expect_def consumer_rollback_def consumer_commit_def fake_defs)

text \<open>A check that panics.\<close>

definition panics :: "('s \<Rightarrow> 'w \<Rightarrow> bool) \<Rightarrow> ('a, 'w) check \<Rightarrow> 's \<Rightarrow> check_failure \<Rightarrow> bool" where
  "panics I f s e \<longleftrightarrow> (\<forall>w. I s w \<longrightarrow> (\<exists>w'. f w = (Inl e, w')))"

lemma panics_bind: "runs I J f s a s1 \<Longrightarrow> panics J (g a) s1 e \<Longrightarrow> panics I (ck_bind f g) s e"
  unfolding panics_def runs_def ck_bind_def by fastforce

lemma panics_seq: "runs I J f s () s1 \<Longrightarrow> panics J g s1 e \<Longrightarrow> panics I (ck_seq f g) s e"
  unfolding ck_seq_def by (rule panics_bind)

lemma panics_stop: "panics I f s e \<Longrightarrow> panics I (ck_seq f g) s e"
  unfolding panics_def ck_seq_def ck_bind_def by fastforce

lemma panics_assert: "\<not> b \<Longrightarrow> panics I (ck_assert b l) s (Violated l)"
  by (simp add: panics_def ck_assert_def)

subsection \<open>The checks\<close>

text \<open>Nothing is committed under a consumer.\<close>

definition unused :: "consumer_id \<Rightarrow> key set \<Rightarrow> bool" where
  "unused c s \<longleftrightarrow> (\<forall>k\<in>s. fst k \<noteq> consumer_str c)"

lemma unusedD [simp]: "unused c s \<Longrightarrow> fkey lw f c m \<notin> s"
  using fst_fkey by (metis unused_def)

lemma unused_insert [simp]: "unused c (insert (fkey lw f d m) s) \<longleftrightarrow> c \<noteq> d \<and> unused c s"
  by (cases c; cases d) (auto simp: unused_def)

lemma fake_fresh_then_duplicate:
  assumes "hex_nonce nonce" and "unused (check_consumer nonce ''fresh'') s"
  shows "runs fake_at fake_at (fresh_then_duplicate (fake_store lw f) nonce) s ()
    (insert (fkey lw f (check_consumer nonce ''fresh'') (MessageId (lit ''m''))) s)"
proof -
  let ?k = "fkey lw f (check_consumer nonce ''fresh'') (MessageId (lit ''m''))"
  have "runs fake_at fake_at (fresh_then_duplicate (fake_store lw f) nonce) s () (insert ?k (insert ?k s))"
    unfolding fresh_then_duplicate_def Let_def
    by (rule check_rules runs_check_consumer [OF assms(1)] fake_process_ok | use assms in simp)+
  then show ?thesis by simp
qed

lemma fake_handler_failure:
  assumes "hex_nonce nonce" and "unused (check_consumer nonce ''handler-failure'') s"
    "unused (check_consumer nonce ''handler-failure-effect'') s"
  shows "runs fake_at fake_at (handler_failure_rolls_back disp (fake_store lw f) nonce) s () s"
  unfolding handler_failure_rolls_back_def
  by (rule check_rules runs_check_consumer [OF assms(1)] fake_process_failing fake_is_committed | use assms in simp)+

lemma fake_explicit_rollback:
  assumes "hex_nonce nonce" and "unused (check_consumer nonce ''rollback'') s"
  shows "runs fake_at fake_at (explicit_rollback_discards (fake_store lw f) nonce) s () s"
  unfolding explicit_rollback_discards_def Let_def
  by (rule fake_runs_tx fake_end(1) check_rules runs_check_consumer [OF assms(1)] fake_is_committed
      | assumption | use assms in simp)+

lemma fake_dropped:
  assumes "hex_nonce nonce" and "unused (check_consumer nonce ''dropped'') s" and "\<not> leak_on_drop f"
    and "fold_case f \<Longrightarrow> lw (lit ''dropped'') \<noteq> lw (lit ''later'')"
  shows "runs fake_at fake_at (dropped_transaction_does_not_persist (fake_store lw f) nonce) s ()
    (insert (fkey lw f (check_consumer nonce ''dropped'') (MessageId (lit ''later''))) s)"
proof -
  let ?c = "check_consumer nonce ''dropped''"
  have drop: "\<exists>w'. (Inr (), op_drop (fake_store lw f) tx w) = (Inr (), w') \<and> fake_at s w'" if "fake_at s w" for s w tx
    using that assms(3) by (simp add: fake_defs)
  have keys: "fkey lw f ?c (MessageId (lit ''dropped'')) \<notin> insert (fkey lw f ?c (MessageId (lit ''later''))) s"
    using assms(2,4) unusedD [OF assms(2), of lw f "MessageId (lit ''dropped'')"]
    by (auto simp: fake_key_def claim_request_new_def Let_def)
  show ?thesis
    unfolding dropped_transaction_does_not_persist_def Let_def
    by (rule fake_runs_tx drop fake_end(2) check_rules runs_check_consumer [OF assms(1)] fake_is_committed keys
        | assumption | use assms(2) in simp)+
qed

lemma leaky_dropped:
  assumes "hex_nonce nonce" and "unused (check_consumer nonce ''dropped'') s" and "leak_on_drop f" and "\<not> fold_case f"
  shows "panics fake_at (dropped_transaction_does_not_persist (fake_store lw f) nonce) s
    (Violated (lit ''a transaction dropped without commit must roll back''))"
proof -
  let ?c = "check_consumer nonce ''dropped''"
  have "fkey lw f ?c (MessageId (lit ''later'')) \<noteq> fkey lw f ?c (MessageId (lit ''dropped''))"
    using assms(4) by (simp add: fake_key_def claim_request_new_def)
  with unusedD [OF assms(2)] have "panics fake_at
     (let consumer = inbox_consumer (fake_store lw f) ?c in
     ck_bind (ck_expect (lit ''begin'') (consumer_begin consumer)) (\<lambda>tx.
     ck_bind (ck_expect_tx (fake_store lw f) (lit ''claim'') (consumer_claim consumer (MessageId (lit ''dropped'')) tx)) (\<lambda>(_, tx).
     ck_bind (\<lambda>w. (Inr (), op_drop (fake_store lw f) tx w)) (\<lambda>_.
     ck_bind (ck_expect (lit ''begin'') (consumer_begin consumer)) (\<lambda>tx.
     ck_bind (ck_expect_tx (fake_store lw f) (lit ''claim'') (consumer_claim consumer (MessageId (lit ''later'')) tx)) (\<lambda>(_, tx).
     ck_bind (ck_expect (lit ''commit'') (consumer_commit consumer tx)) (\<lambda>_.
     ck_bind (is_committed (fake_store lw f) ?c (MessageId (lit ''later''))) (\<lambda>b.
     ck_seq (ck_assert b (lit ''a committed claim must persist''))
     (ck_bind (is_committed (fake_store lw f) ?c (MessageId (lit ''dropped''))) (\<lambda>b.
     ck_assert (\<not> b) (lit ''a transaction dropped without commit must roll back'')))))))))))  s
    (Violated (lit ''a transaction dropped without commit must roll back''))"
    using assms(3)
    by (simp add: panics_def eval_check fake_defs consumer_begin_def consumer_commit_def is_committed_def Let_def
        del: lit_simps)
  then show ?thesis
    unfolding dropped_transaction_does_not_persist_def
    by (intro panics_bind [OF runs_check_consumer(5) [OF assms(1)]] panics_bind [OF runs_test_message(5)]
        panics_bind [OF runs_test_message(6)])
qed

lemma fake_max_length_pair:
  assumes "unused c s"
  shows "runs fake_at fake_at (max_length_pair (fake_store lw f) c m) s () (insert (fkey lw f c m) s)"
proof -
  have "runs fake_at fake_at (max_length_pair (fake_store lw f) c m) s () (insert (fkey lw f c m) (insert (fkey lw f c m) s))"
    unfolding max_length_pair_def by (rule check_rules fake_claim_and_commit | use assms in simp)+
  then show ?thesis by simp
qed

lemma fake_claim_all:
  assumes "list_all (valid_id message_MAX_LEN) ids" and "distinct (map (\<lambda>i. fkey lw f c (MessageId i)) ids)"
    and "\<forall>i\<in>set ids. fkey lw f c (MessageId i) \<notin> s"
  shows "runs fake_at fake_at (claim_all_fresh (fake_store lw f) c ids) s () (s \<union> (\<lambda>i. fkey lw f c (MessageId i)) ` set ids)"
  using assms
proof (induction ids arbitrary: s)
  case Nil
  then show ?case by (simp add: runs_return)
next
  case (Cons i ids)
  let ?k = "fkey lw f c (MessageId i)"
  have "runs fake_at fake_at (claim_all_fresh (fake_store lw f) c ids) (insert ?k s) ()
      (insert ?k s \<union> (\<lambda>i. fkey lw f c (MessageId i)) ` set ids)"
    by (rule Cons.IH) (use Cons.prems in \<open>auto simp: image_iff\<close>)
  then have "runs fake_at fake_at (claim_all_fresh (fake_store lw f) c (i # ids)) s ()
      (insert ?k s \<union> (\<lambda>i. fkey lw f c (MessageId i)) ` set ids)"
    unfolding claim_all_fresh.simps
    by (intro runs_bind [OF runs_message] runs_bind [OF fake_claim_and_commit] runs_seq [OF runs_assert])
      (use Cons.prems in simp_all)
  then show ?case by simp
qed

lemma claim_all_fresh_append:
  "claim_all_fresh S c (xs @ ys) = ck_seq (claim_all_fresh S c xs) (claim_all_fresh S c ys)"
  by (induction xs) (auto simp: fun_eq_iff ck_seq_def ck_bind_def ck_return_def split: prod.splits sum.splits)

text \<open>A repeated key is caught where it occurs.\<close>

lemma fake_claim_all_collision:
  assumes "list_all (valid_id message_MAX_LEN) (xs @ [i])" and "distinct (map (\<lambda>i. fkey lw f c (MessageId i)) xs)"
    and "\<forall>i\<in>set xs. fkey lw f c (MessageId i) \<notin> s" and "fkey lw f c (MessageId i) \<in> (\<lambda>i. fkey lw f c (MessageId i)) ` set xs"
  shows "panics fake_at (claim_all_fresh (fake_store lw f) c (xs @ i # ys)) s
    (Violated (lit ''collided with an earlier, different id: ids must compare byte for byte''))"
  unfolding claim_all_fresh_append claim_all_fresh.simps
  by (intro panics_seq [OF fake_claim_all] panics_bind [OF runs_message] panics_bind [OF fake_claim_and_commit]
      panics_stop panics_assert) (use assms in simp_all)

lemma fake_max_length:
  fixes nonce
  defines "c1 \<equiv> ConsumerId (run_prefix nonce @ replicate 226 120)"
    and "c2 \<equiv> ConsumerId (run_prefix nonce @ replicate 56 0x1F600 @ replicate 2 121)"
  assumes "hex_nonce nonce" and "unused c1 s" and "unused c2 s"
  shows "runs fake_at fake_at (max_length_ids_are_accepted (fake_store lw f) nonce) s ()
    (insert (fkey lw f c2 (MessageId (replicate 128 0x1F600))) (insert (fkey lw f c1 (MessageId (replicate 512 109))) s))"
  using max_consumers_distinct [of "run_prefix nonce"] assms(3-5) unfolding c1_def c2_def
  by (intro runs_max_length [OF _ fake_max_length_pair fake_max_length_pair]) auto

lemma lit_inject: "lit s = lit t \<longleftrightarrow> s = t"
  unfolding lit_def by (rule inj_map_eq_map) (rule injI, simp)

text \<open>The batch of the last check, claimed in the order \<open>a\<close>, \<open>b\<close>, \<open>c\<close>; \<open>b\<close> is known.\<close>

lemma fake_claim_many:
  fixes nonce
  defines "c \<equiv> check_consumer nonce ''claim-many''"
  assumes "hex_nonce nonce" and "unused c s" and "\<not> fold_case f"
  shows "runs fake_at fake_at (claim_many_matches_single_claims (fake_store lw f) nonce) s ()
    (insert (fkey lw f c (MessageId (lit ''c''))) (insert (fkey lw f c (MessageId (lit ''a'')))
      (insert (fkey lw f c (MessageId (lit ''b''))) s)))"
proof -
  let ?F = "fake_store lw f" and ?a = "MessageId (lit ''a'')" and ?b = "MessageId (lit ''b'')" and ?c = "MessageId (lit ''c'')"
  let ?s = "insert (fkey lw f c ?b) s"
  have ids: "unique_ids [?c, ?b, ?a, ?c] = [?a, ?b, ?c]" by code_simp
  have keys: "distinct [fkey lw f c ?a, fkey lw f c ?b, fkey lw f c ?c]"
    "distinct [fkey lw f c ?c, fkey lw f c ?b, fkey lw f c ?a]"
    using assms(4) by (simp_all add: fake_key_def claim_request_new_def)
  have new: "fkey lw f c ?a \<notin> s" "fkey lw f c ?c \<notin> s" using assms(3) by simp_all
  have timeout: "fake_claim lw f ((claim_request_new c m)\<lparr>req_lock_timeout := None\<rparr>) = fake_claim lw f (claim_request_new c m)" for m
    by (simp add: claim_request_new_def)
  have claimed: "consumer_claim_many (inbox_consumer ?F c) [?c, ?b, ?a, ?c] \<lparr>pending = []\<rparr> w =
      (Some (Inr [Fresh, Duplicate, Fresh, Duplicate]), \<lparr>pending = [fkey lw f c ?c, fkey lw f c ?a]\<rparr>, w)"
    if "fake_at ?s w" for w
    using that keys new
    by (simp add: consumer_claim_many_def ids default_claim_many_def claim_batch_new_def Let_def inbox_consumer_def
        consumer_new_def timeout fake_claim_def fake_at_def lit_inject del: lit_simps)
  have batch: "runs fake_at fake_at
     (ck_bind (ck_expect l1 (op_begin ?F)) (\<lambda>tx.
      ck_bind (ck_claim_many ?F c [?c, ?b, ?a, ?c] tx) (\<lambda>(claims, tx).
      ck_bind (ck_expect l2 (op_commit ?F tx)) (\<lambda>_. g claims)))) ?s () s'"
    if "runs fake_at fake_at (g [Fresh, Duplicate, Fresh, Duplicate]) (insert (fkey lw f c ?c) (insert (fkey lw f c ?a) ?s)) () s'"
    for l1 l2 g s'
    using that claimed
    by (simp add: eval_check ck_claim_many_def fake_begin_def fake_commit_def fake_at_def del: lit_simps)
  show ?thesis
    unfolding claim_many_matches_single_claims_def c_def [symmetric]
    by (intro batch runs_bind [OF runs_test_message(3)] runs_bind [OF runs_test_message(4)] runs_bind [OF runs_test_message(2)]
        runs_bind [OF runs_check_consumer(7) [OF assms(2), folded c_def]] runs_bind [OF fake_claim_and_commit]
        runs_bind [OF fake_is_committed] runs_seq [OF runs_assert] runs_assert) (use assms(3) in simp_all)
qed

subsection \<open>The suite\<close>

text \<open>No transaction is left over and nothing is committed under the run's prefix.\<close>

definition fake_fresh :: "str \<Rightarrow> fake_world \<Rightarrow> bool" where
  "fake_fresh nonce w \<longleftrightarrow> fake_leftover w = [] \<and> (\<forall>k\<in>set (fake_committed w). \<forall>t. fst k \<noteq> run_prefix nonce @ t)"

lemma fake_freshD:
  assumes "fake_fresh nonce w"
  shows "fake_at (set (fake_committed w)) w" and "unused (ConsumerId (run_prefix nonce @ t)) (set (fake_committed w))"
  using assms by (auto simp: fake_fresh_def fake_at_def unused_def)

definition ascii_lower :: "nat \<Rightarrow> nat" where
  "ascii_lower c = (if 65 \<le> c \<and> c \<le> 90 then c + 32 else c)"

text \<open>\<open>str::to_lowercase\<close> on ASCII strings.\<close>

definition lowers_ascii :: "(str \<Rightarrow> str) \<Rightarrow> bool" where
  "lowers_ascii lower \<longleftrightarrow> (\<forall>s. list_all (\<lambda>c. c < 128) s \<longrightarrow> lower s = map ascii_lower s)"

lemma lower_names:
  assumes "lowers_ascii lw"
  shows "lw (lit ''dropped'') \<noteq> lw (lit ''later'')"
    and "lw (replicate 511 109 @ lit ''a'') = replicate 511 109 @ lit ''a''"
    and "lw (replicate 511 109 @ lit ''b'') = replicate 511 109 @ lit ''b''"
    and "lw (lit ''Order-1'') = lit ''order-1''" and "lw (lit ''order-1'') = lit ''order-1''"
  using assms by (simp_all add: lowers_ascii_def ascii_lower_def list_all_iff)

text \<open>The first five checks, on a store that does not leak.\<close>

definition first_checks ::
  "(boxed_error \<Rightarrow> str) \<Rightarrow> ('tx, 'w, 'z) inbox_ops_scheme \<Rightarrow> str \<Rightarrow> (unit, 'w) check" where
  "first_checks disp S nonce =
     ck_seq (fresh_then_duplicate S nonce)
     (ck_seq (handler_failure_rolls_back disp S nonce)
     (ck_seq (explicit_rollback_discards S nonce)
     (ck_seq (dropped_transaction_does_not_persist S nonce)
     (max_length_ids_are_accepted S nonce))))"

lemma ck_seq_assoc: "ck_seq (ck_seq f g) h = ck_seq f (ck_seq g h)"
  by (auto simp: fun_eq_iff ck_seq_def ck_bind_def split: prod.splits sum.splits)

lemma conformance_first:
  "conformance disp S n = ck_seq (first_checks disp S (run_new n))
     (ck_seq (ids_compare_byte_for_byte S (run_new n)) (claim_many_matches_single_claims S (run_new n)))"
  by (simp add: conformance_def first_checks_def ck_seq_assoc Let_def)

lemma fake_first_checks:
  assumes hex: "hex_nonce nonce" and new: "\<And>t. unused (ConsumerId (run_prefix nonce @ t)) s"
    and "\<not> leak_on_drop f" and "lowers_ascii lw"
  shows "\<exists>s'. runs fake_at fake_at (first_checks disp (fake_store lw f) nonce) s () s' \<and>
    unused (check_consumer nonce ''bytes'') s' \<and> unused (check_consumer nonce ''claim-many'') s'"
proof -
  let ?s1 = "insert (fkey lw f (check_consumer nonce ''fresh'') (MessageId (lit ''m''))) s"
  let ?s4 = "insert (fkey lw f (check_consumer nonce ''dropped'') (MessageId (lit ''later''))) ?s1"
  let ?c1 = "ConsumerId (run_prefix nonce @ replicate 226 120)"
  let ?c2 = "ConsumerId (run_prefix nonce @ replicate 56 0x1F600 @ replicate 2 121)"
  let ?s5 = "insert (fkey lw f ?c2 (MessageId (replicate 128 0x1F600))) (insert (fkey lw f ?c1 (MessageId (replicate 512 109))) ?s4)"
  note c1 = fake_fresh_then_duplicate [OF hex new, of lw f]
  have c2: "runs fake_at fake_at (handler_failure_rolls_back disp (fake_store lw f) nonce) ?s1 () ?s1"
    by (rule fake_handler_failure [OF hex]; simp add: new)
  have c3: "runs fake_at fake_at (explicit_rollback_discards (fake_store lw f) nonce) ?s1 () ?s1"
    by (rule fake_explicit_rollback [OF hex]; simp add: new)
  have c4: "runs fake_at fake_at (dropped_transaction_does_not_persist (fake_store lw f) nonce) ?s1 () ?s4"
    by (rule fake_dropped [OF hex _ assms(3) lower_names(1) [OF assms(4)]]) (simp add: new)
  have far: "replicate 226 120 \<noteq> lit ''fresh''" "replicate 226 120 \<noteq> lit ''dropped''"
    "replicate 56 0x1F600 @ replicate 2 121 \<noteq> lit ''fresh''" "replicate 56 0x1F600 @ replicate 2 121 \<noteq> lit ''dropped''"
    by (auto dest: arg_cong [where f = length])
  have c5: "runs fake_at fake_at (max_length_ids_are_accepted (fake_store lw f) nonce) ?s4 () ?s5"
    by (rule fake_max_length [OF hex]; simp only: unused_insert consumer_id.inject same_append_eq far new simp_thms not_False_eq_True)
  have "runs fake_at fake_at (first_checks disp (fake_store lw f) nonce) s () ?s5"
    unfolding first_checks_def by (intro runs_seq [OF c1] runs_seq [OF c2] runs_seq [OF c3] runs_seq [OF c4] c5)
  moreover have "unused (check_consumer nonce ''bytes'') ?s5" "unused (check_consumer nonce ''claim-many'') ?s5"
    using wide_names new by (simp_all only: unused_insert consumer_id.inject same_append_eq lit_inject) simp_all
  ultimately show ?thesis by blast
qed

lemma healthy_bytes:
  assumes "hex_nonce nonce" and "unused (check_consumer nonce ''bytes'') s" and "\<not> fold_case f"
  shows "\<exists>s'. runs fake_at fake_at (ids_compare_byte_for_byte (fake_store lw f) nonce) s () s' \<and>
    (\<forall>c. c \<noteq> check_consumer nonce ''bytes'' \<and> unused c s \<longrightarrow> unused c s')"
proof -
  let ?c = "check_consumer nonce ''bytes''" and ?keys = "(\<lambda>i. fkey lw f (check_consumer nonce ''bytes'') (MessageId i)) ` set byte_ids"
  have "inj_on (\<lambda>i. fkey lw f ?c (MessageId i)) (set byte_ids)"
    using assms(3) by (intro inj_onI) (simp add: fake_key_def claim_request_new_def)
  then have "distinct (map (\<lambda>i. fkey lw f ?c (MessageId i)) byte_ids)" using distinct_byte_ids by (simp add: distinct_map)
  then have "runs fake_at fake_at (ids_compare_byte_for_byte (fake_store lw f) nonce) s () (s \<union> ?keys)"
    unfolding ids_compare_byte_for_byte_def
    by (intro runs_bind [OF runs_check_consumer(6) [OF assms(1)]] fake_claim_all) (use valid_byte_ids assms(2) in auto)
  moreover have "\<forall>c. c \<noteq> ?c \<and> unused c s \<longrightarrow> unused c (s \<union> ?keys)"
    by (auto simp: unused_def consumer_id.expand simp del: lit_simps)
  ultimately show ?thesis by blast
qed

lemma folding_bytes:
  assumes "hex_nonce nonce" and "unused (check_consumer nonce ''bytes'') s" and "fold_case f" and "lowers_ascii lw"
  shows "panics fake_at (ids_compare_byte_for_byte (fake_store lw f) nonce) s
    (Violated (lit ''collided with an earlier, different id: ids must compare byte for byte''))"
proof -
  let ?long = "replicate 511 109"
  let ?xs = "[?long @ lit ''a'', ?long @ lit ''b'', lit ''Order-1'']"
  have ids: "byte_ids = ?xs @ lit ''order-1'' # [lit ''caf'' @ [0xe9], lit ''cafe'']"
    by (simp add: byte_ids_def message_MAX_LEN_def Let_def)
  have key: "fkey lw f (check_consumer nonce ''bytes'') (MessageId i) = (run_prefix nonce @ lit ''bytes'', lw i)" for i
    using assms(3) by (simp add: fake_key_def claim_request_new_def Let_def)
  have len: "?long @ x \<noteq> lit ''order-1''" for x by (auto dest: arg_cong [where f = length])
  show ?thesis
    unfolding ids_compare_byte_for_byte_def ids
  proof (intro panics_bind [OF runs_check_consumer(6) [OF assms(1)]] fake_claim_all_collision)
    show "list_all (valid_id message_MAX_LEN) (?xs @ [lit ''order-1''])" using valid_byte_ids unfolding ids by simp
    show "distinct (map (\<lambda>i. fkey lw f (check_consumer nonce ''bytes'') (MessageId i)) ?xs)"
      using len by (simp add: key lower_names [OF assms(4)] lit_inject del: lit_simps)
    show "\<forall>i\<in>set ?xs. fkey lw f (check_consumer nonce ''bytes'') (MessageId i) \<notin> s" using assms(2) by simp
    show "fkey lw f (check_consumer nonce ''bytes'') (MessageId (lit ''order-1'')) \<in>
        (\<lambda>i. fkey lw f (check_consumer nonce ''bytes'') (MessageId i)) ` set ?xs"
      by (simp add: key lower_names [OF assms(4)] del: lit_simps)
  qed
qed

text \<open>C37: the suite tells a sound store from a broken one. Started in any state in which the run's hash is new, it
  passes on the in-memory store; with \<open>fold_case\<close> it panics at the check on byte-wise comparison, and with
  \<open>leak_on_drop\<close> at the check on dropped transactions, each with the message of its assertion.\<close>

theorem suite_tells_stores_apart:
  assumes "fake_fresh (run_new n) w" and "lowers_ascii lower"
  shows "(\<exists>w'. conformance disp (fake_store lower \<lparr>fold_case = False, leak_on_drop = False\<rparr>) n w = (Inr (), w')) \<and>
    (\<exists>w'. conformance disp (fake_store lower \<lparr>fold_case = True, leak_on_drop = False\<rparr>) n w =
       (Inl (Violated (lit ''collided with an earlier, different id: ids must compare byte for byte'')), w')) \<and>
    (\<exists>w'. conformance disp (fake_store lower \<lparr>fold_case = False, leak_on_drop = True\<rparr>) n w =
       (Inl (Violated (lit ''a transaction dropped without commit must roll back'')), w'))"
proof (intro conjI)
  note hex = hex_run_new [of n] and at = fake_freshD(1) [OF assms(1)] and new = fake_freshD(2) [OF assms(1)]
  let ?s = "set (fake_committed w)" and ?nonce = "run_new n"
  let ?ok = "\<lparr>fold_case = False, leak_on_drop = False\<rparr>" and ?fold = "\<lparr>fold_case = True, leak_on_drop = False\<rparr>"
  let ?leak = "\<lparr>fold_case = False, leak_on_drop = True\<rparr>"
  show "\<exists>w'. conformance disp (fake_store lower ?ok) n w = (Inr (), w')"
  proof -
    have flags: "\<not> leak_on_drop ?ok" "\<not> fold_case ?ok" by simp_all
    obtain s1 where s1: "runs fake_at fake_at (first_checks disp (fake_store lower ?ok) ?nonce) ?s () s1"
      "unused (check_consumer ?nonce ''bytes'') s1" "unused (check_consumer ?nonce ''claim-many'') s1"
      using fake_first_checks [OF hex new flags(1) assms(2), of disp] by blast
    obtain s2 where s2: "runs fake_at fake_at (ids_compare_byte_for_byte (fake_store lower ?ok) ?nonce) s1 () s2"
      "unused (check_consumer ?nonce ''claim-many'') s2"
      using healthy_bytes [OF hex s1(2) flags(2), of lower] s1(3) by (auto simp: lit_inject simp del: lit_simps)
    show ?thesis
      using runs_seq [OF s1(1) runs_seq [OF s2(1) fake_claim_many [OF hex s2(2) flags(2)]]] at
      unfolding runs_def conformance_first by blast
  qed
  show "\<exists>w'. conformance disp (fake_store lower ?fold) n w =
       (Inl (Violated (lit ''collided with an earlier, different id: ids must compare byte for byte'')), w')"
  proof -
    have flags: "\<not> leak_on_drop ?fold" "fold_case ?fold" by simp_all
    obtain s1 where s1: "runs fake_at fake_at (first_checks disp (fake_store lower ?fold) ?nonce) ?s () s1"
      "unused (check_consumer ?nonce ''bytes'') s1"
      using fake_first_checks [OF hex new flags(1) assms(2), of disp] by blast
    show ?thesis
      using panics_seq [OF s1(1) panics_stop [OF folding_bytes [OF hex s1(2) flags(2) assms(2)]]] at
      unfolding panics_def conformance_first by blast
  qed
  show "\<exists>w'. conformance disp (fake_store lower ?leak) n w =
       (Inl (Violated (lit ''a transaction dropped without commit must roll back'')), w')"
  proof -
    have flags: "leak_on_drop ?leak" "\<not> fold_case ?leak" by simp_all
    have "panics fake_at (conformance disp (fake_store lower ?leak) n) ?s
        (Violated (lit ''a transaction dropped without commit must roll back''))"
      unfolding conformance_def Let_def
      by (rule panics_seq [OF fake_fresh_then_duplicate [OF hex new]], rule panics_seq [OF fake_handler_failure [OF hex]],
          rule_tac [3] panics_seq [OF fake_explicit_rollback [OF hex]], rule_tac [4] panics_stop [OF leaky_dropped [OF hex _ flags]])
        (simp_all add: new)
    with at show ?thesis unfolding panics_def by blast
  qed
qed

lemma suite_tells_stores_apart_witness:
  "(\<exists>w'. conformance (\<lambda>_. []) (fake_store (map ascii_lower) \<lparr>fold_case = False, leak_on_drop = False\<rparr>) sample_hash
      \<lparr>fake_committed = [], fake_leftover = []\<rparr> = (Inr (), w')) \<and>
   (\<exists>w'. conformance (\<lambda>_. []) (fake_store (map ascii_lower) \<lparr>fold_case = True, leak_on_drop = False\<rparr>) sample_hash
      \<lparr>fake_committed = [], fake_leftover = []\<rparr> =
       (Inl (Violated (lit ''collided with an earlier, different id: ids must compare byte for byte'')), w'))"
  using suite_tells_stores_apart [of sample_hash "\<lparr>fake_committed = [], fake_leftover = []\<rparr>" "map ascii_lower" "\<lambda>_. []"]
  by (simp add: fake_fresh_def lowers_ascii_def del: lit_simps)

end
