(* ===== verification/Spec2Isabelle.thy ===== *)
theory Spec2Isabelle
  imports Lock_Timeout Kafka_Service Purge_Age Lock_Order Interference Runner_Semantics Store_Tests Fake_Store
begin

text \<open>
  \<^bold>\<open>txbox, a transactional inbox: verification development\<close>

  txbox makes a message consumer idempotent. A consumer opens a database transaction, records the
  message's id in the table \<open>inbox_messages\<close> (a \<^emph>\<open>claim\<close>), runs the handler in the same
  transaction and commits. A redelivery finds the record and is skipped. The development models
  the crate's Rust code as functions in HOL and proves what it promises, for every behaviour of
  the database that its contract allows, failures included.

  \<^bold>\<open>The program and its model\<close>

  \<^item> \<^verbatim>\<open>src/src/types.rs\<close>, \<^verbatim>\<open>error.rs\<close>, \<^verbatim>\<open>retention.rs\<close>: theories \<open>Types\<close>, \<open>Errors\<close>,
    \<open>Retention\<close>. Identifiers are datatypes over strings; a string is its list of code points, and
    \<open>as_bytes\<close> (theory \<open>Prelude\<close>) is its UTF-8 encoding, so that length limits and orders are on
    bytes as in Rust. Fallible functions return a sum (\<open>Inl\<close> the error).
  \<^item> \<^verbatim>\<open>src/src/store.rs\<close>: theory \<open>Store\<close>. The traits \<open>InboxStore\<close> and \<open>Savepoints\<close> are the
    records \<open>inbox_ops\<close> and \<open>savepoint_ops\<close> of their methods, over a type of transactions and a
    type of worlds. What a backend owes its callers is stated as the locales \<open>claim_contract\<close>,
    \<open>inbox_contract\<close> and \<open>savepoints_contract\<close>, over the committed data and the data a
    transaction sees.
  \<^item> \<^verbatim>\<open>src/src/consumer.rs\<close>: theory \<open>Consumer\<close>. \<open>claim\<close>, \<open>claim_many\<close>, \<open>process\<close> and
    \<open>process_many\<close> over any store, with every early return, the drop of the transaction it
    implies, and the panics (\<open>expect\<close>, counter underflow) as the result \<open>None\<close>. The lemmas of
    this theory are proved once, inside the store's locales.
  \<^item> \<^verbatim>\<open>src/src/sql.rs\<close>: theory \<open>Sql\<close>. The SQL text of the sources is an abstract syntax
    \<open>stmt\<close>; \<open>sql_post\<close> says what a statement does to the table, the savepoints and the session.
    The driver (sqlx and the server behind it), the clock, \<open>chrono\<close> and \<open>getrandom\<close> are not
    part of the repository: they are the record \<open>driver\<close>, an argument of every backend
    definition, and the locale \<open>sql_driver\<close> states what the backends rely on. It allows every
    statement to fail, a failure to abort the transaction, and a commit to be applied although it
    reports an error.
  \<^item> \<^verbatim>\<open>src/src/postgres.rs\<close>, \<^verbatim>\<open>mysql.rs\<close>, \<^verbatim>\<open>sqlite.rs\<close>: theories \<open>Postgres\<close>, \<open>Mysql\<close>,
    \<open>Sqlite\<close>. Each holds the backend's statements, error classification and methods, assembled
    in \<open>pg_store\<close>, \<open>mysql_store\<close> and \<open>sqlite_store\<close>, and a \<open>sublocale\<close> by which every
    lawful driver makes it a store that keeps \<open>savepoints_contract\<close>. MySQL needs more of its
    driver (locale \<open>mysql_driver\<close>): session variables are not transactional, and a random token is
    fresh.
  \<^item> \<^verbatim>\<open>src/src/testing.rs\<close>: theory \<open>Testing\<close>, the conformance suites as programs over the store record; a
    panic is a value with the message of the \<open>expect\<close> or assertion, and the hash that \<open>Run::new\<close> formats is an
    argument. Theory \<open>Fake_Store\<close> is the in-memory store of \<^verbatim>\<open>src/tests/it/conformance.rs\<close> with both of its
    flags, and theory \<open>Runner_Semantics\<close> the counting store and the tests of
    \<^verbatim>\<open>src/tests/it/runner_semantics.rs\<close>. Theory \<open>Store_Tests\<close> holds tests of \<^verbatim>\<open>sqlite_store.rs\<close> and
    \<^verbatim>\<open>postgres_store.rs\<close>, run on the reference database. Theory \<open>Unit_Tests\<close> holds the test modules inside \<^verbatim>\<open>types.rs\<close>, \<^verbatim>\<open>postgres.rs\<close> and \<^verbatim>\<open>mysql.rs\<close>.
  \<^item> \<^verbatim>\<open>src/migrations\<close> and \<open>migrate()\<close>: theory \<open>Migrations\<close>. The DDL is an abstract syntax with its meaning on a
    catalogue; sqlx's migrator is an argument.
  \<^item> \<^verbatim>\<open>src/examples/kafka_consumer.rs\<close>: theory \<open>Kafka_Consumer\<close>, the receive loop and its
    restarts, and theory \<open>Kafka_Service\<close>, \<open>main\<close> with its set-up, the loop and the purge task.
  \<^item> Theory \<open>Reference_Db\<close> is an executable database with a fault schedule. It interprets
    \<open>sql_driver\<close> and \<open>mysql_driver\<close>, so the contracts can be met, and the concrete runs beside
    the theorems are runs on it.

  \<^bold>\<open>What is proved\<close>

  \<^item> \<open>Delivery\<close>: \<open>process\<close> and \<open>process_many\<close> are atomic on the three SQL backends, refine
    their specifications (\<open>process_post\<close>, the inductive \<open>batch_spec\<close>) and never panic; over any
    history of deliveries each message takes effect at most once; \<open>claim_many\<close> answers like
    single claims and equals the trait's default loop; the look-up is exact; and three limits of
    the guarantee: a swallowed database error, a lost acknowledgement of a batch, a repeated token.
  \<^item> \<open>Protocol\<close>: what the consumer owes the store. On every store, lawful or not, \<open>process\<close> and \<open>process_many\<close> call
    the store in a fixed order, end each transaction they began exactly once, and do not panic. The store is
    wrapped in one that notes its calls, for \<open>process\<close> together with every answer, so that the inductive \<open>process_run\<close>
    fixes the next call and the result by the answers so far.
  \<^item> \<open>Reliable\<close>: the contracts hold of a store that always fails, so the converse is stated too. Locales
    \<open>reliable_store\<close> and \<open>reliable_savepoints\<close> say that operations succeed, and then \<open>process\<close> settles every
    message and \<open>process_many\<close> does what one \<open>process\<close> call per message does. \<open>Reliable_Backends\<close> gives the
    locales for the three backends over a \<open>reliable_driver\<close>. MySQL's \<open>claim_many\<close> draws a random token, so there
    a batch needs a world that is \<open>stocked\<close>, in which the next token is fresh.
  \<^item> \<open>Testing\<close>: such a backend passes both conformance suites on any database in which the run's hash is new, and
    runs do not see each other. \<open>Fake_Store\<close>: the suite passes on the plain in-memory store and catches the leaky
    and the case-folding one. \<open>Unit_Tests\<close>, \<open>Runner_Semantics\<close>, \<open>Store_Tests\<close>: the model passes the
    crate's unit tests, the tests of the consumer's control flow and those of the stores.
  \<^item> \<open>Migrations\<close>: the migrations are idempotent, because every statement has its \<open>IF NOT EXISTS\<close>, and rows under the schema they create represent the map from
    keys to rows on which the backends are modelled: every id the API can build fits its column, and keys
    compare as identifiers do.
  \<^item> \<open>Interference\<close>: sessions beside each other. The server is the log of its commits, to which others
    add during every statement (locales \<open>shared_driver\<close> and \<open>shared_store\<close>). \<open>process\<close> on the three backends commits
    record and writes together or nothing, and of any number of sessions that deliver the same message at most
    one answers \<open>Processed\<close>.
  \<^item> \<open>Lock_Order\<close>: the batch claims the consumer sends on PostgreSQL lock their rows in one order, so on every server
    that locks as the locale \<open>row_locks\<close> says they do not deadlock.
  \<^item> \<open>Retention_Window\<close>: deliveries and purges in any order under a clock (locale \<open>timed_store\<close>, for the
    three backends):
    at most one effect per message as long as redeliveries stay within the window a purge keeps, and a
    second effect beyond it. \<open>Kafka_Service\<close> applies this to the example, from \<open>main\<close> on.
  \<^item> \<open>Purge\<close> and \<open>Purge_Age\<close>: the purge loops end, for every policy the API can build, count exactly what they
    removed, remove nothing young and leave nothing old. On PostgreSQL and MySQL ages are by the server's clock (locale
    \<open>punctual_driver\<close>), up to the rounding of the age that is sent. The loop is a
    \<open>partial_function (option)\<close>; that it returns is part of each theorem.
  \<^item> \<open>Lock_Timeout\<close>: bounds of the timeouts sent, the lent MySQL session variable, and that a call which reports contention
    has left no trace.
  \<^item> \<open>Types\<close>: validation on every branch, well-formedness of every id that can be built, injectivity of \<open>scoped\<close>, byte order and code point order
    agree. \<open>Kafka_Consumer\<close>: no committed offset without a record, no key twice.

  \<^bold>\<open>Bounds\<close>

  No fuel is used. Machine integers keep their width (\<open>u32\<close>, \<open>u64\<close>, \<open>u128\<close>, \<open>i32\<close> as words),
  the purge counter wraps as in a release build. \<open>Duration\<close> is its two fields.

  \<^bold>\<open>What is not modelled\<close>

  \<^item> The contracts of \<open>Store\<close> describe one session: a transaction's view starts from the committed data and
    nothing else commits while it runs. \<open>Interference\<close> drops this for \<open>process\<close>; purges and \<open>process_many\<close> beside
    other sessions are not covered.
  \<^item> Locks are modelled as far as \<open>Lock_Order\<close> needs them: for PostgreSQL, for transactions that send one claiming
    statement, as \<open>process\<close> and \<open>process_many\<close> do, and without locks a handler takes on the application's tables. On
    MySQL \<open>INSERT IGNORE\<close> can deadlock when the holder of the row rolls back; the backend answers \<open>Contended\<close>.
  \<^item> In \<open>Retention_Window\<close> the clock of SQLite is that of the callers, taken to be one.
  \<^item> Connection pools, tracing and re-exports (\<^verbatim>\<open>src/src/lib.rs\<close>) carry no state of the inbox. Of \<^verbatim>\<open>src/tests\<close> those
    that race connections, read tracing output or depend on a server's own SQL are left out.
  \<^item> Cancellation of a future is modelled where the sources discuss it: a dropped transaction
    (\<open>op_drop\<close>) and a MySQL claim stopped between its statements (\<open>Lock_Timeout\<close>).
\<close>

end
